(* ===== verification/Prelude.thy ===== *)
theory Prelude
  imports Main "HOL-Library.Word"
begin

text \<open>
  The vocabulary shared by every component of the model.

  A C++ function that may fail (a failed \<open>assert\<close>, a call of \<open>abort\<close>, an access outside a
  vector, an exception of the standard library, a dangling pointer) returns a \<open>result\<close>, the sum
  of a \<open>fault\<close> and its value; \<open>rbind\<close> sequences such functions and \<open>assertC\<close> is the \<open>assert\<close>
  macro (the build files define no NDEBUG, so a failed assertion aborts the process).

  The theory also holds the C++ integer operations that differ from the ones of HOL
  (division and remainder truncate towards zero), the loops over a vector (\<open>rfold\<close>), a generic
  lemma on reachable states, and a few facts on lists.
\<close>

section \<open>Faults and results\<close>

datatype fault =
    AssertFail      \<comment> \<open>\<open>assert\<close> failed\<close>
  | Aborted         \<comment> \<open>\<open>abort()\<close> was called\<close>
  | OutOfBounds     \<comment> \<open>an access outside the storage of a vector\<close>
  | LengthError     \<comment> \<open>\<open>std::length_error\<close> of a vector\<close>
  | NullDeref       \<comment> \<open>a null or empty pointer was dereferenced\<close>
  | Dangling        \<comment> \<open>an object was used after its lifetime\<close>
  | Overflow        \<comment> \<open>a signed integer left its range\<close>
  | BadCall         \<comment> \<open>an empty \<open>std::function\<close> was called\<close>

type_synonym 'a result = "fault + 'a"

definition rbind :: "'a result \<Rightarrow> ('a \<Rightarrow> 'b result) \<Rightarrow> 'b result" where
  "rbind m f = (case m of Inl e \<Rightarrow> Inl e | Inr x \<Rightarrow> f x)"

definition assertC :: "bool \<Rightarrow> 'a result \<Rightarrow> 'a result" where
  "assertC b m = (if b then m else Inl AssertFail)"

definition faultless :: "'a result \<Rightarrow> bool" where
  "faultless m = (case m of Inl _ \<Rightarrow> False | Inr _ \<Rightarrow> True)"

named_theorems result_simps

lemma rbind_Inr [simp]: "rbind (Inr x) f = f x"
  by (simp add: rbind_def)

lemma rbind_Inl [simp]: "rbind (Inl e) f = Inl e"
  by (simp add: rbind_def)

lemma rbind_eq_Inr [result_simps]: "rbind m f = Inr y \<longleftrightarrow> (\<exists>x. m = Inr x \<and> f x = Inr y)"
  by (cases m) auto

lemma rbind_eq_Inl: "rbind m f = Inl e \<longleftrightarrow> m = Inl e \<or> (\<exists>x. m = Inr x \<and> f x = Inl e)"
  by (cases m) auto

lemma assertC_True [simp]: "b \<Longrightarrow> assertC b m = m"
  by (simp add: assertC_def)

lemma assertC_False [simp]: "\<not> b \<Longrightarrow> assertC b m = Inl AssertFail"
  by (simp add: assertC_def)

lemma assertC_eq_Inr [result_simps]: "assertC b m = Inr y \<longleftrightarrow> b \<and> m = Inr y"
  by (simp add: assertC_def)

lemma faultless_iff: "faultless m \<longleftrightarrow> (\<exists>x. m = Inr x)"
  by (cases m) (auto simp: faultless_def)

subsection \<open>Loops over a vector\<close>

fun rfold :: "('a \<Rightarrow> 's \<Rightarrow> 's result) \<Rightarrow> 'a list \<Rightarrow> 's \<Rightarrow> 's result" where
  "rfold f [] s = Inr s"
| "rfold f (x # xs) s = rbind (f x s) (rfold f xs)"

lemma rfold_append: "rfold f (xs @ ys) s = rbind (rfold f xs s) (rfold f ys)"
  by (induction xs arbitrary: s) (auto simp: rbind_def split: sum.splits)

lemma rfold_inv:
  assumes "\<And>x s s'. x \<in> set xs \<Longrightarrow> P s \<Longrightarrow> f x s = Inr s' \<Longrightarrow> P s'"
    and "P s" and "rfold f xs s = Inr s'"
  shows "P s'"
  using assms
proof (induction xs arbitrary: s)
  case Nil
  then show ?case by simp
next
  case (Cons x xs)
  from Cons.prems(3) obtain t where t: "f x s = Inr t" and r: "rfold f xs t = Inr s'"
    by (auto simp: rbind_eq_Inr)
  from t Cons.prems(1,2) have "P t" by auto
  then show ?case
    using Cons.IH [of t] Cons.prems(1) r by auto
qed

lemma rfold_total:
  assumes "\<And>x s. x \<in> set xs \<Longrightarrow> P s \<Longrightarrow> \<exists>s'. f x s = Inr s' \<and> P s'" and "P s"
  shows "\<exists>s'. rfold f xs s = Inr s' \<and> P s'"
  using assms
proof (induction xs arbitrary: s)
  case Nil
  then show ?case by simp
next
  case (Cons x xs)
  from Cons.prems obtain t where "f x s = Inr t" and "P t" by (meson list.set_intros(1))
  then show ?case using Cons.IH [of t] Cons.prems(1) by auto
qed

text \<open>A system call returns a value or fails with an errno.\<close>

datatype 'a syscall = Ret 'a | Err int

text \<open>What \<open>CurrentThread::tid()\<close> returns: the number of a thread, which is not 0.\<close>

type_synonym tid = nat

section \<open>C++ integers\<close>

type_synonym byte = "8 word"
type_synonym size_t = "64 word"

text \<open>\<open>/\<close> and \<open>%\<close> on signed integers truncate towards zero.\<close>

definition cdiv :: "int \<Rightarrow> int \<Rightarrow> int" where
  "cdiv a b = sgn a * sgn b * (\<bar>a\<bar> div \<bar>b\<bar>)"

definition cmod :: "int \<Rightarrow> int \<Rightarrow> int" where
  "cmod a b = a - b * cdiv a b"

definition in_int64 :: "int \<Rightarrow> bool" where
  "in_int64 i \<longleftrightarrow> - (2 ^ 63) \<le> i \<and> i < 2 ^ 63"

definition in_int32 :: "int \<Rightarrow> bool" where
  "in_int32 i \<longleftrightarrow> - (2 ^ 31) \<le> i \<and> i < 2 ^ 31"

lemma cdiv_nonneg: "0 \<le> a \<Longrightarrow> 0 < b \<Longrightarrow> cdiv a b = a div b"
  by (cases "a = 0") (auto simp: cdiv_def)

lemma cmod_nonneg: "0 \<le> a \<Longrightarrow> 0 < b \<Longrightarrow> cmod a b = a mod b"
  by (simp add: cmod_def cdiv_nonneg minus_mult_div_eq_mod)

lemma cdiv_cmod: "cdiv a b * b + cmod a b = a"
  by (simp add: cmod_def)

lemma cdiv_neg: "a < 0 \<Longrightarrow> 0 < b \<Longrightarrow> cdiv a b = - ((- a) div b)"
  by (simp add: cdiv_def)

lemma cmod_neg: "a < 0 \<Longrightarrow> 0 < b \<Longrightarrow> cmod a b = - ((- a) mod b)"
  by (simp add: cmod_def cdiv_neg) (metis add.commute add.inverse_inverse minus_diff_eq
      minus_mult_div_eq_mod mult_minus_right uminus_add_conv_diff)

section \<open>Reachable states\<close>

text \<open>
  \<open>reach init step s\<close>: the state \<open>s\<close> is reached from an initial state by steps. An invariant is
  proved for the initial states and for one step; the locale carries it to the reachable states
  and is interpreted on every step relation of the development.
\<close>

inductive reach :: "('s \<Rightarrow> bool) \<Rightarrow> ('s \<Rightarrow> 's \<Rightarrow> bool) \<Rightarrow> 's \<Rightarrow> bool"
  for init :: "'s \<Rightarrow> bool" and step :: "'s \<Rightarrow> 's \<Rightarrow> bool" where
  reach_init: "init s \<Longrightarrow> reach init step s"
| reach_step: "reach init step s \<Longrightarrow> step s t \<Longrightarrow> reach init step t"

locale invariant_system =
  fixes init :: "'s \<Rightarrow> bool" and step :: "'s \<Rightarrow> 's \<Rightarrow> bool" and inv :: "'s \<Rightarrow> bool"
  assumes init_inv: "init s \<Longrightarrow> inv s"
    and step_inv: "inv s \<Longrightarrow> step s t \<Longrightarrow> inv t"
begin

lemma reach_inv: "reach init step s \<Longrightarrow> inv s"
  by (induction rule: reach.induct) (auto intro: init_inv step_inv)

lemma steps_inv: "step\<^sup>*\<^sup>* s t \<Longrightarrow> inv s \<Longrightarrow> inv t"
  by (induction rule: rtranclp_induct) (auto intro: step_inv)

end

text \<open>
  A system that simulates another: under its invariant every step is, seen through \<open>view\<close>, some steps
  of the other one, perhaps none. Then its reachable states are reachable states of the other.
\<close>

lemma reach_steps: "step\<^sup>*\<^sup>* s t \<Longrightarrow> reach init step s \<Longrightarrow> reach init step t"
  by (induction rule: rtranclp_induct) (auto intro: reach_step)

locale simulation = invariant_system init step inv
  for init :: "'s \<Rightarrow> bool" and step :: "'s \<Rightarrow> 's \<Rightarrow> bool" and inv :: "'s \<Rightarrow> bool" +
  fixes init' :: "'a \<Rightarrow> bool" and step' :: "'a \<Rightarrow> 'a \<Rightarrow> bool" and view :: "'s \<Rightarrow> 'a"
  assumes view_init: "init s \<Longrightarrow> init' (view s)"
    and view_step: "inv s \<Longrightarrow> step s t \<Longrightarrow> step'\<^sup>*\<^sup>* (view s) (view t)"
begin

lemma reach_view: "reach init step s \<Longrightarrow> reach init' step' (view s)"
proof (induction rule: reach.induct)
  case (reach_step s t)
  from view_step [OF reach_inv [OF reach_step.hyps(1)] reach_step.hyps(2)] reach_step.IH show ?case by (rule reach_steps)
qed (rule reach.reach_init, rule view_init)

end

section \<open>Decimal text\<close>

text \<open>What the conversions \<open>%d\<close>, \<open>%ld\<close> and \<open>%u\<close> of \<open>snprintf\<close> write, and its truncation.\<close>

definition digit :: "nat \<Rightarrow> char" where
  "digit d = char_of (48 + d)"

fun dec :: "nat \<Rightarrow> string" where
  "dec n = (if n < 10 then [digit n] else dec (n div 10) @ [digit (n mod 10)])"

declare dec.simps [simp del]

definition dec_int :: "int \<Rightarrow> string" where
  "dec_int i = (if i < 0 then ''-'' @ dec (nat (- i)) else dec (nat i))"

text \<open>\<open>%.06ld\<close>: the sign, then at least six digits.\<close>

definition dec_int6 :: "int \<Rightarrow> string" where
  "dec_int6 i =
     (let ds = dec (nat \<bar>i\<bar>) in
      (if i < 0 then ''-'' else []) @ replicate (6 - length ds) (digit 0) @ ds)"

definition snprintf :: "nat \<Rightarrow> string \<Rightarrow> string" where
  "snprintf n str = take (n - 1) str"

definition undec :: "string \<Rightarrow> nat" where
  "undec str = foldl (\<lambda>a c. 10 * a + (of_char c - 48)) 0 str"

lemma of_char_digit [simp]: "d < 10 \<Longrightarrow> (of_char (digit d) :: nat) = 48 + d"
  by (simp add: digit_def)

lemma undec_dec [simp]: "undec (dec n) = n"
proof (induction n rule: dec.induct)
  case (1 n)
  show ?case
  proof (cases "n < 10")
    case True
    then show ?thesis by (simp add: dec.simps [of n] undec_def)
  next
    case False
    with 1 have "undec (dec (n div 10)) = n div 10" by simp
    with False show ?thesis by (subst dec.simps) (simp add: undec_def)
  qed
qed

lemma dec_inj: "dec m = dec n \<Longrightarrow> m = n"
  by (metis undec_dec)

lemma dec_digits: "c \<in> set (dec n) \<Longrightarrow> \<exists>d < 10. c = digit d"
proof (induction n rule: dec.induct)
  case (1 n)
  have last: "\<exists>d < 10. digit (n mod 10) = digit d" by (intro exI [of _ "n mod 10"]) simp
  show ?case
  proof (cases "n < 10")
    case True
    with 1 show ?thesis by (auto simp: dec.simps [of n])
  next
    case False
    with 1 have "c \<in> set (dec (n div 10)) \<or> c = digit (n mod 10)"
      by (auto simp: dec.simps [of n])
    with 1 False last show ?thesis by auto
  qed
qed

lemma dec_nonempty [simp]: "dec n \<noteq> []"
  by (subst dec.simps) simp

lemma length_dec: "n < 10 ^ Suc k \<Longrightarrow> length (dec n) \<le> Suc k"
proof (induction k arbitrary: n)
  case 0
  then show ?case by (simp add: dec.simps)
next
  case (Suc k)
  show ?case
  proof (cases "n < 10")
    case True
    then show ?thesis by (simp add: dec.simps)
  next
    case False
    from Suc.prems have "n div 10 < 10 ^ Suc k" by (simp add: less_mult_imp_div_less)
    with Suc.IH False show ?thesis by (subst dec.simps) simp
  qed
qed

lemma snprintf_fits: "length str < n \<Longrightarrow> snprintf n str = str"
  by (simp add: snprintf_def)

lemma undec_zeros [simp]: "undec (replicate k (digit 0) @ str) = undec str"
  by (induction k) (auto simp: undec_def)

lemma digit_range: "c = digit d \<Longrightarrow> d < 10 \<Longrightarrow> (of_char c :: nat) \<in> {48..57}"
  by simp

lemma digit_neq: "(of_char c :: nat) \<notin> {48..57} \<Longrightarrow> d < 10 \<Longrightarrow> digit d \<noteq> c"
  using digit_range by metis

lemma not_in_dec: "(of_char c :: nat) \<notin> {48..57} \<Longrightarrow> c \<notin> set (dec n)"
  using dec_digits digit_neq by metis

lemma minus_not_digit [simp]: "CHR ''-'' \<notin> set (dec n)"
  by (rule not_in_dec) simp

lemma space_not_digit [simp]: "CHR '' '' \<notin> set (dec n)"
  by (rule not_in_dec) simp

lemma hash_not_digit [simp]: "CHR ''#'' \<notin> set (dec n)"
  by (rule not_in_dec) simp

lemma dec_int_inj:
  assumes "dec_int i = dec_int j"
  shows "i = j"
proof -
  have minus: "dec n \<noteq> CHR ''-'' # dec m" for m n
    using minus_not_digit [of n] by (metis list.set_intros(1))
  show ?thesis
    using assms minus [of "nat i" "nat (- j)"] minus [of "nat j" "nat (- i)"]
    by (auto simp: dec_int_def split: if_splits dest: dec_inj)
qed

lemma dec_int6_inj:
  assumes "dec_int6 i = dec_int6 j"
  shows "i = j"
proof -
  have minus: "CHR ''-'' \<notin> set (replicate k (digit 0) @ dec n)" for k n
    using digit_neq [of "CHR ''-''" 0] by auto
  have zeros: "replicate k (digit 0) @ dec m = replicate l (digit 0) @ dec n \<Longrightarrow> m = n" for k l m n
    by (metis undec_zeros undec_dec)
  have sign: "replicate k (digit 0) @ dec m \<noteq> CHR ''-'' # us" for k m us
    using minus [of k m] by (metis list.set_intros(1))
  show ?thesis
    using assms sign sign [THEN not_sym]
    by (auto simp: dec_int6_def Let_def abs_if split: if_splits dest: zeros)
qed

text \<open>A separator that occurs in neither first part splits a text in one way.\<close>

lemma split_at_sep:
  assumes "xs @ c # us = ys @ c # vs" and "c \<notin> set xs" and "c \<notin> set ys"
  shows "xs = ys \<and> us = vs"
  using assms
proof (induction xs arbitrary: ys)
  case Nil
  then show ?case by (cases ys) auto
next
  case (Cons x xs)
  then show ?case by (cases ys) auto
qed

section \<open>Lists\<close>

lemma take_drop_split: "i \<le> j \<Longrightarrow> take i xs @ take (j - i) (drop i xs) = take j xs"
  by (metis le_add_diff_inverse take_add)

lemma distinct_map_nth_eq:
  "distinct (map f xs) \<Longrightarrow> i < length xs \<Longrightarrow> j < length xs \<Longrightarrow> f (xs ! i) = f (xs ! j) \<Longrightarrow> i = j"
  by (metis length_map nth_eq_iff_index_eq nth_map)

end
