(* ===== verification/Interfaces.thy ===== *)
theory Interfaces
  imports Prelude
begin

text \<open>
  The contracts between the components, each a locale whose parameters are the operations the
  client calls and whose assumptions are what the provider promises. The client's lemmas are
  proved here, over the parameters; every locale is interpreted on the model's own definitions
  in the theory of the component that provides them.
\<close>

section \<open>A queue of bytes\<close>

text \<open>
  What TcpConnection needs of its two Buffers: bytes are appended at the back and taken from the
  front. \<open>ok\<close> is the well-formedness invariant, \<open>view\<close> the queued bytes, \<open>fits\<close> the bound below
  which an append cannot exceed the maximal size of the storage.
\<close>

locale byte_fifo =
  fixes ok :: "'b \<Rightarrow> bool" and view :: "'b \<Rightarrow> byte list" and fits :: "'b \<Rightarrow> nat \<Rightarrow> bool"
    and enq :: "byte list \<Rightarrow> 'b \<Rightarrow> 'b result" and deq :: "size_t \<Rightarrow> 'b \<Rightarrow> 'b result"
  assumes enq_view: "ok b \<Longrightarrow> fits b (length d) \<Longrightarrow>
      \<exists>b'. enq d b = Inr b' \<and> ok b' \<and> view b' = view b @ d"
    and deq_view: "ok b \<Longrightarrow> unat n \<le> length (view b) \<Longrightarrow>
      \<exists>b'. deq n b = Inr b' \<and> ok b' \<and> view b' = drop (unat n) (view b)"
    and deq_fault: "ok b \<Longrightarrow> length (view b) < unat n \<Longrightarrow> deq n b = Inl AssertFail"
    and fits_less: "fits b i \<Longrightarrow> j \<le> i \<Longrightarrow> fits b j"
begin

text \<open>A partial write of \<open>n\<close> bytes: what was written followed by what is left is what there was.\<close>

lemma write_some:
  assumes "ok b" and "unat n \<le> length (view b)"
  shows "\<exists>b'. deq n b = Inr b' \<and> ok b' \<and> take (unat n) (view b) @ view b' = view b \<and>
    (view b' = [] \<longleftrightarrow> unat n = length (view b))"
proof -
  from deq_view [OF assms] obtain b' where
    "deq n b = Inr b'" "ok b'" "view b' = drop (unat n) (view b)" by blast
  then show ?thesis using assms(2) by auto
qed

text \<open>The rest of a message of which \<open>n\<close> bytes are written goes to the back of the queue.\<close>

lemma queue_rest:
  assumes "ok b" and "fits b (length m)"
  shows "\<exists>b'. enq (drop n m) b = Inr b' \<and> ok b' \<and> view b' = view b @ drop n m"
proof -
  from assms(2) have "fits b (length (drop n m))" by (rule fits_less) simp
  with assms(1) show ?thesis by (rule enq_view)
qed

lemma deq_Inr_iff:
  assumes "ok b"
  shows "(\<exists>b'. deq n b = Inr b') \<longleftrightarrow> unat n \<le> length (view b)"
  using deq_view [OF assms, of n] deq_fault [OF assms, of n] by (metis Inl_Inr_False not_le)

text \<open>First in, first out: what \<open>k\<close> bytes taken after an append are.\<close>

lemma enq_deq_view:
  assumes "ok b" and "fits b (length d)" and "unat n \<le> length (view b) + length d"
  shows "\<exists>b1 b2. enq d b = Inr b1 \<and> deq n b1 = Inr b2 \<and> ok b2 \<and> view b2 = drop (unat n) (view b @ d)"
proof -
  from enq_view [OF assms(1,2)] obtain b1 where
    b1: "enq d b = Inr b1" "ok b1" "view b1 = view b @ d" by blast
  with assms(3) have "unat n \<le> length (view b1)" by simp
  from deq_view [OF b1(2) this] b1 show ?thesis by auto
qed

end

section \<open>The registry of channels\<close>

text \<open>
  What Acceptor, Connector, TcpConnection and TimerQueue need of the poller behind their channels:
  changing the events of a channel and removing it have the effect asked for and do not touch the
  registration of any other channel. \<open>interest r ref\<close> is the set of events for which the channel is
  registered, \<open>bits r ref\<close> the events its object holds.
\<close>

locale channel_registry =
  fixes ok :: "'r \<Rightarrow> bool" and interest :: "'r \<Rightarrow> 'c \<Rightarrow> 'e option" and bits :: "'r \<Rightarrow> 'c \<Rightarrow> 'e option"
    and change :: "('e \<Rightarrow> 'e) \<Rightarrow> 't \<Rightarrow> 'c \<Rightarrow> 'r \<Rightarrow> 'r result"
    and remove :: "'t \<Rightarrow> 'c \<Rightarrow> 'r \<Rightarrow> 'r result"
  assumes change_ok: "ok r \<Longrightarrow> change f t c r = Inr r' \<Longrightarrow> ok r'"
    and change_self: "ok r \<Longrightarrow> change f t c r = Inr r' \<Longrightarrow>
      interest r' c = map_option f (bits r c) \<and> bits r' c = map_option f (bits r c)"
    and change_frame: "ok r \<Longrightarrow> change f t c r = Inr r' \<Longrightarrow> d \<noteq> c \<Longrightarrow>
      interest r' d = interest r d \<and> bits r' d = bits r d"
    and remove_ok: "ok r \<Longrightarrow> remove t c r = Inr r' \<Longrightarrow> ok r'"
    and remove_self: "ok r \<Longrightarrow> remove t c r = Inr r' \<Longrightarrow> interest r' c = None"
    and remove_frame: "ok r \<Longrightarrow> remove t c r = Inr r' \<Longrightarrow> d \<noteq> c \<Longrightarrow> interest r' d = interest r d"
begin

lemma change_change_self:
  assumes "ok r" and "change f t c r = Inr r1" and "change g t c r1 = Inr r2"
  shows "interest r2 c = map_option (g \<circ> f) (bits r c)"
  using change_self [OF change_ok [OF assms(1,2)] assms(3)] change_self [OF assms(1,2)]
  by (simp add: option.map_comp)

lemma change_remove:
  assumes "ok r" and "change f t c r = Inr r1" and "remove t c r1 = Inr r2"
  shows "ok r2 \<and> interest r2 c = None \<and> (\<forall>d. d \<noteq> c \<longrightarrow> interest r2 d = interest r d)"
proof -
  have "ok r1" by (rule change_ok [OF assms(1,2)])
  with assms show ?thesis
    by (simp add: remove_ok remove_self remove_frame change_frame)
qed

end

section \<open>An ordered set\<close>

text \<open>
  What TimerQueue needs of \<open>std::set\<close>: insertion reports whether the element is new, erasing by
  value reports how many elements went, \<open>split\<close> separates the elements before \<open>lower_bound x\<close> from
  the others. \<open>ok\<close> is the well-formedness of the representation, \<open>elems\<close> the set it stands for.
\<close>

locale ordered_set =
  fixes ok :: "'s \<Rightarrow> bool" and elems :: "'s \<Rightarrow> 'a::linorder set" and count :: "'s \<Rightarrow> nat"
    and ins :: "'a \<Rightarrow> 's \<Rightarrow> bool \<times> 's" and del :: "'a \<Rightarrow> 's \<Rightarrow> nat \<times> 's"
    and split :: "'a \<Rightarrow> 's \<Rightarrow> 's \<times> 's"
  assumes ins_law: "ok s \<Longrightarrow> ok (snd (ins x s)) \<and> elems (snd (ins x s)) = insert x (elems s) \<and>
      (fst (ins x s) \<longleftrightarrow> x \<notin> elems s)"
    and del_law: "ok s \<Longrightarrow> ok (snd (del x s)) \<and> elems (snd (del x s)) = elems s - {x} \<and>
      fst (del x s) = (if x \<in> elems s then 1 else 0)"
    and split_law: "ok s \<Longrightarrow> ok (fst (split x s)) \<and> ok (snd (split x s)) \<and>
      elems (fst (split x s)) = {y \<in> elems s. y < x} \<and> elems (snd (split x s)) = {y \<in> elems s. x \<le> y}"
    and count_law: "ok s \<Longrightarrow> finite (elems s) \<and> count s = card (elems s)"
begin

lemma ins_new: "ok s \<Longrightarrow> x \<notin> elems s \<Longrightarrow>
    fst (ins x s) \<and> ok (snd (ins x s)) \<and> elems (snd (ins x s)) = insert x (elems s)"
  using ins_law by blast

lemma del_member: "ok s \<Longrightarrow> x \<in> elems s \<Longrightarrow>
    fst (del x s) = 1 \<and> ok (snd (del x s)) \<and> elems (snd (del x s)) = elems s - {x}"
  using del_law by simp

lemma split_count: "ok s \<Longrightarrow> count (fst (split x s)) + count (snd (split x s)) = count s"
proof -
  assume ok: "ok s"
  note sp = split_law [OF ok, of x]
  have "elems s = {y \<in> elems s. y < x} \<union> {y \<in> elems s. x \<le> y}" by auto
  moreover have "{y \<in> elems s. y < x} \<inter> {y \<in> elems s. x \<le> y} = {}" by auto
  ultimately have "card (elems s) = card {y \<in> elems s. y < x} + card {y \<in> elems s. x \<le> y}"
    using count_law [OF ok] by (metis card_Un_disjoint finite_Un)
  with sp count_law ok show ?thesis by metis
qed

text \<open>Two sets with elements in correspondence have the same size.\<close>

lemma count_image: "ok s \<Longrightarrow> elems s = f ` A \<Longrightarrow> inj_on f A \<Longrightarrow> count s = card A"
  using count_law by (simp add: card_image)

end

end
