(* ===== verification/Byte_Buffer.thy ===== *)
theory Byte_Buffer
  imports Interfaces
begin

text \<open>
  Buffer (src/net/Buffer.h, Buffer.cpp): the byte buffer of a connection.

  The record has the three data members: the vector and the two indices, kept at the width of
  \<open>size_t\<close>. A \<open>char*\<close> into the vector is its offset from \<open>begin()\<close>. Reads and writes outside the
  vector are the fault \<open>OutOfBounds\<close>, a \<open>resize\<close> beyond the maximal size of a
  \<open>std::vector<char>\<close> is \<open>LengthError\<close>.

  The abstract value of a buffer is \<open>contents\<close>, the bytes between the two indices; the lemmas
  show that the operations implement a queue of bytes on it.
\<close>

section \<open>The data members and the primitives of the vector\<close>

record byte_buffer =
  storage :: "byte list"
  readerIndex :: size_t
  writerIndex :: size_t

definition kCheapPrepend :: size_t where "kCheapPrepend = 8"
definition kInitialSize :: size_t where "kInitialSize = 1024"

definition vector_size :: "byte list \<Rightarrow> size_t" where
  "vector_size v = of_nat (length v)"

text \<open>\<open>vector::resize\<close> keeps a prefix and fills with zero bytes.\<close>

definition vector_resize :: "size_t \<Rightarrow> byte list \<Rightarrow> byte list result" where
  "vector_resize n v =
     (if 2 ^ 63 \<le> unat n then Inl LengthError
      else Inr (take (unat n) v @ replicate (unat n - length v) 0))"

definition mem_read :: "size_t \<Rightarrow> size_t \<Rightarrow> byte list \<Rightarrow> byte list result" where
  "mem_read off len v =
     (if unat off + unat len \<le> length v then Inr (take (unat len) (drop (unat off) v))
      else Inl OutOfBounds)"

definition mem_write :: "size_t \<Rightarrow> byte list \<Rightarrow> byte list \<Rightarrow> byte list result" where
  "mem_write off d v =
     (if unat off + length d \<le> length v
      then Inr (take (unat off) v @ d @ drop (unat off + length d) v)
      else Inl OutOfBounds)"

section \<open>The operations\<close>

definition readableBytes :: "byte_buffer \<Rightarrow> size_t" where
  "readableBytes b = writerIndex b - readerIndex b"

definition writableBytes :: "byte_buffer \<Rightarrow> size_t" where
  "writableBytes b = vector_size (storage b) - writerIndex b"

definition prependableBytes :: "byte_buffer \<Rightarrow> size_t" where
  "prependableBytes b = readerIndex b"

definition peek :: "byte_buffer \<Rightarrow> size_t" where
  "peek b = readerIndex b"

definition beginWrite :: "byte_buffer \<Rightarrow> size_t" where
  "beginWrite b = writerIndex b"

definition Buffer_new :: "byte_buffer result" where
  "Buffer_new =
     (let b = \<lparr>storage = replicate (unat (kCheapPrepend + kInitialSize)) 0,
               readerIndex = kCheapPrepend, writerIndex = kCheapPrepend\<rparr>
      in assertC (readableBytes b = 0)
          (assertC (writableBytes b = kInitialSize)
            (assertC (prependableBytes b = kCheapPrepend) (Inr b))))"

definition Buffer_swap :: "byte_buffer \<Rightarrow> byte_buffer \<Rightarrow> byte_buffer \<times> byte_buffer" where
  "Buffer_swap a b =
     (\<lparr>storage = storage b, readerIndex = readerIndex b, writerIndex = writerIndex b\<rparr>,
      \<lparr>storage = storage a, readerIndex = readerIndex a, writerIndex = writerIndex a\<rparr>)"

definition retrieve :: "size_t \<Rightarrow> byte_buffer \<Rightarrow> byte_buffer result" where
  "retrieve len b =
     assertC (len \<le> readableBytes b) (Inr (b\<lparr>readerIndex := readerIndex b + len\<rparr>))"

definition retrieveUntil :: "size_t \<Rightarrow> byte_buffer \<Rightarrow> byte_buffer result" where
  "retrieveUntil end b =
     assertC (peek b \<le> end) (assertC (end \<le> beginWrite b) (retrieve (end - peek b) b))"

definition retrieveAll :: "byte_buffer \<Rightarrow> byte_buffer" where
  "retrieveAll b = b\<lparr>readerIndex := kCheapPrepend, writerIndex := kCheapPrepend\<rparr>"

definition retrieveAsString :: "byte_buffer \<Rightarrow> (byte list \<times> byte_buffer) result" where
  "retrieveAsString b =
     rbind (mem_read (peek b) (readableBytes b) (storage b)) (\<lambda>str. Inr (str, retrieveAll b))"

definition makeSpace :: "size_t \<Rightarrow> byte_buffer \<Rightarrow> byte_buffer result" where
  "makeSpace len b =
     (if writableBytes b + prependableBytes b < len + kCheapPrepend
      then rbind (vector_resize (writerIndex b + len) (storage b))
             (\<lambda>v. Inr (b\<lparr>storage := v\<rparr>))
      else assertC (kCheapPrepend < readerIndex b)
             (let readable = readableBytes b in
              rbind (mem_read (readerIndex b) readable (storage b)) (\<lambda>d.
              rbind (mem_write kCheapPrepend d (storage b)) (\<lambda>v.
              let b' = b\<lparr>storage := v, readerIndex := kCheapPrepend,
                         writerIndex := kCheapPrepend + readable\<rparr>
              in assertC (readable = readableBytes b') (Inr b')))))"

definition ensureWritableBytes :: "size_t \<Rightarrow> byte_buffer \<Rightarrow> byte_buffer result" where
  "ensureWritableBytes len b =
     rbind (if writableBytes b < len then makeSpace len b else Inr b)
       (\<lambda>b'. assertC (len \<le> writableBytes b') (Inr b'))"

definition hasWritten :: "size_t \<Rightarrow> byte_buffer \<Rightarrow> byte_buffer" where
  "hasWritten len b = b\<lparr>writerIndex := writerIndex b + len\<rparr>"

definition buffer_append :: "byte list \<Rightarrow> byte_buffer \<Rightarrow> byte_buffer result" where
  "buffer_append d b =
     rbind (ensureWritableBytes (of_nat (length d)) b) (\<lambda>b1.
     rbind (mem_write (beginWrite b1) d (storage b1)) (\<lambda>v.
     Inr (hasWritten (of_nat (length d)) (b1\<lparr>storage := v\<rparr>))))"

definition prepend :: "byte list \<Rightarrow> byte_buffer \<Rightarrow> byte_buffer result" where
  "prepend d b =
     assertC (of_nat (length d) \<le> prependableBytes b)
       (let b1 = b\<lparr>readerIndex := readerIndex b - of_nat (length d)\<rparr> in
        rbind (mem_write (readerIndex b1) d (storage b1)) (\<lambda>v. Inr (b1\<lparr>storage := v\<rparr>)))"

text \<open>\<open>shrink\<close> builds a new vector and swaps it in; it leaves the two indices as they are.\<close>

definition shrink :: "size_t \<Rightarrow> byte_buffer \<Rightarrow> byte_buffer result" where
  "shrink reserve b =
     rbind (vector_resize (kCheapPrepend + readableBytes b + reserve) []) (\<lambda>buf.
     rbind (mem_read (peek b) (readableBytes b) (storage b)) (\<lambda>d.
     rbind (mem_write kCheapPrepend d buf) (\<lambda>buf'. Inr (b\<lparr>storage := buf'\<rparr>))))"

text \<open>
  \<open>readFd\<close>: what the system call \<open>readv\<close> returns is an input, an errno value or the bytes it
  delivered, spread over the writable part of the vector first and \<open>extraBuf\<close> second. The result
  is the returned count, the value of \<open>*savedErrno\<close> and the buffer.
\<close>

datatype read_outcome = ReadError int | ReadBytes "byte list"

definition kExtraBuf :: nat where "kExtraBuf = 65536"

definition readFd ::
  "read_outcome \<Rightarrow> int \<Rightarrow> byte_buffer \<Rightarrow> (int \<times> int \<times> byte_buffer) result" where
  "readFd r savedErrno b =
     (let writable = writableBytes b in
      case r of
        ReadError err \<Rightarrow> Inr (-1, err, b)
      | ReadBytes d \<Rightarrow>
          rbind (mem_write (writerIndex b) (take (unat writable) d) (storage b)) (\<lambda>v.
          let b1 = b\<lparr>storage := v\<rparr>; n = length d in
          if n \<le> unat writable
          then Inr (int n, savedErrno, b1\<lparr>writerIndex := writerIndex b1 + of_nat n\<rparr>)
          else let b2 = b1\<lparr>writerIndex := vector_size (storage b1)\<rparr> in
               rbind (buffer_append (drop (unat writable) d) b2) (\<lambda>b3. Inr (int n, savedErrno, b3))))"

section \<open>Well-formed buffers and their contents\<close>

definition contents :: "byte_buffer \<Rightarrow> byte list" where
  "contents b = take (unat (writerIndex b) - unat (readerIndex b)) (drop (unat (readerIndex b)) (storage b))"

definition buf_inv :: "byte_buffer \<Rightarrow> bool" where
  "buf_inv b \<longleftrightarrow>
     readerIndex b \<le> writerIndex b \<and> unat (writerIndex b) \<le> length (storage b) \<and>
     8 \<le> length (storage b) \<and> length (storage b) < 2 ^ 63"

text \<open>Room for \<open>n\<close> more bytes before a vector of bytes reaches its maximal size.\<close>

definition room :: "byte_buffer \<Rightarrow> nat \<Rightarrow> bool" where
  "room b n \<longleftrightarrow> unat (writerIndex b) + n + 8 < 2 ^ 63"

named_theorems buffer_simps

lemma unat_kCheapPrepend [simp]: "unat kCheapPrepend = 8"
  by (simp add: kCheapPrepend_def)

lemma unat_vector_size [buffer_simps]: "length v < 2 ^ 63 \<Longrightarrow> unat (vector_size v) = length v"
  by (simp add: vector_size_def unat_of_nat)

lemma unat_of_length [buffer_simps]: "n < 2 ^ 63 \<Longrightarrow> unat (of_nat n :: size_t) = n"
  by (simp add: unat_of_nat)

lemma size_t_add: "unat (a :: size_t) + unat b < 2 ^ 64 \<Longrightarrow> unat (a + b) = unat a + unat b"
  by (simp add: unat_word_ariths)

lemma size_t_sub: "(b :: size_t) \<le> a \<Longrightarrow> unat (a - b) = unat a - unat b"
  by (simp add: unat_sub)

lemma readable_unat [buffer_simps]:
  "buf_inv b \<Longrightarrow> unat (readableBytes b) = unat (writerIndex b) - unat (readerIndex b)"
  by (simp add: readableBytes_def buf_inv_def size_t_sub)

lemma writable_unat [buffer_simps]:
  "buf_inv b \<Longrightarrow> unat (writableBytes b) = length (storage b) - unat (writerIndex b)"
  by (simp add: writableBytes_def buf_inv_def size_t_sub word_le_nat_alt unat_vector_size)

lemma inv_le [buffer_simps]:
  "buf_inv b \<Longrightarrow> unat (readerIndex b) \<le> unat (writerIndex b)"
  by (simp add: buf_inv_def word_le_nat_alt)

lemma length_contents [buffer_simps]:
  "buf_inv b \<Longrightarrow> length (contents b) = unat (readableBytes b)"
  using inv_le [of b] by (simp add: contents_def readable_unat) (auto simp: buf_inv_def)

lemma buf_invI:
  assumes "unat (readerIndex b) \<le> unat (writerIndex b)" "unat (writerIndex b) \<le> length (storage b)"
    "8 \<le> length (storage b)" "length (storage b) < 2 ^ 63"
  shows "buf_inv b"
  using assms by (simp add: buf_inv_def word_le_nat_alt)

lemma buf_invD:
  assumes "buf_inv b"
  shows "unat (readerIndex b) \<le> unat (writerIndex b)" "unat (writerIndex b) \<le> length (storage b)"
    "8 \<le> length (storage b)" "length (storage b) < 2 ^ 63"
  using assms by (auto simp: buf_inv_def word_le_nat_alt)

section \<open>Functional behaviour\<close>

lemma Buffer_new_ok:
  "\<exists>b. Buffer_new = Inr b \<and> buf_inv b \<and> contents b = [] \<and> readerIndex b = 8 \<and> writerIndex b = 8"
  by (simp add: Buffer_new_def readableBytes_def writableBytes_def prependableBytes_def
      kCheapPrepend_def kInitialSize_def vector_size_def buf_inv_def contents_def Let_def)

lemma retrieve_ok:
  assumes "buf_inv b" and "unat len \<le> length (contents b)"
  shows "\<exists>b'. retrieve len b = Inr b' \<and> buf_inv b' \<and> contents b' = drop (unat len) (contents b)
           \<and> writerIndex b' = writerIndex b \<and> storage b' = storage b
           \<and> unat (readerIndex b') = unat (readerIndex b) + unat len"
proof -
  note inv = buf_invD [OF assms(1)]
  from assms have len: "unat len \<le> unat (writerIndex b) - unat (readerIndex b)"
    by (simp add: length_contents readable_unat)
  with inv have r: "unat (readerIndex b + len) = unat (readerIndex b) + unat len"
    by (intro size_t_add) simp
  let ?b = "b\<lparr>readerIndex := readerIndex b + len\<rparr>"
  from assms len have "retrieve len b = Inr ?b"
    by (simp add: retrieve_def word_le_nat_alt readable_unat)
  moreover from inv len r have "buf_inv ?b" by (intro buf_invI) auto
  moreover from r len inv have "contents ?b = drop (unat len) (contents b)"
    by (simp add: contents_def drop_take add.commute)
  ultimately show ?thesis using r by simp
qed

lemma retrieve_fault:
  assumes "buf_inv b" and "length (contents b) < unat len"
  shows "retrieve len b = Inl AssertFail"
  using assms by (simp add: retrieve_def word_le_nat_alt length_contents)

lemma retrieveUntil_ok:
  assumes "buf_inv b" and "peek b \<le> e" and "e \<le> beginWrite b"
  shows "\<exists>b'. retrieveUntil e b = Inr b' \<and> buf_inv b' \<and>
           contents b' = drop (unat e - unat (peek b)) (contents b)"
proof -
  from assms have "unat (e - peek b) = unat e - unat (peek b)" by (simp add: size_t_sub)
  moreover from assms have "unat e - unat (peek b) \<le> length (contents b)"
    by (simp add: length_contents readable_unat word_le_nat_alt beginWrite_def peek_def)
  ultimately show ?thesis
    using assms retrieve_ok [of b "e - peek b"] by (auto simp: retrieveUntil_def)
qed

lemma retrieveAll_ok:
  "buf_inv b \<Longrightarrow> buf_inv (retrieveAll b) \<and> contents (retrieveAll b) = []"
  by (auto simp: retrieveAll_def contents_def dest: buf_invD(3,4) intro!: buf_invI)

lemma mem_read_contents:
  assumes "buf_inv b"
  shows "mem_read (readerIndex b) (readableBytes b) (storage b) = Inr (contents b)"
  using buf_invD [OF assms] by (simp add: mem_read_def readable_unat [OF assms] contents_def)

lemma retrieveAsString_ok:
  assumes "buf_inv b"
  shows "retrieveAsString b = Inr (contents b, retrieveAll b)"
  using assms by (simp add: retrieveAsString_def peek_def mem_read_contents)

subsection \<open>Making space and appending\<close>

lemma mem_write_ok:
  assumes "unat off + length d \<le> length v"
  shows "\<exists>v'. mem_write off d v = Inr v' \<and> length v' = length v \<and>
           take (unat off) v' = take (unat off) v \<and>
           take (length d) (drop (unat off) v') = d"
  using assms by (simp add: mem_write_def)

lemma mem_write_length: "mem_write off d v = Inr v' \<Longrightarrow> length v' = length v"
  by (auto simp: mem_write_def split: if_splits)

lemma makeSpace_grow:
  assumes inv: "buf_inv b" and few: "unat (writableBytes b) < unat len"
    and room: "room b (unat len)"
    and small: "length (storage b) - unat (writerIndex b) + unat (readerIndex b) < unat len + 8"
  shows "makeSpace len b =
    Inr (b\<lparr>storage := storage b @ replicate (unat (writerIndex b) + unat len - length (storage b)) 0\<rparr>)"
proof -
  note i = buf_invD [OF inv]
  have w: "unat (writerIndex b + len) = unat (writerIndex b) + unat len"
    using room by (intro size_t_add) (simp add: room_def)
  have l: "unat (len + kCheapPrepend) = unat len + 8"
    using room by (subst size_t_add) (auto simp: room_def)
  have p: "unat (writableBytes b + prependableBytes b)
      = length (storage b) - unat (writerIndex b) + unat (readerIndex b)"
    using i by (subst size_t_add) (auto simp: writable_unat [OF inv] prependableBytes_def)
  from few have "length (storage b) \<le> unat (writerIndex b) + unat len"
    using i by (simp add: writable_unat [OF inv])
  then show ?thesis
    using small room by (simp add: makeSpace_def word_less_nat_alt p l vector_resize_def w room_def)
qed

lemma makeSpace_compact:
  assumes inv: "buf_inv b" and few: "unat (writableBytes b) < unat len"
    and room: "room b (unat len)"
    and enough: "unat len + 8 \<le> length (storage b) - unat (writerIndex b) + unat (readerIndex b)"
  shows "\<exists>b'. makeSpace len b = Inr b' \<and> buf_inv b' \<and> contents b' = contents b \<and>
    length (storage b') = length (storage b) \<and> readerIndex b' = kCheapPrepend \<and>
    unat (writerIndex b') = 8 + length (contents b)"
proof -
  note i = buf_invD [OF inv]
  have l: "unat (len + kCheapPrepend) = unat len + 8"
    using room by (subst size_t_add) (auto simp: room_def)
  have p: "unat (writableBytes b + prependableBytes b)
      = length (storage b) - unat (writerIndex b) + unat (readerIndex b)"
    using i by (subst size_t_add) (auto simp: writable_unat [OF inv] prependableBytes_def)
  have r8: "8 < unat (readerIndex b)"
    using few enough by (simp add: writable_unat [OF inv])
  have lc: "length (contents b) = unat (writerIndex b) - unat (readerIndex b)"
    by (simp add: length_contents [OF inv] readable_unat [OF inv])
  have wr: "unat (kCheapPrepend + readableBytes b) = 8 + length (contents b)"
    using i lc by (subst size_t_add) (auto simp: length_contents [OF inv])
  have fits: "unat kCheapPrepend + length (contents b) \<le> length (storage b)"
    using i r8 lc by simp
  from mem_write_ok [OF this] obtain v where
    v: "mem_write kCheapPrepend (contents b) (storage b) = Inr v" "length v = length (storage b)"
       "take (length (contents b)) (drop 8 v) = contents b" by auto
  let ?b = "b\<lparr>storage := v, readerIndex := kCheapPrepend,
      writerIndex := kCheapPrepend + readableBytes b\<rparr>"
  have rb: "readableBytes ?b = readableBytes b" by (simp add: readableBytes_def)
  have "makeSpace len b = Inr ?b"
    using enough r8 by (simp add: makeSpace_def word_less_nat_alt p l Let_def
        mem_read_contents [OF inv] v rb)
  moreover have "buf_inv ?b"
    using i wr v fits by (intro buf_invI) auto
  moreover have "contents ?b = contents b"
    using wr v by (simp add: contents_def)
  ultimately show ?thesis using v wr by simp
qed

lemma makeSpace_ok:
  assumes inv: "buf_inv b" and few: "unat (writableBytes b) < unat len"
    and room: "room b (unat len)"
  shows "\<exists>b'. makeSpace len b = Inr b' \<and> buf_inv b' \<and> contents b' = contents b \<and>
    unat len \<le> unat (writableBytes b') \<and> unat (writerIndex b') \<le> max (unat (writerIndex b)) (8 + length (contents b)) \<and>
    (8 \<le> unat (readerIndex b) \<longrightarrow> 8 \<le> unat (readerIndex b'))"
proof (cases "length (storage b) - unat (writerIndex b) + unat (readerIndex b) < unat len + 8")
  case True
  note i = buf_invD [OF inv]
  let ?n = "unat (writerIndex b) + unat len - length (storage b)"
  let ?b = "b\<lparr>storage := storage b @ replicate ?n 0\<rparr>"
  from few i have "length (storage b) < unat (writerIndex b) + unat len"
    by (simp add: writable_unat [OF inv])
  then have "length (storage ?b) = unat (writerIndex b) + unat len" by simp
  moreover from this have inv': "buf_inv ?b"
    using i room by (intro buf_invI) (auto simp: room_def)
  moreover have "contents ?b = contents b"
    using i by (simp add: contents_def)
  ultimately show ?thesis
    using makeSpace_grow [OF inv few room True] by (simp add: writable_unat)
next
  case False
  then have "unat len + 8 \<le> length (storage b) - unat (writerIndex b) + unat (readerIndex b)"
    by simp
  from makeSpace_compact [OF inv few room this] obtain b' where
    b': "makeSpace len b = Inr b'" "buf_inv b'" "contents b' = contents b"
      "length (storage b') = length (storage b)" "readerIndex b' = kCheapPrepend"
      "unat (writerIndex b') = 8 + length (contents b)" by blast
  have "length (contents b) = unat (writerIndex b) - unat (readerIndex b)"
    by (simp add: length_contents [OF inv] readable_unat [OF inv])
  with b' False buf_invD [OF inv] show ?thesis
    by (simp add: writable_unat)
qed

lemma ensureWritableBytes_ok:
  assumes inv: "buf_inv b" and room: "room b (unat len)"
  shows "\<exists>b'. ensureWritableBytes len b = Inr b' \<and> buf_inv b' \<and> contents b' = contents b \<and>
    unat len \<le> unat (writableBytes b') \<and>
    unat (writerIndex b') \<le> max (unat (writerIndex b)) (8 + length (contents b)) \<and>
    (8 \<le> unat (readerIndex b) \<longrightarrow> 8 \<le> unat (readerIndex b'))"
proof (cases "unat (writableBytes b) < unat len")
  case True
  from makeSpace_ok [OF inv this room] True show ?thesis
    by (auto simp: ensureWritableBytes_def word_less_nat_alt word_le_nat_alt)
next
  case False
  with inv show ?thesis
    by (auto simp: ensureWritableBytes_def word_less_nat_alt word_le_nat_alt)
qed

lemma write_hasWritten:
  assumes inv: "buf_inv b" and fits: "length d \<le> unat (writableBytes b)"
  shows "\<exists>b'. mem_write (beginWrite b) d (storage b) = Inr (storage b') \<and>
    b' = hasWritten (of_nat (length d)) (b\<lparr>storage := storage b'\<rparr>) \<and> buf_inv b' \<and>
    b\<lparr>storage := storage b', writerIndex := writerIndex b'\<rparr> = b' \<and>
    contents b' = contents b @ d \<and> readerIndex b' = readerIndex b \<and>
    unat (writerIndex b') = unat (writerIndex b) + length d"
proof -
  note i = buf_invD [OF inv]
  from fits have f: "unat (writerIndex b) + length d \<le> length (storage b)"
    using i by (simp add: writable_unat [OF inv])
  let ?v = "take (unat (writerIndex b)) (storage b) @ d @ drop (unat (writerIndex b) + length d) (storage b)"
  let ?b = "hasWritten (of_nat (length d)) (b\<lparr>storage := ?v\<rparr>)"
  have w: "unat (writerIndex ?b) = unat (writerIndex b) + length d"
    using f i by (simp add: hasWritten_def size_t_add unat_of_length)
  have len: "length (storage ?b) = length (storage b)" using f by (simp add: hasWritten_def)
  have r: "readerIndex ?b = readerIndex b" by (simp add: hasWritten_def)
  have "buf_inv ?b" using f i w len r by (intro buf_invI) auto
  moreover have "contents ?b = contents b @ d"
  proof -
    have "contents ?b = take (unat (writerIndex b) + length d - unat (readerIndex b)) (drop (unat (readerIndex b)) ?v)"
      by (simp add: contents_def w r) (simp add: hasWritten_def)
    also have "\<dots> = contents b @ d" using i by (simp add: contents_def take_drop)
    finally show ?thesis .
  qed
  moreover have "mem_write (beginWrite b) d (storage b) = Inr ?v"
    using f by (simp add: mem_write_def beginWrite_def)
  ultimately show ?thesis using w r
    by (intro exI [of _ ?b]) (simp add: hasWritten_def)
qed

lemma buffer_append_ok:
  assumes inv: "buf_inv b" and room: "room b (length d)"
  shows "\<exists>b'. buffer_append d b = Inr b' \<and> buf_inv b' \<and> contents b' = contents b @ d \<and>
    unat (writerIndex b') \<le> max (unat (writerIndex b)) (8 + length (contents b)) + length d \<and>
    (8 \<le> unat (readerIndex b) \<longrightarrow> 8 \<le> unat (readerIndex b'))"
proof -
  have ul: "unat (of_nat (length d) :: size_t) = length d"
    using room by (intro unat_of_length) (simp add: room_def)
  from ensureWritableBytes_ok [OF inv, of "of_nat (length d)"] room ul obtain b1 where
    b1: "ensureWritableBytes (of_nat (length d)) b = Inr b1" "buf_inv b1" "contents b1 = contents b"
      "length d \<le> unat (writableBytes b1)"
      "unat (writerIndex b1) \<le> max (unat (writerIndex b)) (8 + length (contents b))"
      "8 \<le> unat (readerIndex b) \<longrightarrow> 8 \<le> unat (readerIndex b1)" by auto
  from write_hasWritten [OF b1(2,4)] obtain b2 where
    b2: "mem_write (beginWrite b1) d (storage b1) = Inr (storage b2)"
      "b2 = hasWritten (of_nat (length d)) (b1\<lparr>storage := storage b2\<rparr>)" "buf_inv b2"
      "b1\<lparr>storage := storage b2, writerIndex := writerIndex b2\<rparr> = b2"
      "contents b2 = contents b1 @ d" "readerIndex b2 = readerIndex b1"
      "unat (writerIndex b2) = unat (writerIndex b1) + length d" by blast
  have "buffer_append d b = Inr b2"
    using b1 b2 by (simp add: buffer_append_def)
  then show ?thesis using b1 b2 by auto
qed

text \<open>Enough space in front of the contents is reused: the vector is not reallocated.\<close>

lemma buffer_append_in_place:
  assumes inv: "buf_inv b" and room: "room b (length d)"
    and space: "length (contents b) + length d + 8 \<le> length (storage b)"
    and b': "buffer_append d b = Inr b'"
  shows "length (storage b') = length (storage b)"
proof -
  note i = buf_invD [OF inv]
  have ul: "unat (of_nat (length d) :: size_t) = length d"
    using room by (intro unat_of_length) (simp add: room_def)
  have lc: "length (contents b) = unat (writerIndex b) - unat (readerIndex b)"
    by (simp add: length_contents [OF inv] readable_unat [OF inv])
  show ?thesis
  proof (cases "unat (writableBytes b) < length d")
    case True
    have "unat (of_nat (length d) :: size_t) + 8
        \<le> length (storage b) - unat (writerIndex b) + unat (readerIndex b)"
      using space lc i ul by linarith
    with makeSpace_compact [OF inv, of "of_nat (length d)"] room ul True
    obtain b1 where "makeSpace (of_nat (length d)) b = Inr b1" "length (storage b1) = length (storage b)"
      by auto
    with b' True ul show ?thesis
      by (auto simp: buffer_append_def ensureWritableBytes_def word_less_nat_alt hasWritten_def
          result_simps dest: mem_write_length)
  next
    case False
    with b' ul show ?thesis
      by (auto simp: buffer_append_def ensureWritableBytes_def word_less_nat_alt hasWritten_def
          result_simps dest: mem_write_length)
  qed
qed

lemma prepend_ok:
  assumes inv: "buf_inv b" and few: "length d \<le> unat (readerIndex b)"
  shows "\<exists>b'. prepend d b = Inr b' \<and> buf_inv b' \<and> contents b' = d @ contents b \<and>
    writerIndex b' = writerIndex b \<and> unat (readerIndex b') = unat (readerIndex b) - length d"
proof -
  note i = buf_invD [OF inv]
  have ul: "unat (of_nat (length d) :: size_t) = length d"
    using few i by (intro unat_of_length) simp
  have r: "unat (readerIndex b - of_nat (length d)) = unat (readerIndex b) - length d"
    using few ul by (subst size_t_sub) (auto simp: word_le_nat_alt)
  let ?r = "unat (readerIndex b)"
  let ?v = "take (?r - length d) (storage b) @ d @ drop ?r (storage b)"
  let ?b = "b\<lparr>readerIndex := readerIndex b - of_nat (length d), storage := ?v\<rparr>"
  have "prepend d b = Inr ?b"
    using few i ul r by (simp add: prepend_def prependableBytes_def word_le_nat_alt Let_def mem_write_def)
  moreover have "buf_inv ?b" using few i r by (intro buf_invI) auto
  moreover have "contents ?b = d @ contents b"
    using few i by (simp add: contents_def r)
  ultimately show ?thesis using r by simp
qed

lemma prepend_fault:
  assumes "length d < 2 ^ 63" and "unat (readerIndex b) < length d"
  shows "prepend d b = Inl AssertFail"
  using assms by (simp add: prepend_def prependableBytes_def word_le_nat_alt unat_of_length)

subsection \<open>Reading from a descriptor\<close>

lemma readFd_error: "readFd (ReadError e) se b = Inr (-1, e, b)"
  by (simp add: readFd_def Let_def)

lemma readFd_ok:
  assumes inv: "buf_inv b" and room: "room b (length d)"
  shows "\<exists>b'. readFd (ReadBytes d) se b = Inr (int (length d), se, b') \<and> buf_inv b' \<and>
    contents b' = contents b @ d \<and> (8 \<le> unat (readerIndex b) \<longrightarrow> 8 \<le> unat (readerIndex b'))"
proof -
  note i = buf_invD [OF inv]
  let ?w = "unat (writableBytes b)"
  let ?d1 = "take ?w d"
  have "length ?d1 \<le> ?w" by simp
  from write_hasWritten [OF inv this] obtain b1 where
    b1: "mem_write (beginWrite b) ?d1 (storage b) = Inr (storage b1)"
      "b1 = hasWritten (of_nat (length ?d1)) (b\<lparr>storage := storage b1\<rparr>)" "buf_inv b1"
      "b\<lparr>storage := storage b1, writerIndex := writerIndex b1\<rparr> = b1"
      "contents b1 = contents b @ ?d1" "readerIndex b1 = readerIndex b"
      "unat (writerIndex b1) = unat (writerIndex b) + length ?d1" by blast
  from b1(1) have mw: "mem_write (writerIndex b) ?d1 (storage b) = Inr (storage b1)"
    by (simp add: beginWrite_def)
  from b1(1) have l1: "length (storage b1) = length (storage b)" by (rule mem_write_length)
  show ?thesis
  proof (cases "length d \<le> ?w")
    case True
    then have "?d1 = d" by simp
    moreover from this b1(2) have "b\<lparr>storage := storage b1, writerIndex := writerIndex b + of_nat (length d)\<rparr> = b1"
      by (simp add: hasWritten_def)
    ultimately show ?thesis using True mw b1 by (simp add: readFd_def Let_def)
  next
    case False
    then have "length ?d1 = ?w" by simp
    then have full: "unat (writerIndex b1) = length (storage b)"
      using b1(7) i by (simp add: writable_unat [OF inv])
    then have "writerIndex b1 = vector_size (storage b1)"
      using i l1 by (metis unat_vector_size word_unat_eq_iff)
    with b1(4) have eq: "b\<lparr>storage := storage b1, writerIndex := vector_size (storage b1)\<rparr> = b1"
      by simp
    have "room b1 (length (drop ?w d))"
      using room full i False by (simp add: room_def writable_unat [OF inv])
    from buffer_append_ok [OF b1(3) this] obtain b2 where
      b2: "buffer_append (drop ?w d) b1 = Inr b2" "buf_inv b2" "contents b2 = contents b1 @ drop ?w d"
        "8 \<le> unat (readerIndex b1) \<longrightarrow> 8 \<le> unat (readerIndex b2)" by blast
    from False mw eq b2 b1 show ?thesis by (simp add: readFd_def Let_def)
  qed
qed

subsection \<open>\<open>shrink\<close>\<close>

lemma shrink_vector:
  assumes inv: "buf_inv b" and room: "room b (unat reserve)"
  shows "shrink reserve b = Inr (b\<lparr>storage := replicate 8 0 @ contents b @ replicate (unat reserve) 0\<rparr>)"
proof -
  note i = buf_invD [OF inv]
  have lc: "length (contents b) = unat (readableBytes b)" by (rule length_contents [OF inv])
  have "length (contents b) \<le> unat (writerIndex b)"
    by (simp add: lc readable_unat [OF inv])
  with room have small: "8 + length (contents b) + unat reserve < 2 ^ 63"
    unfolding room_def by linarith
  then have u1: "unat (kCheapPrepend + readableBytes b) = 8 + length (contents b)"
    by (subst size_t_add) (auto simp: lc)
  with small have u: "unat (kCheapPrepend + readableBytes b + reserve) = 8 + length (contents b) + unat reserve"
    by (subst size_t_add) auto
  show ?thesis
    using small by (simp add: shrink_def peek_def vector_resize_def u mem_read_contents [OF inv]
        mem_write_def take_replicate)
qed

lemma shrink_keeps_contents:
  assumes inv: "buf_inv b" and room: "room b (unat reserve)" and front: "readerIndex b = kCheapPrepend"
    and b': "shrink reserve b = Inr b'"
  shows "buf_inv b' \<and> contents b' = contents b"
proof -
  note i = buf_invD [OF inv]
  have lc: "length (contents b) = unat (writerIndex b) - 8"
    by (simp add: length_contents [OF inv] readable_unat [OF inv] front)
  from b' have eq: "b' = b\<lparr>storage := replicate 8 0 @ contents b @ replicate (unat reserve) 0\<rparr>"
    by (simp add: shrink_vector [OF inv room])
  have "buf_inv b'"
    using i lc room front by (intro buf_invI) (auto simp: eq room_def)
  moreover have "contents b' = contents b"
    using lc by (simp add: eq front contents_def [of "b\<lparr>storage := x\<rparr>" for x])
  ultimately show ?thesis ..
qed

lemma shrink_view:
  assumes inv: "buf_inv b" and room: "room b (unat reserve)" and front: "8 \<le> unat (readerIndex b)"
    and b': "shrink reserve b = Inr b'"
  shows "contents b' = take (length (contents b))
    (drop (unat (readerIndex b) - 8) (contents b @ replicate (unat reserve) 0))"
proof -
  from b' have eq: "b' = b\<lparr>storage := replicate 8 0 @ contents b @ replicate (unat reserve) 0\<rparr>"
    by (simp add: shrink_vector [OF inv room])
  have "length (contents b) = unat (writerIndex b) - unat (readerIndex b)"
    by (simp add: length_contents [OF inv] readable_unat [OF inv])
  with front show ?thesis by (simp add: eq contents_def [of "b\<lparr>storage := x\<rparr>" for x])
qed

section \<open>The buffer as a queue of bytes\<close>

lemma room_less: "room b n \<Longrightarrow> m \<le> n \<Longrightarrow> room b m"
  by (simp add: room_def)

interpretation bb: byte_fifo buf_inv contents room buffer_append retrieve
proof unfold_locales
  fix b and d :: "byte list" assume "buf_inv b" and "room b (length d)"
  then show "\<exists>b'. buffer_append d b = Inr b' \<and> buf_inv b' \<and> contents b' = contents b @ d"
    using buffer_append_ok by blast
next
  fix b and n :: size_t assume "buf_inv b" and "unat n \<le> length (contents b)"
  then show "\<exists>b'. retrieve n b = Inr b' \<and> buf_inv b' \<and> contents b' = drop (unat n) (contents b)"
    using retrieve_ok by blast
qed (auto intro: retrieve_fault room_less)

section \<open>Sequences of operations\<close>

text \<open>
  The public member functions as calls, with what each asks of its caller: the conditions of its
  assertions, and where it has none (\<open>hasWritten\<close>, \<open>shrink\<close>) what keeps the indices inside the vector.
\<close>

datatype buf_op =
    BAppend "byte list" | BPrepend "byte list" | BRetrieve size_t | BRetrieveUntil size_t | BRetrieveAll
  | BRetrieveAsString | BEnsure size_t | BHasWritten size_t | BShrink size_t | BReadFd read_outcome

fun buf_do :: "buf_op \<Rightarrow> byte_buffer \<Rightarrow> byte_buffer result" where
  "buf_do (BAppend d) b = buffer_append d b"
| "buf_do (BPrepend d) b = prepend d b"
| "buf_do (BRetrieve n) b = retrieve n b"
| "buf_do (BRetrieveUntil e) b = retrieveUntil e b"
| "buf_do BRetrieveAll b = Inr (retrieveAll b)"
| "buf_do BRetrieveAsString b = rbind (retrieveAsString b) (\<lambda>(_, b'). Inr b')"
| "buf_do (BEnsure n) b = ensureWritableBytes n b"
| "buf_do (BHasWritten n) b = Inr (hasWritten n b)"
| "buf_do (BShrink n) b = shrink n b"
| "buf_do (BReadFd r) b = rbind (readFd r 0 b) (\<lambda>(_, _, b'). Inr b')"

fun buf_pre :: "buf_op \<Rightarrow> byte_buffer \<Rightarrow> bool" where
  "buf_pre (BAppend d) b = room b (length d)"
| "buf_pre (BPrepend d) b = (length d \<le> unat (prependableBytes b))"
| "buf_pre (BRetrieve n) b = (n \<le> readableBytes b)"
| "buf_pre (BRetrieveUntil e) b = (peek b \<le> e \<and> e \<le> beginWrite b)"
| "buf_pre BRetrieveAll b = True"
| "buf_pre BRetrieveAsString b = True"
| "buf_pre (BEnsure n) b = room b (unat n)"
| "buf_pre (BHasWritten n) b = (n \<le> writableBytes b)"
| "buf_pre (BShrink n) b = (room b (unat n) \<and> unat (readerIndex b) \<le> 8 + unat n)"
| "buf_pre (BReadFd r) b = (case r of ReadError _ \<Rightarrow> True | ReadBytes d \<Rightarrow> room b (length d))"

definition buf_step :: "byte_buffer \<Rightarrow> byte_buffer \<Rightarrow> bool" where
  "buf_step b b' \<longleftrightarrow> (\<exists>op. buf_pre op b \<and> buf_do op b = Inr b')"

lemma hasWritten_inv:
  assumes inv: "buf_inv b" and fits: "n \<le> writableBytes b"
  shows "buf_inv (hasWritten n b)"
proof -
  note i = buf_invD [OF inv]
  have n: "unat n \<le> length (storage b) - unat (writerIndex b)"
    using fits by (simp add: word_le_nat_alt writable_unat [OF inv])
  then have "unat (writerIndex b + n) = unat (writerIndex b) + unat n" using i by (intro size_t_add) simp
  with n i show ?thesis by (intro buf_invI) (simp_all add: hasWritten_def)
qed

lemma shrink_inv:
  assumes inv: "buf_inv b" and room: "room b (unat n)" and enough: "unat (readerIndex b) \<le> 8 + unat n"
  shows "\<exists>b'. shrink n b = Inr b' \<and> buf_inv b'"
proof -
  note i = buf_invD [OF inv] and len = length_contents [OF inv] readable_unat [OF inv]
  have "buf_inv (b\<lparr>storage := replicate 8 0 @ contents b @ replicate (unat n) 0\<rparr>)"
    using i len room enough by (intro buf_invI) (simp_all add: room_def)
  with shrink_vector [OF inv room] show ?thesis by blast
qed

text \<open>Progress and preservation.\<close>

lemma buf_do_ok:
  assumes inv: "buf_inv b" and pre: "buf_pre op b"
  shows "\<exists>b'. buf_do op b = Inr b' \<and> buf_inv b'"
proof (cases op)
  case (BAppend d)
  with pre buffer_append_ok [OF inv, of d] show ?thesis by auto
next
  case (BPrepend d)
  with pre prepend_ok [OF inv, of d] show ?thesis by (auto simp: prependableBytes_def)
next
  case (BRetrieve n)
  with pre have "unat n \<le> length (contents b)" by (simp add: length_contents [OF inv] word_le_nat_alt)
  with BRetrieve retrieve_ok [OF inv] show ?thesis by fastforce
next
  case (BRetrieveUntil e)
  with pre retrieveUntil_ok [OF inv, of e] show ?thesis by auto
next
  case (BEnsure n)
  with pre ensureWritableBytes_ok [OF inv, of n] show ?thesis by auto
next
  case (BHasWritten n)
  with pre hasWritten_inv [OF inv] show ?thesis by simp
next
  case (BShrink n)
  with pre shrink_inv [OF inv, of n] show ?thesis by simp
next
  case (BReadFd r)
  show ?thesis
  proof (cases r)
    case (ReadError e)
    with inv show ?thesis by (simp add: BReadFd readFd_error)
  next
    case (ReadBytes d)
    with pre BReadFd have "room b (length d)" by simp
    from readFd_ok [OF inv this, of 0] show ?thesis by (auto simp: BReadFd ReadBytes)
  qed
qed (simp_all add: retrieveAll_ok [OF inv] retrieveAsString_ok [OF inv])

interpretation bufs: invariant_system "\<lambda>b. Buffer_new = Inr b" buf_step buf_inv
proof
  show "buf_inv b" if "Buffer_new = Inr b" for b
  proof -
    obtain b0 where "Buffer_new = Inr b0" "buf_inv b0" using Buffer_new_ok by blast
    with that have "b = b0" by (metis sum.inject(2))
    with \<open>buf_inv b0\<close> show ?thesis by simp
  qed
  show "buf_inv t" if "buf_inv s" "buf_step s t" for s t using that buf_do_ok by (fastforce simp: buf_step_def)
qed

section \<open>Properties\<close>

text \<open>
  C19. Appending implements the queue: below the maximal size of the vector \<open>append\<close> returns (none
  of the assertions of \<open>ensureWritableBytes\<close> and \<open>makeSpace\<close> fails and nothing is written outside
  the vector), the new bytes are behind the old contents, the eight bytes in front of the contents
  stay free, and when the vector has space for contents, new bytes and the front it is reused
  with its size.
\<close>

theorem append_refines_enqueue:
  assumes "buf_inv b" and "room b (length d)"
  shows "\<exists>b'. buffer_append d b = Inr b' \<and> buf_inv b' \<and> contents b' = contents b @ d \<and>
    (8 \<le> unat (readerIndex b) \<longrightarrow> 8 \<le> unat (readerIndex b')) \<and>
    (length (contents b) + length d + 8 \<le> length (storage b) \<longrightarrow>
       length (storage b') = length (storage b))"
  using buffer_append_ok [OF assms] buffer_append_in_place [OF assms] by blast

theorem append_refines_enqueue_witness:
  "\<exists>b b'. Buffer_new = Inr b \<and> buffer_append [1, 2, 3] b = Inr b' \<and> contents b' = [1, 2, 3]"
proof -
  obtain b where b: "Buffer_new = Inr b" "buf_inv b" "contents b = []" "readerIndex b = 8" "writerIndex b = 8"
    using Buffer_new_ok by blast
  then have "room b (length [1, 2, 3 :: byte])" by (simp add: room_def)
  from append_refines_enqueue [OF b(2) this] b show ?thesis by auto
qed

text \<open>
  \<open>retrieve\<close> takes bytes from the front: it returns exactly when no more bytes are asked for
  than are readable, keeps the rest in order, and its assertion fails otherwise.
\<close>

theorem retrieve_refines_dequeue:
  assumes "buf_inv b"
  shows "case retrieve len b of
      Inl e \<Rightarrow> e = AssertFail \<and> length (contents b) < unat len
    | Inr b' \<Rightarrow> unat len \<le> length (contents b) \<and> buf_inv b' \<and>
                contents b' = drop (unat len) (contents b)"
proof (cases "unat len \<le> length (contents b)")
  case True
  from bb.deq_view [OF assms this] True show ?thesis by auto
next
  case False
  then show ?thesis using bb.deq_fault [OF assms, of len] by simp
qed

theorem retrieve_refines_dequeue_witness:
  "\<exists>b. Buffer_new = Inr b \<and>
     (case retrieve 1 b of Inl e \<Rightarrow> e = AssertFail | Inr b' \<Rightarrow> False)"
proof -
  obtain b where b: "Buffer_new = Inr b" "buf_inv b" "contents b = []"
    using Buffer_new_ok by blast
  from retrieve_refines_dequeue [OF b(2), of 1] b show ?thesis by (auto split: sum.splits)
qed

text \<open>
  \<open>readFd\<close> loses no byte of what \<open>readv\<close> delivered, whether it fits into the writable part of
  the vector or spills into \<open>extraBuf\<close>; the count is the number of bytes; an error leaves the buffer
  alone and reports the errno.
\<close>

theorem readFd_refines:
  assumes "buf_inv b" and "\<And>d. r = ReadBytes d \<Longrightarrow> room b (length d)"
  shows "case r of
      ReadError e \<Rightarrow> readFd r se b = Inr (-1, e, b)
    | ReadBytes d \<Rightarrow> \<exists>b'. readFd r se b = Inr (int (length d), se, b') \<and> buf_inv b' \<and>
        contents b' = contents b @ d"
  using assms readFd_ok [OF assms(1)] by (cases r) (auto simp: readFd_error)

theorem readFd_refines_witness:
  "\<exists>b b'. Buffer_new = Inr b \<and> readFd (ReadBytes [7, 8]) 0 b = Inr (2, 0, b') \<and> contents b' = [7, 8]"
proof -
  obtain b where b: "Buffer_new = Inr b" "buf_inv b" "contents b = []" "writerIndex b = 8"
    using Buffer_new_ok by blast
  then have "\<exists>b'. readFd (ReadBytes [7, 8]) 0 b = Inr (2, 0, b') \<and> contents b' = [7, 8]"
    using readFd_refines [OF b(2), of "ReadBytes [7, 8]" 0] by (auto simp: room_def)
  with b(1) show ?thesis by blast
qed

text \<open>
  Cheap prepend: after an \<open>append\<close> to a buffer whose front is free, a header of up to eight
  bytes can be put in front of the payload without moving it, and reading everything gives
  header, old contents and payload in this order.
\<close>

theorem header_roundtrip:
  assumes "buf_inv b" and "8 \<le> unat (readerIndex b)" and "room b (length d)" and "length h \<le> 8"
  shows "\<exists>b1 b2 b3. buffer_append d b = Inr b1 \<and> prepend h b1 = Inr b2 \<and>
    retrieveAsString b2 = Inr (h @ contents b @ d, b3) \<and> contents b3 = []"
proof -
  from buffer_append_ok [OF assms(1,3)] assms(2) obtain b1 where
    b1: "buffer_append d b = Inr b1" "buf_inv b1" "contents b1 = contents b @ d"
      "8 \<le> unat (readerIndex b1)" by blast
  with assms(4) obtain b2 where
    b2: "prepend h b1 = Inr b2" "buf_inv b2" "contents b2 = h @ contents b1"
    using prepend_ok [of b1 h] by auto
  show ?thesis
    using b1 b2 retrieveAsString_ok [OF b2(2)] retrieveAll_ok [OF b2(2)] by auto
qed

theorem header_roundtrip_witness:
  "\<exists>b b1 b2 b3. Buffer_new = Inr b \<and> buffer_append [5, 6] b = Inr b1 \<and> prepend [0, 2] b1 = Inr b2 \<and>
     retrieveAsString b2 = Inr ([0, 2, 5, 6], b3)"
proof -
  obtain b where b: "Buffer_new = Inr b" "buf_inv b" "contents b = []" "readerIndex b = 8" "writerIndex b = 8"
    using Buffer_new_ok by blast
  then have "8 \<le> unat (readerIndex b)" and "room b (length [5, 6 :: byte])"
    using b(4) by (simp_all add: room_def)
  from header_roundtrip [OF b(2) this, of "[0, 2]"] b show ?thesis by auto
qed

text \<open>
  What \<open>shrink\<close> does to the contents: it moves them to the front of a new vector but leaves the
  two indices, so a buffer of which \<open>k\<close> bytes have been retrieved since the last compaction
  (\<open>readerIndex\<close> is \<open>8 + k\<close>) reads as its contents without their first \<open>k\<close> bytes, followed by zero
  bytes of the reserve; the contents survive when nothing has been retrieved.
\<close>

theorem shrink_skips_retrieved:
  assumes "buf_inv b" and "room b (unat reserve)" and "8 \<le> unat (readerIndex b)"
  shows "\<exists>b'. shrink reserve b = Inr b' \<and>
    contents b' = take (length (contents b))
      (drop (unat (readerIndex b) - 8) (contents b @ replicate (unat reserve) 0)) \<and>
    (unat (readerIndex b) = 8 \<longrightarrow> contents b' = contents b)"
  using shrink_vector [OF assms(1,2)] shrink_view [OF assms(1-3)] by auto

theorem shrink_skips_retrieved_witness:
  "\<exists>b b'. storage b = [0, 0, 0, 0, 0, 0, 0, 0, 1, 2, 3] \<and> contents b = [2, 3] \<and>
     shrink 1 b = Inr b' \<and> contents b' = [3, 0]"
proof -
  let ?b = "\<lparr>storage = [0, 0, 0, 0, 0, 0, 0, 0, 1, 2, 3], readerIndex = 9, writerIndex = 11\<rparr>"
  have "buf_inv ?b" "room ?b (unat (1 :: size_t))" "8 \<le> unat (readerIndex ?b)"
    by (simp_all add: buf_inv_def room_def)
  moreover have "contents ?b = [2, 3]" by (simp add: contents_def)
  ultimately show ?thesis
    using shrink_skips_retrieved [of ?b 1] by - (rule exI [of _ ?b], auto)
qed

text \<open>
  C18. Buffers are well typed. Whatever sequence of calls a buffer has gone through since its
  construction, each with what it asks of its caller, the two indices are in order and inside the vector, so
  that the three areas add up to its size; and the next such call returns: no assertion
  fails, no access is outside the vector, no index wraps around.
\<close>

theorem buffer_type_sound:
  assumes "reach (\<lambda>b. Buffer_new = Inr b) buf_step b"
  shows "readerIndex b \<le> writerIndex b \<and> unat (writerIndex b) \<le> length (storage b) \<and>
    unat (prependableBytes b) + unat (readableBytes b) + unat (writableBytes b) = length (storage b) \<and>
    (\<forall>op. buf_pre op b \<longrightarrow> (\<exists>b'. buf_do op b = Inr b'))"
proof -
  have inv: "buf_inv b" by (rule bufs.reach_inv [OF assms])
  with buf_invD [OF inv] buf_do_ok [OF inv] show ?thesis
    by (auto simp: prependableBytes_def readable_unat writable_unat word_le_nat_alt)
qed

theorem buffer_type_sound_witness:
  "\<exists>b b1 b2. Buffer_new = Inr b \<and> buffer_append [1, 2, 3] b = Inr b1 \<and> prepend [9] b1 = Inr b2"
proof -
  obtain b where b: "Buffer_new = Inr b" "buf_inv b" "contents b = []" "readerIndex b = 8" "writerIndex b = 8"
    using Buffer_new_ok by blast
  let ?d = "[1, 2, 3 :: byte]"
  have room: "room b (length ?d)" using b(5) by (simp add: room_def)
  from buffer_append_ok [OF b(2) this] b(4) obtain b1 where b1: "buffer_append ?d b = Inr b1" "8 \<le> unat (readerIndex b1)" by auto
  have "buf_step b b1" using room b1(1) by (auto simp: buf_step_def intro!: exI [of _ "BAppend ?d"])
  with b(1) have "reach (\<lambda>b. Buffer_new = Inr b) buf_step b1" by (blast intro: reach_init reach_step)
  from buffer_type_sound [OF this] have "buf_pre (BPrepend [9]) b1 \<longrightarrow> (\<exists>b'. buf_do (BPrepend [9]) b1 = Inr b')" by blast
  with b1 have "\<exists>b2. prepend [9] b1 = Inr b2" by (simp add: prependableBytes_def)
  with b(1) b1(1) show ?thesis by blast
qed

end
