(* ===== verification/Doubles.thy ===== *)
theory Doubles
  imports Complex_Main Prelude
begin

text \<open>
  The arithmetic on \<open>double\<close> that the timers use: products, quotients, conversion from and to
  integers. A finite IEEE double is a significand and an exponent; each operation computes the
  exact result and rounds it to 53 bits, to nearest and ties to even. The range of the exponent
  is not modelled (no infinities, no subnormal numbers): the delays of a timer are far inside.
\<close>

datatype double = Dbl (signif: int) (expo: int)

definition dval :: "double \<Rightarrow> real" where
  "dval d = of_int (signif d) * 2 powi expo d"

text \<open>The number of bits of a positive integer.\<close>

function blen :: "int \<Rightarrow> nat" where
  "blen m = (if m \<le> 0 then 0 else Suc (blen (m div 2)))"
  by pat_completeness auto
termination
  by (relation "measure nat") auto

declare blen.simps [simp del]

text \<open>Rounding the exact value \<open>m * 2 ^ e\<close>.\<close>

definition drnd :: "int \<Rightarrow> int \<Rightarrow> double" where
  "drnd m e =
     (let a = \<bar>m\<bar>; b = blen a in
      if b \<le> 53 then Dbl m e
      else let k = b - 53; q = a div 2 ^ k; r = a mod 2 ^ k; h = 2 ^ (k - 1);
               q' = (if h < r \<or> (r = h \<and> odd q) then q + 1 else q)
           in Dbl (sgn m * q') (e + int k))"

definition dof_int :: "int \<Rightarrow> double" where
  "dof_int i = drnd i 0"

definition dmul :: "double \<Rightarrow> double \<Rightarrow> double" where
  "dmul x y = drnd (signif x * signif y) (expo x + expo y)"

text \<open>
  The quotient, for a divisor that is not zero: enough quotient bits are computed that the last
  one can stand for the remainder.
\<close>

definition ddiv :: "double \<Rightarrow> double \<Rightarrow> double" where
  "ddiv x y =
     (let k = 55 + blen \<bar>signif y\<bar>; n = \<bar>signif x\<bar> * 2 ^ k;
          q = n div \<bar>signif y\<bar>; r = n mod \<bar>signif y\<bar>
      in drnd (sgn (signif x) * sgn (signif y) * (2 * q + (if r = 0 then 0 else 1)))
              (expo x - expo y - int k - 1))"

definition dpos :: "double \<Rightarrow> bool" where
  "dpos x \<longleftrightarrow> 0 < signif x"

text \<open>\<open>static_cast<int64_t>\<close> truncates towards zero; a value out of range is undefined.\<close>

definition dtrunc :: "double \<Rightarrow> int" where
  "dtrunc x = (if 0 \<le> expo x then signif x * 2 ^ nat (expo x)
               else cdiv (signif x) (2 ^ nat (- expo x)))"

definition to_int64 :: "double \<Rightarrow> int result" where
  "to_int64 x = (if in_int64 (dtrunc x) then Inr (dtrunc x) else Inl Overflow)"

section \<open>Exactness\<close>

lemma blen_le: "m < 2 ^ n \<Longrightarrow> blen m \<le> n"
proof (induction n arbitrary: m)
  case 0
  then show ?case by (simp add: blen.simps)
next
  case (Suc n)
  show ?case
  proof (cases "m \<le> 0")
    case True
    then show ?thesis by (simp add: blen.simps)
  next
    case False
    from Suc.prems have "m div 2 < 2 ^ n" by auto
    with False Suc.IH show ?thesis by (simp add: blen.simps [of m])
  qed
qed

lemma blen_ge: "0 < m \<Longrightarrow> 2 ^ (blen m - 1) \<le> m"
proof (induction m rule: blen.induct)
  case (1 m)
  show ?case
  proof (cases "m div 2 = 0")
    case True
    with 1 show ?thesis by (simp add: blen.simps [of m] blen.simps [of 0])
  next
    case False
    with 1 have ih: "2 ^ (blen (m div 2) - 1) \<le> m div 2" by simp
    from False 1 have "0 < blen (m div 2)" by (simp add: blen.simps [of "m div 2"])
    then have "(2 :: int) ^ blen (m div 2) = 2 * 2 ^ (blen (m div 2) - 1)"
      by (metis Suc_diff_1 power_Suc)
    with ih 1 show ?thesis by (simp add: blen.simps [of m])
  qed
qed

lemma drnd_exact: "\<bar>m\<bar> < 2 ^ 53 \<Longrightarrow> drnd m e = Dbl m e"
  using blen_le [of "\<bar>m\<bar>" 53] by (simp add: drnd_def Let_def)

lemma dof_int_exact: "\<bar>i\<bar> < 2 ^ 53 \<Longrightarrow> dof_int i = Dbl i 0"
  by (simp add: dof_int_def drnd_exact)

lemma dmul_exact:
  "\<bar>signif x * signif y\<bar> < 2 ^ 53 \<Longrightarrow> dmul x y = Dbl (signif x * signif y) (expo x + expo y)"
  by (simp add: dmul_def drnd_exact)

lemma dtrunc_int [simp]: "dtrunc (Dbl i 0) = i"
  by (simp add: dtrunc_def)

text \<open>Rounding moves a value by at most half a unit of the last of its 53 bits.\<close>

lemma drnd_error:
  "\<exists>q k. drnd m e = Dbl (sgn m * q) (e + int k) \<and> 2 * \<bar>q * 2 ^ k - \<bar>m\<bar>\<bar> \<le> (2 ^ k :: int) \<and>
     (k = 0 \<longrightarrow> q = \<bar>m\<bar>) \<and> (0 < k \<longrightarrow> 2 ^ (52 + k) \<le> \<bar>m\<bar>)"
proof (cases "blen \<bar>m\<bar> \<le> 53")
  case True
  then have "drnd m e = Dbl (sgn m * \<bar>m\<bar>) (e + int 0)"
    by (simp add: drnd_def Let_def sgn_mult_abs)
  then show ?thesis by (intro exI [of _ "\<bar>m\<bar>"] exI [of _ 0]) simp
next
  case False
  define k where "k = blen \<bar>m\<bar> - 53"
  define q where "q = \<bar>m\<bar> div 2 ^ k"
  define r where "r = \<bar>m\<bar> mod 2 ^ k"
  define q' where "q' = (if 2 ^ (k - 1) < r \<or> (r = 2 ^ (k - 1) \<and> odd q) then q + 1 else q)"
  from False have k: "0 < k" by (simp add: k_def)
  from False have "m \<noteq> 0" by (auto simp: blen.simps)
  then have big: "2 ^ (52 + k) \<le> \<bar>m\<bar>"
    using blen_ge [of "\<bar>m\<bar>"] False by (simp add: k_def)
  have half: "2 * 2 ^ (k - 1) = (2 ^ k :: int)" using k by (metis Suc_diff_1 power_Suc)
  have split: "q * 2 ^ k + r = \<bar>m\<bar>" unfolding q_def r_def by (rule div_mult_mod_eq)
  have r: "0 \<le> r" "r < 2 ^ k" by (simp_all add: r_def)
  have "2 * \<bar>q' * 2 ^ k - \<bar>m\<bar>\<bar> \<le> (2 ^ k :: int)"
  proof (cases "2 ^ (k - 1) < r \<or> (r = 2 ^ (k - 1) \<and> odd q)")
    case True
    then have "q' * 2 ^ k - \<bar>m\<bar> = 2 ^ k - r" using split by (simp add: q'_def algebra_simps)
    with True r half show ?thesis by auto
  next
    case False
    then have "q' = q" by (simp only: q'_def if_False)
    then have "q' * 2 ^ k - \<bar>m\<bar> = - r" using split by simp
    with False r half show ?thesis by auto
  qed
  moreover have "drnd m e = Dbl (sgn m * q') (e + int k)"
    using False by (simp add: drnd_def Let_def k_def q_def r_def q'_def)
  ultimately show ?thesis using k big by blast
qed

lemma drnd_sign: "0 \<le> m \<Longrightarrow> 0 \<le> signif (drnd m e)"
  by (auto simp: drnd_def Let_def sgn_if pos_imp_zdiv_nonneg_iff)

lemma dtrunc_nonneg: "0 \<le> signif x \<Longrightarrow> 0 \<le> dtrunc x"
  by (simp add: dtrunc_def cdiv_nonneg pos_imp_zdiv_nonneg_iff)

end
