(* ===== verification/Timestamps.thy ===== *)
theory Timestamps
  imports Doubles
begin

text \<open>
  Timestamp (src/base/Timestamp.h, Timestamp.cpp): microseconds since the epoch. The class has
  one member; its two comparison operators are the order of the type. What \<open>gettimeofday\<close>
  returned is an argument of \<open>Timestamp_now\<close>. A signed 64-bit overflow is the fault \<open>Overflow\<close>.
\<close>

datatype timestamp = Timestamp (micros: int)

text \<open>The comparison of the source, and the order it belongs to.\<close>

definition timestamp_less :: "timestamp \<Rightarrow> timestamp \<Rightarrow> bool" where
  "timestamp_less lhs rhs \<longleftrightarrow> micros lhs < micros rhs"

declare timestamp_less_def [simp]

instantiation timestamp :: linorder
begin

definition less_timestamp :: "timestamp \<Rightarrow> timestamp \<Rightarrow> bool" where
  "less_timestamp lhs rhs \<longleftrightarrow> timestamp_less lhs rhs"

definition less_eq_timestamp :: "timestamp \<Rightarrow> timestamp \<Rightarrow> bool" where
  "less_eq_timestamp lhs rhs \<longleftrightarrow> micros lhs \<le> micros rhs"

instance
  by standard (auto simp: less_timestamp_def less_eq_timestamp_def timestamp.expand)

end

definition kMicroSecondsPerSecond :: int where
  "kMicroSecondsPerSecond = 1000 * 1000"

definition Timestamp_default :: timestamp where
  "Timestamp_default = Timestamp 0"

definition microSecondsSinceEpoch :: "timestamp \<Rightarrow> int" where
  "microSecondsSinceEpoch t = micros t"

declare Timestamp_default_def [simp] microSecondsSinceEpoch_def [simp]

definition invaild :: timestamp where
  "invaild = Timestamp 0"

definition Timestamp_swap :: "timestamp \<Rightarrow> timestamp \<Rightarrow> timestamp \<times> timestamp" where
  "Timestamp_swap this that = (Timestamp (micros that), Timestamp (micros this))"

definition valid :: "timestamp \<Rightarrow> bool" where
  "valid t \<longleftrightarrow> 0 < micros t"

definition secondsSinceEpoch :: "timestamp \<Rightarrow> int" where
  "secondsSinceEpoch t = cdiv (micros t) (1000 * 1000)"

definition timestamp_eq :: "timestamp \<Rightarrow> timestamp \<Rightarrow> bool" where
  "timestamp_eq lhs rhs \<longleftrightarrow> micros lhs = micros rhs"

definition Timestamp_now :: "int \<times> int \<Rightarrow> timestamp result" where
  "Timestamp_now tv = (case tv of (tv_sec, tv_usec) \<Rightarrow>
     let m = tv_sec * kMicroSecondsPerSecond + tv_usec in
     if in_int64 m then Inr (Timestamp m) else Inl Overflow)"

definition timeDifference :: "timestamp \<Rightarrow> timestamp \<Rightarrow> double result" where
  "timeDifference high low =
     (let diff = micros high - micros low in
      if in_int64 diff then Inr (dof_int (cdiv diff kMicroSecondsPerSecond)) else Inl Overflow)"

definition addTime :: "timestamp \<Rightarrow> double \<Rightarrow> timestamp result" where
  "addTime t seconds =
     rbind (to_int64 (dmul seconds (dof_int kMicroSecondsPerSecond))) (\<lambda>adds.
     if in_int64 (micros t + adds) then Inr (Timestamp (micros t + adds)) else Inl Overflow)"

definition toString :: "timestamp \<Rightarrow> string" where
  "toString t =
     (let seconds = cdiv (micros t) kMicroSecondsPerSecond;
          microseconds = cmod (micros t) kMicroSecondsPerSecond
      in snprintf (32 - 1) (dec_int seconds @ '' '' @ dec_int6 microseconds))"

section \<open>Lemmas\<close>

lemma less_timestamp_iff [simp]: "(Timestamp a < Timestamp b) = (a < b)"
  by (simp add: less_timestamp_def)

lemma less_eq_timestamp_iff [simp]: "(Timestamp a \<le> Timestamp b) = (a \<le> b)"
  by (simp add: less_eq_timestamp_def)

lemma timestamp_eq_iff: "timestamp_eq a b \<longleftrightarrow> a = b"
  by (cases a; cases b) (simp add: timestamp_eq_def)

lemma addTime_eq:
  "addTime t s = Inr u \<Longrightarrow> micros u = micros t + dtrunc (dmul s (dof_int 1000000))"
  by (auto simp: addTime_def to_int64_def kMicroSecondsPerSecond_def result_simps split: if_splits)

lemma dmul_million_nonneg: "0 \<le> signif s \<Longrightarrow> 0 \<le> dtrunc (dmul s (dof_int 1000000))"
  by (intro dtrunc_nonneg) (simp add: dmul_def dof_int_exact drnd_sign)

lemma addTime_mono: "addTime t s = Inr u \<Longrightarrow> 0 \<le> signif s \<Longrightarrow> t \<le> u"
  using addTime_eq [of t s u] dmul_million_nonneg [of s] by (simp add: less_eq_timestamp_def)

lemma addTime_whole:
  assumes "\<bar>n * 1000000\<bar> < 2 ^ 53" and "in_int64 (micros t + n * 1000000)"
  shows "addTime t (dof_int n) = Inr (Timestamp (micros t + n * 1000000))"
proof -
  from assms(1) have n: "\<bar>n\<bar> < 2 ^ 53" by simp
  have "in_int64 (n * 1000000)" using assms(1) by (simp add: in_int64_def abs_less_iff)
  with assms n show ?thesis
    by (simp add: addTime_def kMicroSecondsPerSecond_def dof_int_exact dmul_exact to_int64_def)
qed

lemma dec_int_length: "\<bar>i\<bar> < 10 ^ Suc k \<Longrightarrow> length (dec_int i) \<le> Suc (Suc k)"
  using length_dec [of "nat \<bar>i\<bar>" k]
  by (cases "i < 0") (auto simp: dec_int_def nat_less_iff nat_power_eq)

lemma toString_untruncated:
  assumes "in_int64 (micros t)"
  shows "toString t = dec_int (cdiv (micros t) 1000000) @ '' '' @ dec_int6 (cmod (micros t) 1000000)"
    and "length (toString t) \<le> 23"
proof -
  let ?s = "cdiv (micros t) 1000000" and ?u = "cmod (micros t) 1000000"
  have s: "\<bar>?s\<bar> < 10 ^ Suc 12"
    using assms by (cases "0 \<le> micros t") (auto simp: cdiv_nonneg cdiv_neg in_int64_def)
  have u: "\<bar>?u\<bar> < 10 ^ Suc 5"
    by (cases "0 \<le> micros t") (auto simp: cmod_nonneg cmod_neg)
  from dec_int_length [OF s] have ls: "length (dec_int ?s) \<le> 14" by simp
  have "length (dec (nat \<bar>?u\<bar>)) \<le> 6"
    using length_dec [of "nat \<bar>?u\<bar>" 5] u by (simp add: nat_less_iff)
  then have lu: "length (dec_int6 ?u) \<le> 7" by (simp add: dec_int6_def Let_def)
  from ls lu show "toString t = dec_int ?s @ '' '' @ dec_int6 ?u"
    by (simp add: toString_def kMicroSecondsPerSecond_def snprintf_fits)
  with ls lu show "length (toString t) \<le> 23" by simp
qed

lemma space_dec_int: "CHR '' '' \<notin> set (dec_int i)"
  by (simp add: dec_int_def)

lemma now_seconds:
  assumes "Timestamp_now (s, u) = Inr t" and "0 \<le> s" and "0 \<le> u" and "u < 1000000"
  shows "secondsSinceEpoch t = s"
proof -
  from assms(1) have "micros t = s * 1000000 + u"
    by (auto simp: Timestamp_now_def Let_def kMicroSecondsPerSecond_def split: if_splits)
  with assms show ?thesis by (simp add: secondsSinceEpoch_def cdiv_nonneg)
qed

section \<open>Properties\<close>

text \<open>
  Adding a delay of a whole number of seconds and taking the difference gives the delay back,
  with no rounding, for every delay whose number of microseconds is below \<open>2 ^ 53\<close> (285 years).
\<close>

theorem addTime_timeDifference:
  assumes "\<bar>n * 1000000\<bar> < 2 ^ 53" and "in_int64 (micros t + n * 1000000)"
  shows "\<exists>u. addTime t (dof_int n) = Inr u \<and> micros u = micros t + n * 1000000 \<and>
    timeDifference u t = Inr (dof_int n)"
proof -
  have "in_int64 (n * 1000000)" using assms(1) by (simp add: in_int64_def abs_less_iff)
  moreover have "cdiv (n * 1000000) 1000000 = n"
    by (cases "0 \<le> n") (simp_all add: cdiv_nonneg cdiv_neg)
  ultimately show ?thesis
    using addTime_whole [OF assms] by (simp add: timeDifference_def kMicroSecondsPerSecond_def)
qed

theorem addTime_timeDifference_witness:
  "\<exists>u. addTime (Timestamp 5) (dof_int 3) = Inr u \<and> micros u = 3000005"
  using addTime_timeDifference [of 3 "Timestamp 5"] by (auto simp: in_int64_def)

text \<open>
  \<open>timeDifference\<close> divides before it converts: the fraction of a second is lost, and two
  timestamps less than one second apart have the difference zero.
\<close>

theorem timeDifference_truncates:
  assumes "in_int64 (micros high - micros low)"
  shows "timeDifference high low = Inr (dof_int (cdiv (micros high - micros low) 1000000)) \<and>
    (\<bar>micros high - micros low\<bar> < 1000000 \<longrightarrow> timeDifference high low = Inr (dof_int 0))"
proof -
  have "\<bar>d\<bar> < 1000000 \<Longrightarrow> cdiv d 1000000 = 0" for d
    by (cases "0 \<le> d") (auto simp: cdiv_nonneg cdiv_neg)
  with assms show ?thesis by (simp add: timeDifference_def kMicroSecondsPerSecond_def)
qed

theorem timeDifference_truncates_witness:
  "timeDifference (Timestamp 1999999) (Timestamp 1000000) = Inr (Dbl 0 0)"
  using timeDifference_truncates [of "Timestamp 1999999" "Timestamp 1000000"]
  by (simp add: in_int64_def dof_int_exact cdiv_def)

text \<open>
  C39. \<open>toString\<close> loses nothing: its text always fits into the 31 characters that \<open>snprintf\<close> may
  write, and two timestamps with the same text are equal.
\<close>

theorem toString_lossless:
  assumes "in_int64 (micros s)" and "in_int64 (micros t)"
  shows "length (toString s) \<le> 23 \<and> (toString s = toString t \<longrightarrow> s = t)"
proof -
  let ?q = "\<lambda>t. cdiv (micros t) 1000000" and ?r = "\<lambda>t. cmod (micros t) 1000000"
  have "s = t" if "toString s = toString t"
  proof -
    from that have "dec_int (?q s) @ CHR '' '' # dec_int6 (?r s) = dec_int (?q t) @ CHR '' '' # dec_int6 (?r t)"
      by (simp add: toString_untruncated(1) [OF assms(1)] toString_untruncated(1) [OF assms(2)])
    from split_at_sep [OF this space_dec_int space_dec_int] have "?q s = ?q t" and "?r s = ?r t"
      by (auto dest: dec_int_inj dec_int6_inj)
    then have "micros s = micros t"
      by (metis cdiv_cmod)
    then show "s = t" by (rule timestamp.expand)
  qed
  with toString_untruncated(2) [OF assms(1)] show ?thesis by blast
qed

theorem toString_lossless_witness:
  "toString (Timestamp 1000005) \<noteq> toString (Timestamp 1000006)"
  using toString_lossless [of "Timestamp 1000005" "Timestamp 1000006"]
  by (auto simp: in_int64_def)

end
