(* ===== verification/Sockets.thy ===== *)
theory Sockets
  imports Prelude
begin

text \<open>
  SocketsOps (src/net/SocketsOps.h, SocketsOps.cpp), InetAddress (src/net/InetAddress.h,
  InetAddress.cpp) and Socket (src/net/Socket.h, Socket.cpp): byte order, socket addresses and
  their text, and the wrappers of the socket system calls.

  The order of the bytes of an integer in memory is a parameter \<open>le\<close> (little endian or not). What
  a system call returns is an argument of the wrapper; the calls that change the state of the
  kernel are listed in the order they are made, as values of \<open>sys_event\<close>. The address conversions
  of the C library are those of glibc: four decimal octets without leading zeros.
\<close>

section \<open>Errors and events of the kernel\<close>

abbreviation "EPERM \<equiv> (1 :: int)"
abbreviation "EINTR \<equiv> (4 :: int)"
abbreviation "EBADF \<equiv> (9 :: int)"
abbreviation "EAGAIN \<equiv> (11 :: int)"
abbreviation "EWOULDBLOCK \<equiv> EAGAIN"
abbreviation "ENOMEM \<equiv> (12 :: int)"
abbreviation "EACCES \<equiv> (13 :: int)"
abbreviation "EFAULT \<equiv> (14 :: int)"
abbreviation "EINVAL \<equiv> (22 :: int)"
abbreviation "ENFILE \<equiv> (23 :: int)"
abbreviation "EMFILE \<equiv> (24 :: int)"
abbreviation "EPIPE \<equiv> (32 :: int)"
abbreviation "EPROTO \<equiv> (71 :: int)"
abbreviation "ENOTSOCK \<equiv> (88 :: int)"
abbreviation "EOPNOTSUPP \<equiv> (95 :: int)"
abbreviation "EAFNOSUPPORT \<equiv> (97 :: int)"
abbreviation "EADDRINUSE \<equiv> (98 :: int)"
abbreviation "EADDRNOTAVAIL \<equiv> (99 :: int)"
abbreviation "ENETUNREACH \<equiv> (101 :: int)"
abbreviation "ECONNABORTED \<equiv> (103 :: int)"
abbreviation "ENOBUFS \<equiv> (105 :: int)"
abbreviation "EISCONN \<equiv> (106 :: int)"
abbreviation "ECONNREFUSED \<equiv> (111 :: int)"
abbreviation "EALREADY \<equiv> (114 :: int)"
abbreviation "EINPROGRESS \<equiv> (115 :: int)"

section \<open>Byte order\<close>

text \<open>The bytes of an integer, least significant first.\<close>

definition to_bytes :: "nat \<Rightarrow> 'a::len word \<Rightarrow> byte list" where
  "to_bytes k w = map (\<lambda>i. ucast (drop_bit (8 * i) w)) [0..<k]"

fun of_bytes :: "byte list \<Rightarrow> 'a::len word" where
  "of_bytes [] = 0"
| "of_bytes (b # bs) = or (ucast b) (push_bit 8 (of_bytes bs))"

definition hostToNetwork16 :: "bool \<Rightarrow> 16 word \<Rightarrow> 16 word" where
  "hostToNetwork16 le w = (if le then of_bytes (rev (to_bytes 2 w)) else w)"

definition hostToNetwork32 :: "bool \<Rightarrow> 32 word \<Rightarrow> 32 word" where
  "hostToNetwork32 le w = (if le then of_bytes (rev (to_bytes 4 w)) else w)"

definition hostToNetwork64 :: "bool \<Rightarrow> 64 word \<Rightarrow> 64 word" where
  "hostToNetwork64 le w = (if le then of_bytes (rev (to_bytes 8 w)) else w)"

definition networkToHost16 :: "bool \<Rightarrow> 16 word \<Rightarrow> 16 word" where
  "networkToHost16 le w = (if le then of_bytes (rev (to_bytes 2 w)) else w)"

definition networkToHost32 :: "bool \<Rightarrow> 32 word \<Rightarrow> 32 word" where
  "networkToHost32 le w = (if le then of_bytes (rev (to_bytes 4 w)) else w)"

definition networkToHost64 :: "bool \<Rightarrow> 64 word \<Rightarrow> 64 word" where
  "networkToHost64 le w = (if le then of_bytes (rev (to_bytes 8 w)) else w)"

section \<open>Socket addresses\<close>

record sockaddr_in =
  sin_family :: "16 word"
  sin_port :: "16 word"
  sin_addr :: "32 word"

definition AF_INET :: "16 word" where "AF_INET = 2"

definition kInaddrAny :: "32 word" where "kInaddrAny = 0"

text \<open>\<open>bzero\<close> on a socket address.\<close>

definition zero_addr :: sockaddr_in where
  "zero_addr = \<lparr>sin_family = 0, sin_port = 0, sin_addr = 0\<rparr>"

text \<open>The four bytes of an address as they are in memory.\<close>

definition addr_bytes :: "bool \<Rightarrow> 32 word \<Rightarrow> byte list" where
  "addr_bytes le a = (if le then to_bytes 4 a else rev (to_bytes 4 a))"

definition addr_of_bytes :: "bool \<Rightarrow> byte list \<Rightarrow> 32 word" where
  "addr_of_bytes le bs = of_bytes (if le then bs else rev bs)"

fun dotted :: "byte list \<Rightarrow> string" where
  "dotted [] = []"
| "dotted [b] = dec (unat b)"
| "dotted (b # bs) = dec (unat b) @ ''.'' @ dotted bs"

fun split_on :: "char \<Rightarrow> string \<Rightarrow> string list" where
  "split_on c [] = [[]]"
| "split_on c (x # xs) =
     (if x = c then [] # split_on c xs
      else case split_on c xs of [] \<Rightarrow> [[x]] | p # ps \<Rightarrow> (x # p) # ps)"

definition octet :: "string \<Rightarrow> byte option" where
  "octet p = (if p = dec (undec p) \<and> undec p < 256 then Some (of_nat (undec p)) else None)"

definition inet_pton :: "string \<Rightarrow> byte list option" where
  "inet_pton ip =
     (let ps = split_on (CHR ''.'') ip in
      if length ps = 4 \<and> list_all (\<lambda>p. octet p \<noteq> None) ps
      then Some (map (\<lambda>p. the (octet p)) ps) else None)"

definition inet_ntop :: "bool \<Rightarrow> 32 word \<Rightarrow> string" where
  "inet_ntop le a = dotted (addr_bytes le a)"

text \<open>
  \<open>fromHostPort\<close>: \<open>inet_pton\<close> returns 0 for a text that is no address and writes nothing then; the
  code looks for a negative value only, which the address family AF_INET never gives.
\<close>

definition fromHostPort :: "bool \<Rightarrow> string \<Rightarrow> 16 word \<Rightarrow> sockaddr_in \<Rightarrow> sockaddr_in" where
  "fromHostPort le ip port addr =
     (let addr1 = addr\<lparr>sin_family := AF_INET, sin_port := hostToNetwork16 le port\<rparr> in
      case inet_pton ip of
        None \<Rightarrow> addr1
      | Some bs \<Rightarrow> addr1\<lparr>sin_addr := addr_of_bytes le bs\<rparr>)"

definition toHostPort :: "bool \<Rightarrow> nat \<Rightarrow> sockaddr_in \<Rightarrow> string" where
  "toHostPort le n addr =
     (let host = snprintf 16 (inet_ntop le (sin_addr addr));
          port = networkToHost16 le (sin_port addr)
      in snprintf n (host @ '':'' @ dec (unat port)))"

definition InetAddress_port :: "bool \<Rightarrow> 16 word \<Rightarrow> sockaddr_in" where
  "InetAddress_port le port =
     zero_addr\<lparr>sin_family := AF_INET, sin_addr := hostToNetwork32 le kInaddrAny,
               sin_port := hostToNetwork16 le port\<rparr>"

definition InetAddress_ip :: "bool \<Rightarrow> string \<Rightarrow> 16 word \<Rightarrow> sockaddr_in" where
  "InetAddress_ip le ip port = fromHostPort le ip port zero_addr"

definition InetAddress_inet :: "sockaddr_in \<Rightarrow> sockaddr_in" where
  "InetAddress_inet addr = addr"

definition getSockAddrInet :: "sockaddr_in \<Rightarrow> sockaddr_in" where
  "getSockAddrInet a = a"

definition setSockAddrInet :: "sockaddr_in \<Rightarrow> sockaddr_in \<Rightarrow> sockaddr_in" where
  "setSockAddrInet addr a = addr"

definition InetAddress_toHostPort :: "bool \<Rightarrow> sockaddr_in \<Rightarrow> string" where
  "InetAddress_toHostPort le a = toHostPort le 32 a"

section \<open>The wrappers of the system calls\<close>

datatype sys_event =
    SysBind int sockaddr_in
  | SysListen int int
  | SysClose int
  | SysShutdownWr int
  | SysSetsockopt int int int int
  | SysSetfl int int
  | SysSetfd int int

definition SOMAXCONN :: int where "SOMAXCONN = 4096"

text \<open>What a call returns: its value, or -1 with the error in \<open>errno\<close>.\<close>

definition sys_return :: "int syscall \<Rightarrow> int" where
  "sys_return r = (case r of Ret v \<Rightarrow> v | Err _ \<Rightarrow> -1)"

definition O_NONBLOCK :: int where "O_NONBLOCK = 2048"
definition FD_CLOEXEC :: int where "FD_CLOEXEC = 1"

text \<open>The flags that \<open>fcntl\<close> returns are used without a test for -1.\<close>

definition setNonblockAndCloseOnExec :: "int \<Rightarrow> int syscall \<Rightarrow> int syscall \<Rightarrow> sys_event list" where
  "setNonblockAndCloseOnExec sockfd getfl getfd =
     [SysSetfl sockfd (or (sys_return getfl) O_NONBLOCK), SysSetfd sockfd (or (sys_return getfd) FD_CLOEXEC)]"

definition sock_connect :: "unit syscall \<Rightarrow> int" where
  "sock_connect r = sys_return (case r of Ret _ \<Rightarrow> Ret 0 | Err e \<Rightarrow> Err e)"

lemma sock_connect_simps [simp]: "sock_connect (Ret u) = 0" "sock_connect (Err e) = -1"
  by (simp_all add: sock_connect_def sys_return_def)

definition createNonblockingOrDie :: "int syscall \<Rightarrow> int result" where
  "createNonblockingOrDie r = (case r of Err _ \<Rightarrow> Inl Aborted | Ret sockfd \<Rightarrow> Inr sockfd)"

definition bindOrDie :: "int \<Rightarrow> sockaddr_in \<Rightarrow> int syscall \<Rightarrow> sys_event list result" where
  "bindOrDie sockfd addr r = (case r of Err _ \<Rightarrow> Inl Aborted | Ret _ \<Rightarrow> Inr [SysBind sockfd addr])"

definition listenOrdie :: "int \<Rightarrow> int syscall \<Rightarrow> sys_event list result" where
  "listenOrdie sockfd r = (case r of Err _ \<Rightarrow> Inl Aborted | Ret _ \<Rightarrow> Inr [SysListen sockfd SOMAXCONN])"

text \<open>The result of \<open>accept\<close> is the descriptor, or \<open>-1\<close> for the errors a server expects.\<close>

definition sock_accept :: "int syscall \<Rightarrow> int result" where
  "sock_accept r =
     (case r of
        Ret connfd \<Rightarrow> Inr connfd
      | Err savedErrno \<Rightarrow>
          if savedErrno \<in> set [EAGAIN, ECONNABORTED, EINTR, EPROTO, EPERM, EMFILE] then Inr (-1)
          else if savedErrno \<in> set [EBADF, EFAULT, EINVAL, ENFILE, ENOBUFS, ENOMEM, ENOTSOCK, EOPNOTSUPP]
          then Inl Aborted
          else Inl Aborted)"

definition sock_close :: "int \<Rightarrow> sys_event list" where
  "sock_close sockfd = [SysClose sockfd]"

definition sock_shutdownWrite :: "int \<Rightarrow> sys_event list" where
  "sock_shutdownWrite sockfd = [SysShutdownWr sockfd]"

definition getLocalAddr :: "sockaddr_in syscall \<Rightarrow> sockaddr_in" where
  "getLocalAddr r = (case r of Ret a \<Rightarrow> a | Err _ \<Rightarrow> zero_addr)"

definition getPeerAddr :: "sockaddr_in syscall \<Rightarrow> sockaddr_in" where
  "getPeerAddr r = (case r of Ret a \<Rightarrow> a | Err _ \<Rightarrow> zero_addr)"

definition getSocketError :: "int syscall \<Rightarrow> int" where
  "getSocketError r = (case r of Ret optVal \<Rightarrow> optVal | Err errno \<Rightarrow> errno)"

definition isSelfConnect :: "sockaddr_in syscall \<Rightarrow> sockaddr_in syscall \<Rightarrow> bool" where
  "isSelfConnect rl rp =
     (let localAddr = getLocalAddr rl; peerAddr = getPeerAddr rp in
      sin_port localAddr = sin_port peerAddr \<and> sin_addr localAddr = sin_addr peerAddr)"

text \<open>
  Socket: the owner of one descriptor, which its destructor closes. \<open>accept\<close> assigns the address
  of the peer only on success.
\<close>

record socket =
  sockfd :: int

definition Socket_new :: "int \<Rightarrow> socket" where
  "Socket_new fd = \<lparr>sockfd = fd\<rparr>"

definition Socket_fd :: "socket \<Rightarrow> int" where
  "Socket_fd s = sockfd s"

declare Socket_new_def [simp] Socket_fd_def [simp]

definition Socket_dtor :: "socket \<Rightarrow> sys_event list" where
  "Socket_dtor s = sock_close (sockfd s)"

definition bindAddress :: "socket \<Rightarrow> sockaddr_in \<Rightarrow> int syscall \<Rightarrow> sys_event list result" where
  "bindAddress s localAddr r = bindOrDie (sockfd s) localAddr r"

definition Socket_listen :: "socket \<Rightarrow> int syscall \<Rightarrow> sys_event list result" where
  "Socket_listen s r = listenOrdie (sockfd s) r"

definition Socket_accept ::
  "(int \<times> sockaddr_in) syscall \<Rightarrow> sockaddr_in \<Rightarrow> (int \<times> sockaddr_in) result" where
  "Socket_accept r peerAddr =
     rbind (sock_accept (case r of Ret (fd, _) \<Rightarrow> Ret fd | Err e \<Rightarrow> Err e)) (\<lambda>connfd.
     Inr (connfd, if 0 \<le> connfd then (case r of Ret (_, addr) \<Rightarrow> addr | Err _ \<Rightarrow> zero_addr) else peerAddr))"

definition SOL_SOCKET :: int where "SOL_SOCKET = 1"
definition SO_REUSEADDR :: int where "SO_REUSEADDR = 2"
definition IPPROTO_TCP :: int where "IPPROTO_TCP = 6"
definition TCP_NODELAY :: int where "TCP_NODELAY = 1"

definition setReuseAddr :: "socket \<Rightarrow> bool \<Rightarrow> sys_event list" where
  "setReuseAddr s on = [SysSetsockopt (sockfd s) SOL_SOCKET SO_REUSEADDR (if on then 1 else 0)]"

definition Socket_shutdownWrite :: "socket \<Rightarrow> sys_event list" where
  "Socket_shutdownWrite s = sock_shutdownWrite (sockfd s)"

definition Socket_setTcpNoDelay :: "socket \<Rightarrow> bool \<Rightarrow> sys_event list" where
  "Socket_setTcpNoDelay s on = [SysSetsockopt (sockfd s) IPPROTO_TCP TCP_NODELAY (if on then 1 else 0)]"

section \<open>Bytes of integers\<close>

lemma length_to_bytes [simp]: "length (to_bytes k w) = k"
  by (simp add: to_bytes_def)

lemma bit_to_bytes:
  "n < 8 \<Longrightarrow> i < k \<Longrightarrow> bit (to_bytes k w ! i) n \<longleftrightarrow> bit w (8 * i + n)"
  by (simp add: to_bytes_def bit_ucast_iff bit_drop_bit_eq)

lemma bit_of_bytes:
  assumes "8 * length bs \<le> LENGTH('a::len)"
  shows "bit (of_bytes bs :: 'a word) n \<longleftrightarrow> n < 8 * length bs \<and> bit (bs ! (n div 8)) (n mod 8)"
  using assms
proof (induction bs arbitrary: n)
  case Nil
  then show ?case by simp
next
  case (Cons b bs)
  show ?case
  proof (cases "n < 8")
    case True
    with Cons.prems show ?thesis
      by (simp add: bit_or_iff bit_push_bit_iff bit_ucast_iff)
  next
    case False
    then have b: "\<not> bit b n" by (auto dest: bit_imp_le_length)
    from False obtain m where m: "n = 8 + m" by (metis le_add_diff_inverse not_less)
    have "bit (of_bytes (b # bs) :: 'a word) n \<longleftrightarrow> n < LENGTH('a) \<and> bit (of_bytes bs :: 'a word) m"
      using b by (simp add: m bit_or_iff bit_push_bit_iff bit_ucast_iff)
    also from Cons.prems have "8 * length bs \<le> LENGTH('a)" by simp
    note Cons.IH [OF this, of m]
    also have "(n < LENGTH('a) \<and> m < 8 * length bs \<and> bit (bs ! (m div 8)) (m mod 8)) \<longleftrightarrow>
        (m < 8 * length bs \<and> bit (bs ! (m div 8)) (m mod 8))"
      using Cons.prems m by auto
    finally have "bit (of_bytes (b # bs) :: 'a word) n \<longleftrightarrow>
      m < 8 * length bs \<and> bit (bs ! (m div 8)) (m mod 8)" .
    moreover have "n div 8 = Suc (m div 8)" by (simp add: m)
    ultimately show ?thesis by (simp add: m)
  qed
qed

lemma of_bytes_to_bytes:
  assumes "8 * k = LENGTH('a::len)"
  shows "of_bytes (to_bytes k (w :: 'a word)) = w"
proof (rule bit_word_eqI)
  fix n assume n: "n < LENGTH('a)"
  with assms have "n div 8 < k" by auto
  then have "bit (to_bytes k w ! (n div 8)) (n mod 8) \<longleftrightarrow> bit w n"
    by (subst bit_to_bytes) simp_all
  then show "bit (of_bytes (to_bytes k w) :: 'a word) n \<longleftrightarrow> bit w n"
    using assms n by (simp add: bit_of_bytes)
qed

lemma to_bytes_of_bytes:
  assumes "length bs = k" and "8 * k \<le> LENGTH('a::len)"
  shows "to_bytes k (of_bytes bs :: 'a word) = bs"
proof (rule nth_equalityI)
  show "length (to_bytes k (of_bytes bs :: 'a word)) = length bs" using assms by simp
next
  fix i assume "i < length (to_bytes k (of_bytes bs :: 'a word))"
  then have i: "i < k" by simp
  show "to_bytes k (of_bytes bs :: 'a word) ! i = bs ! i"
  proof (rule bit_word_eqI)
    fix n assume "n < LENGTH(8)"
    then have n: "n < 8" by simp
    with i assms(1) have "8 * i + n < 8 * length bs" by simp
    with n i assms show "bit (to_bytes k (of_bytes bs :: 'a word) ! i) n \<longleftrightarrow> bit (bs ! i) n"
      by (simp add: bit_to_bytes bit_of_bytes)
  qed
qed

lemma swap_swap:
  assumes "8 * k = LENGTH('a::len)"
  shows "of_bytes (rev (to_bytes k (of_bytes (rev (to_bytes k w)) :: 'a word))) = (w :: 'a word)"
proof -
  have "to_bytes k (of_bytes (rev (to_bytes k w)) :: 'a word) = rev (to_bytes k w)"
    by (rule to_bytes_of_bytes) (use assms in simp_all)
  then show ?thesis by (simp add: of_bytes_to_bytes [OF assms])
qed

lemma network_host16 [simp]: "networkToHost16 le (hostToNetwork16 le w) = w"
  using swap_swap [of 2 w] by (simp add: networkToHost16_def hostToNetwork16_def)

lemma network_host32 [simp]: "networkToHost32 le (hostToNetwork32 le w) = w"
  using swap_swap [of 4 w] by (simp add: networkToHost32_def hostToNetwork32_def)

lemma network_host64 [simp]: "networkToHost64 le (hostToNetwork64 le w) = w"
  using swap_swap [of 8 w] by (simp add: networkToHost64_def hostToNetwork64_def)

lemma host_network16: "hostToNetwork16 le (networkToHost16 le w) = w"
  using swap_swap [of 2 w] by (simp add: networkToHost16_def hostToNetwork16_def)

lemma networkToHost16_inj: "networkToHost16 le v = networkToHost16 le w \<Longrightarrow> v = w"
  by (metis host_network16)

lemma addr_bytes_of_bytes [simp]:
  "length bs = 4 \<Longrightarrow> addr_bytes le (addr_of_bytes le bs) = bs"
  using to_bytes_of_bytes [of bs 4, where 'a = 32] to_bytes_of_bytes [of "rev bs" 4, where 'a = 32]
  by (simp add: addr_bytes_def addr_of_bytes_def)

lemma addr_bytes_inj: "addr_bytes le a = addr_bytes le b \<Longrightarrow> a = b"
proof -
  assume "addr_bytes le a = addr_bytes le b"
  then have "to_bytes 4 a = to_bytes 4 b" by (simp add: addr_bytes_def split: if_splits)
  then have "(of_bytes (to_bytes 4 a) :: 32 word) = of_bytes (to_bytes 4 b)" by simp
  then show "a = b" by (simp add: of_bytes_to_bytes)
qed

lemma length_addr_bytes [simp]: "length (addr_bytes le a) = 4"
  by (simp add: addr_bytes_def)

section \<open>Dotted addresses\<close>

lemma dot_not_digit [simp]: "CHR ''.'' \<notin> set (dec n)"
  by (rule not_in_dec) simp

lemma colon_not_digit [simp]: "CHR '':'' \<notin> set (dec n)"
  by (rule not_in_dec) simp

lemma split_on_plain: "c \<notin> set p \<Longrightarrow> split_on c p = [p]"
  by (induction p) auto

lemma split_on_sep: "c \<notin> set p \<Longrightarrow> split_on c (p @ c # rest) = p # split_on c rest"
  by (induction p) auto

lemma split_dotted:
  "bs \<noteq> [] \<Longrightarrow> split_on (CHR ''.'') (dotted bs) = map (\<lambda>b. dec (unat b)) bs"
  by (induction bs rule: dotted.induct) (auto simp: split_on_plain split_on_sep)

lemma unat_byte: "unat (b :: byte) < 256"
  using unsigned_less [of b, where 'a = nat] by simp

lemma unat_port: "unat (p :: 16 word) < 65536"
  using unsigned_less [of p, where 'a = nat] by simp

lemma octet_dec [simp]: "octet (dec (unat b)) = Some (b :: byte)"
  using unat_byte [of b] by (simp add: octet_def)

lemma inet_pton_dotted: "length bs = 4 \<Longrightarrow> inet_pton (dotted bs) = Some bs"
  by (cases "bs = []") (auto simp: inet_pton_def split_dotted list_all_iff o_def)

lemma colon_not_dotted [simp]: "CHR '':'' \<notin> set (dotted bs)"
  by (induction bs rule: dotted.induct) auto

lemma length_dotted: "length (dotted bs) \<le> 4 * length bs - 1"
proof (induction bs rule: dotted.induct)
  case (2 b)
  then show ?case using length_dec [of "unat b" 2] unat_byte [of b] by simp
next
  case (3 b c bs)
  then show ?case using length_dec [of "unat b" 2] unat_byte [of b] by simp
qed simp

lemma dotted_inj: "length as = 4 \<Longrightarrow> length bs = 4 \<Longrightarrow> dotted as = dotted bs \<Longrightarrow> as = bs"
  by (metis inet_pton_dotted option.inject)

lemma toHostPort_text:
  "InetAddress_toHostPort le a =
     dotted (addr_bytes le (sin_addr a)) @ '':'' @ dec (unat (networkToHost16 le (sin_port a)))"
  "length (InetAddress_toHostPort le a) \<le> 21"
proof -
  let ?h = "dotted (addr_bytes le (sin_addr a))" and ?p = "networkToHost16 le (sin_port a)"
  have h: "length ?h \<le> 15" using length_dotted [of "addr_bytes le (sin_addr a)"] by simp
  have p: "length (dec (unat ?p)) \<le> 5" using length_dec [of "unat ?p" 4] unat_port [of ?p] by simp
  show eq: "InetAddress_toHostPort le a = ?h @ '':'' @ dec (unat ?p)"
    using h p by (simp add: InetAddress_toHostPort_def toHostPort_def inet_ntop_def Let_def snprintf_fits)
  show "length (InetAddress_toHostPort le a) \<le> 21"
    using h p by (simp add: eq)
qed

section \<open>Properties\<close>

text \<open>
  C40. An address text survives the address structure: for every dotted address \<open>ip\<close> (the text of
  four octets) and every port, printing the address built from them gives \<open>ip:port\<close>, in either byte
  order, within the 32 bytes of the buffer.
\<close>

theorem hostPort_roundtrip:
  assumes "length bs = 4" and "ip = dotted bs"
  shows "InetAddress_toHostPort le (InetAddress_ip le ip port) = ip @ '':'' @ dec (unat port) \<and>
    length (InetAddress_toHostPort le (InetAddress_ip le ip port)) < 32"
proof -
  have "InetAddress_ip le ip port =
      \<lparr>sin_family = AF_INET, sin_port = hostToNetwork16 le port, sin_addr = addr_of_bytes le bs\<rparr>"
    using assms by (simp add: InetAddress_ip_def fromHostPort_def inet_pton_dotted Let_def zero_addr_def)
  then show ?thesis
    using assms toHostPort_text(2) [of le "InetAddress_ip le ip port"] by (simp add: toHostPort_text(1))
qed

theorem hostPort_roundtrip_witness:
  "InetAddress_toHostPort True (InetAddress_ip True (dotted [127, 0, 0, 1]) 8888)
     = dotted [127, 0, 0, 1] @ '':'' @ dec (unat (8888 :: 16 word))"
  using hostPort_roundtrip [of "[127, 0, 0, 1]" "dotted [127, 0, 0, 1]" True 8888] by simp

text \<open>
  The text of an endpoint identifies it: equal texts mean the same address and port.
\<close>

theorem toHostPort_injective:
  assumes "InetAddress_toHostPort le a = InetAddress_toHostPort le b"
  shows "sin_addr a = sin_addr b \<and> sin_port a = sin_port b"
proof -
  from assms have "dotted (addr_bytes le (sin_addr a)) = dotted (addr_bytes le (sin_addr b)) \<and>
      dec (unat (networkToHost16 le (sin_port a))) = dec (unat (networkToHost16 le (sin_port b)))"
    unfolding toHostPort_text(1)
    by (intro split_at_sep [OF _ colon_not_dotted colon_not_dotted]) simp
  then have "addr_bytes le (sin_addr a) = addr_bytes le (sin_addr b)"
    and "unat (networkToHost16 le (sin_port a)) = unat (networkToHost16 le (sin_port b))"
    by (auto intro: dotted_inj dec_inj)
  then show ?thesis
    by (metis addr_bytes_inj networkToHost16_inj unsigned_word_eqI)
qed

theorem toHostPort_injective_witness:
  "InetAddress_toHostPort True (InetAddress_port True 80) \<noteq>
   InetAddress_toHostPort True (InetAddress_port True 81)"
proof
  assume "InetAddress_toHostPort True (InetAddress_port True 80) =
    InetAddress_toHostPort True (InetAddress_port True 81)"
  from toHostPort_injective [OF this] have "hostToNetwork16 True 80 = hostToNetwork16 True 81"
    by (simp add: InetAddress_port_def)
  then have "(80 :: 16 word) = 81" by (metis network_host16)
  then show False by simp
qed

text \<open>
  A text that is not an address is not reported: the constructor from such a text gives the
  wildcard address of the port, the one the server constructor gives.
\<close>

theorem bad_address_is_wildcard:
  assumes "inet_pton ip = None"
  shows "InetAddress_ip le ip port = InetAddress_port le port"
proof -
  have "of_bytes (rev (to_bytes 4 (0 :: 32 word))) = (0 :: 32 word)"
    by (simp add: to_bytes_def upt_rec)
  with assms show ?thesis
    by (simp add: InetAddress_ip_def InetAddress_port_def fromHostPort_def zero_addr_def
        hostToNetwork32_def kInaddrAny_def Let_def)
qed

theorem bad_address_is_wildcard_witness:
  "InetAddress_ip True ''localhost'' 80 = InetAddress_port True 80"
  by (rule bad_address_is_wildcard) (simp add: inet_pton_def)

end
