(* ===== verification/Channels.thy ===== *)
theory Channels
  imports Timestamps
begin

text \<open>
  Channel (src/net/Channel.h, Channel.cpp): one descriptor, the events asked for, the events that
  \<open>poll\<close> reported, the position in the poller, and four callbacks. The callbacks are values of a
  type \<open>'h\<close> of closures, an empty \<open>std::function\<close> is \<open>None\<close>.

  A callback can do anything, to this channel too. \<open>handleEvent\<close> therefore reads the channel again
  before each of its tests, through an accessor \<open>getc\<close> of the world \<open>'w\<close> in which the callbacks run;
  when the channel is gone, the access is \<open>Dangling\<close>.
\<close>

section \<open>Event bits\<close>

type_synonym event_bits = "32 word"

unbundle bit_operations_syntax

abbreviation "POLLIN \<equiv> (0x001 :: event_bits)"
abbreviation "POLLPRI \<equiv> (0x002 :: event_bits)"
abbreviation "POLLOUT \<equiv> (0x004 :: event_bits)"
abbreviation "POLLERR \<equiv> (0x008 :: event_bits)"
abbreviation "POLLHUP \<equiv> (0x010 :: event_bits)"
abbreviation "POLLNVAL \<equiv> (0x020 :: event_bits)"
abbreviation "POLLRDHUP \<equiv> (0x2000 :: event_bits)"

definition kNoneEvent :: event_bits where "kNoneEvent = 0"
definition kReadEvent :: event_bits where "kReadEvent = POLLIN OR POLLPRI"
definition kWriteEvent :: event_bits where "kWriteEvent = POLLOUT"

definition has_bits :: "event_bits \<Rightarrow> event_bits \<Rightarrow> bool" where
  "has_bits x m \<longleftrightarrow> x AND m \<noteq> 0"

section \<open>The channel\<close>

record 'h channel =
  chan_fd :: int
  events :: event_bits
  revents :: event_bits
  index :: int
  eventHandling :: bool
  readCallback :: "'h option"
  writeCallback :: "'h option"
  errorCallback :: "'h option"
  closeCallback :: "'h option"

definition Channel_new :: "int \<Rightarrow> 'h channel" where
  "Channel_new fd = \<lparr>chan_fd = fd, events = 0, revents = 0, index = -1, eventHandling = False,
     readCallback = None, writeCallback = None, errorCallback = None, closeCallback = None\<rparr>"

definition Channel_dtor :: "'h channel \<Rightarrow> unit result" where
  "Channel_dtor c = assertC (\<not> eventHandling c) (Inr ())"

definition setReadCallback :: "'h \<Rightarrow> 'h channel \<Rightarrow> 'h channel" where
  "setReadCallback cb c = c\<lparr>readCallback := Some cb\<rparr>"

definition setWriteCallback :: "'h \<Rightarrow> 'h channel \<Rightarrow> 'h channel" where
  "setWriteCallback cb c = c\<lparr>writeCallback := Some cb\<rparr>"

definition setErrorCallback :: "'h \<Rightarrow> 'h channel \<Rightarrow> 'h channel" where
  "setErrorCallback cb c = c\<lparr>errorCallback := Some cb\<rparr>"

definition setCloseCallback :: "'h \<Rightarrow> 'h channel \<Rightarrow> 'h channel" where
  "setCloseCallback cb c = c\<lparr>closeCallback := Some cb\<rparr>"

definition set_revents :: "event_bits \<Rightarrow> 'h channel \<Rightarrow> 'h channel" where
  "set_revents revt c = c\<lparr>revents := revt\<rparr>"

definition isNoneEvent :: "'h channel \<Rightarrow> bool" where
  "isNoneEvent c \<longleftrightarrow> events c = kNoneEvent"

definition isWriting :: "'h channel \<Rightarrow> bool" where
  "isWriting c \<longleftrightarrow> has_bits (events c) kWriteEvent"

definition setIndex :: "int \<Rightarrow> 'h channel \<Rightarrow> 'h channel" where
  "setIndex idx c = c\<lparr>index := idx\<rparr>"

section \<open>Dispatching an event\<close>

datatype event_call = CloseCall | ErrorCall | ReadCall timestamp | WriteCall

definition with_chan :: "('w \<Rightarrow> 'h channel option) \<Rightarrow> ('h channel \<Rightarrow> 'w \<Rightarrow> 'b result) \<Rightarrow> 'w \<Rightarrow> 'b result" where
  "with_chan getc f w = (case getc w of None \<Rightarrow> Inl Dangling | Some c \<Rightarrow> f c w)"

text \<open>One \<open>if\<close> of \<open>handleEvent\<close>: a test of the reported events, and the callback if it is set.\<close>

definition call_if ::
  "('w \<Rightarrow> 'h channel option) \<Rightarrow> (event_bits \<Rightarrow> bool) \<Rightarrow> ('h channel \<Rightarrow> 'h option) \<Rightarrow> event_call \<Rightarrow>
   ('h \<Rightarrow> event_call \<Rightarrow> 'w \<Rightarrow> 'w result) \<Rightarrow> 'w \<Rightarrow> 'w result" where
  "call_if getc test sel call run =
     with_chan getc (\<lambda>c w. if test (revents c)
                           then (case sel c of None \<Rightarrow> Inr w | Some h \<Rightarrow> run h call w) else Inr w)"

definition close_test :: "event_bits \<Rightarrow> bool" where
  "close_test r \<longleftrightarrow> has_bits r POLLHUP \<and> \<not> has_bits r POLLIN"

definition error_test :: "event_bits \<Rightarrow> bool" where
  "error_test r \<longleftrightarrow> has_bits r (POLLERR OR POLLNVAL)"

definition read_test :: "event_bits \<Rightarrow> bool" where
  "read_test r \<longleftrightarrow> has_bits r (POLLIN OR POLLPRI OR POLLRDHUP)"

definition write_test :: "event_bits \<Rightarrow> bool" where
  "write_test r \<longleftrightarrow> has_bits r POLLOUT"

definition handleEvent ::
  "('w \<Rightarrow> 'h channel option) \<Rightarrow> ('h channel \<Rightarrow> 'w \<Rightarrow> 'w) \<Rightarrow> ('h \<Rightarrow> event_call \<Rightarrow> 'w \<Rightarrow> 'w result) \<Rightarrow>
   timestamp \<Rightarrow> 'w \<Rightarrow> 'w result" where
  "handleEvent getc putc run receiveTime w =
     rbind (with_chan getc (\<lambda>c w. Inr (putc (c\<lparr>eventHandling := True\<rparr>) w)) w) (\<lambda>w.
     rbind (call_if getc close_test closeCallback CloseCall run w) (\<lambda>w.
     rbind (call_if getc error_test errorCallback ErrorCall run w) (\<lambda>w.
     rbind (call_if getc read_test readCallback (ReadCall receiveTime) run w) (\<lambda>w.
     rbind (call_if getc write_test writeCallback WriteCall run w) (\<lambda>w.
     with_chan getc (\<lambda>c w. Inr (putc (c\<lparr>eventHandling := False\<rparr>) w)) w)))))"

section \<open>Which callbacks run\<close>

text \<open>
  The calls that the reported events ask for, in order, written down from the bits that poll(2)
  documents and not from the tests of the code: bit 0 is POLLIN, 1 POLLPRI, 2 POLLOUT, 3 POLLERR, 4
  POLLHUP, 5 POLLNVAL and 13 POLLRDHUP.
\<close>

definition asked :: "bool \<Rightarrow> 'h option \<Rightarrow> event_call \<Rightarrow> ('h \<times> event_call) list" where
  "asked b cb call = (if b then map (\<lambda>h. (h, call)) (case cb of None \<Rightarrow> [] | Some h \<Rightarrow> [h]) else [])"

definition requested :: "timestamp \<Rightarrow> 'h channel \<Rightarrow> ('h \<times> event_call) list" where
  "requested t c =
     asked (bit (revents c) 4 \<and> \<not> bit (revents c) 0) (closeCallback c) CloseCall @
     asked (bit (revents c) 3 \<or> bit (revents c) 5) (errorCallback c) ErrorCall @
     asked (bit (revents c) 0 \<or> bit (revents c) 1 \<or> bit (revents c) 13) (readCallback c) (ReadCall t) @
     asked (bit (revents c) 2) (writeCallback c) WriteCall"

text \<open>
  What a dispatch relies on: the callbacks leave the reported events and the callbacks of the
  channel as they are, and keep the channel.
\<close>

definition same_dispatch :: "'h channel \<Rightarrow> 'h channel \<Rightarrow> bool" where
  "same_dispatch c d \<longleftrightarrow> revents c = revents d \<and> readCallback c = readCallback d \<and>
     writeCallback c = writeCallback d \<and> errorCallback c = errorCallback d \<and>
     closeCallback c = closeCallback d"

lemma same_dispatch_refl [simp]: "same_dispatch c c"
  by (simp add: same_dispatch_def)

lemma same_dispatch_trans: "same_dispatch a b \<Longrightarrow> same_dispatch b c \<Longrightarrow> same_dispatch a c"
  by (simp add: same_dispatch_def)

lemma kReadEvent_bits [simp]: "kReadEvent = 3"
  by (simp add: kReadEvent_def)

lemma kWriteEvent_bits [simp]: "kWriteEvent = 4"
  by (simp add: kWriteEvent_def)

lemma has_bits_or: "has_bits x (m OR n) \<longleftrightarrow> has_bits x m \<or> has_bits x n"
  by (simp add: has_bits_def bit.conj_disj_distrib or_eq_0_iff)

lemma has_bits_0 [simp]: "\<not> has_bits 0 m"
  by (simp add: has_bits_def)

lemma has_bits_bit: "has_bits x (push_bit n 1) \<longleftrightarrow> bit x n"
  by (simp add: has_bits_def bit_iff_and_push_bit_not_eq_0)

lemma has_bits_single:
  "has_bits x 1 \<longleftrightarrow> bit x 0" "has_bits x 2 \<longleftrightarrow> bit x 1" "has_bits x 4 \<longleftrightarrow> bit x 2" "has_bits x 8 \<longleftrightarrow> bit x 3"
  "has_bits x 16 \<longleftrightarrow> bit x 4" "has_bits x 32 \<longleftrightarrow> bit x 5" "has_bits x 0x2000 \<longleftrightarrow> bit x 13"
  using has_bits_bit [of x 0] has_bits_bit [of x 1] has_bits_bit [of x 2] has_bits_bit [of x 3] has_bits_bit [of x 4]
    has_bits_bit [of x 5] has_bits_bit [of x 13] by simp_all

text \<open>The tests of the code, on the bits.\<close>

lemma close_test_bits: "close_test r \<longleftrightarrow> bit r 4 \<and> \<not> bit r 0"
  by (simp add: close_test_def has_bits_single)

lemma error_test_bits: "error_test r \<longleftrightarrow> bit r 3 \<or> bit r 5"
  unfolding error_test_def has_bits_or by (simp add: has_bits_single)

lemma read_test_bits: "read_test r \<longleftrightarrow> bit r 0 \<or> bit r 1 \<or> bit r 13"
  unfolding read_test_def has_bits_or by (auto simp: has_bits_single)

lemma write_test_bits: "write_test r \<longleftrightarrow> bit r 2"
  by (simp add: write_test_def has_bits_single)

lemmas test_bits = close_test_bits error_test_bits read_test_bits write_test_bits

definition call_list :: "(event_bits \<Rightarrow> bool) \<Rightarrow> ('h channel \<Rightarrow> 'h option) \<Rightarrow> event_call \<Rightarrow> 'h channel \<Rightarrow> ('h \<times> event_call) list" where
  "call_list test sel call c = asked (test (revents c)) (sel c) call"

lemma requested_lists: "requested t c = call_list close_test closeCallback CloseCall c @
    call_list error_test errorCallback ErrorCall c @ call_list read_test readCallback (ReadCall t) c @
    call_list write_test writeCallback WriteCall c"
  by (simp add: requested_def call_list_def test_bits)

text \<open>The callbacks of a world \<open>getc\<close>, \<open>run\<close> leave the dispatch of the channel alone.\<close>

definition stable_callbacks ::
  "('w \<Rightarrow> 'h channel option) \<Rightarrow> ('h \<Rightarrow> event_call \<Rightarrow> 'w \<Rightarrow> 'w result) \<Rightarrow> bool" where
  "stable_callbacks getc run \<longleftrightarrow> (\<forall>h call w w' c. run h call w = Inr w' \<longrightarrow> getc w = Some c \<longrightarrow>
     (\<exists>c'. getc w' = Some c' \<and> same_dispatch c c'))"

definition calls_stable :: "('w \<Rightarrow> 'h channel option) \<Rightarrow> 'h channel \<Rightarrow> 'w \<Rightarrow> bool" where
  "calls_stable getc c w \<longleftrightarrow> (\<exists>d. getc w = Some d \<and> same_dispatch c d)"

lemma run_stable:
  assumes "stable_callbacks getc run" and "calls_stable getc c w" and "run h call w = Inr w'"
  shows "calls_stable getc c w'"
  using assms unfolding stable_callbacks_def calls_stable_def by (meson same_dispatch_trans)

lemma call_if_rfold:
  assumes "calls_stable getc c w"
    and "\<And>d. same_dispatch c d \<Longrightarrow> sel d = sel c"
  shows "call_if getc test sel call run w = rfold (\<lambda>(h, call). run h call) (call_list test sel call c) w"
proof -
  from assms(1) obtain d where d: "getc w = Some d" "same_dispatch c d"
    by (auto simp: calls_stable_def)
  from d(2) have "revents d = revents c" by (simp add: same_dispatch_def)
  with d assms(2) [OF d(2)] show ?thesis
    by (auto simp: call_if_def with_chan_def call_list_def asked_def rbind_def split: option.splits sum.splits)
qed

lemma rfold_stable:
  assumes "stable_callbacks getc run" and "calls_stable getc c w"
    and "rfold (\<lambda>(h, call). run h call) xs w = Inr w'"
  shows "calls_stable getc c w'"
proof (rule rfold_inv [of xs "calls_stable getc c", OF _ assms(2,3)])
  fix x v v' assume "calls_stable getc c v" and "(case x of (h, call) \<Rightarrow> run h call) v = Inr v'"
  then show "calls_stable getc c v'" by (cases x) (auto intro: run_stable [OF assms(1)])
qed

lemma rbind_stable:
  assumes "\<And>v. m = Inr v \<Longrightarrow> f v = g v"
  shows "rbind m f = rbind m g"
  using assms by (cases m) auto

lemma call_segments:
  assumes st: "stable_callbacks getc run" and w: "calls_stable getc c w"
  shows "rbind (call_if getc close_test closeCallback CloseCall run w) (\<lambda>w.
     rbind (call_if getc error_test errorCallback ErrorCall run w) (\<lambda>w.
     rbind (call_if getc read_test readCallback (ReadCall t) run w) (\<lambda>w.
     call_if getc write_test writeCallback WriteCall run w)))
   = rfold (\<lambda>(h, call). run h call) (requested t c) w"
proof -
  let ?run = "rfold (\<lambda>(h, call). run h call)"
  have seg:
    "\<And>w. calls_stable getc c w \<Longrightarrow> call_if getc close_test closeCallback CloseCall run w = ?run (call_list close_test closeCallback CloseCall c) w"
    "\<And>w. calls_stable getc c w \<Longrightarrow> call_if getc error_test errorCallback ErrorCall run w = ?run (call_list error_test errorCallback ErrorCall c) w"
    "\<And>w. calls_stable getc c w \<Longrightarrow> call_if getc read_test readCallback (ReadCall t) run w = ?run (call_list read_test readCallback (ReadCall t) c) w"
    "\<And>w. calls_stable getc c w \<Longrightarrow> call_if getc write_test writeCallback WriteCall run w = ?run (call_list write_test writeCallback WriteCall c) w"
    by (rule call_if_rfold; simp add: same_dispatch_def)+
  note keep = rfold_stable [OF st]
  show ?thesis
    unfolding requested_lists rfold_append
    by (subst seg(1) [OF w], rule rbind_stable, frule keep [OF w],
        subst seg(2), assumption, rule rbind_stable, frule (1) keep,
        subst seg(3), assumption, rule rbind_stable, frule (1) keep,
        subst seg(4), assumption, rule refl)
qed

lemma rbind_assoc: "rbind (rbind m f) g = rbind m (\<lambda>x. rbind (f x) g)"
  by (cases m) auto

section \<open>Properties\<close>

text \<open>
  C17. Dispatch: as long as the callbacks keep the channel and its reported events, \<open>handleEvent\<close>
  runs exactly the callbacks that the reported bits ask for and that are set, in this order, between
  setting and clearing the \<open>eventHandling_\<close> flag: close for POLLHUP without POLLIN, error for POLLERR
  or POLLNVAL, read for POLLIN, POLLPRI or POLLRDHUP, write for POLLOUT. So a hang-up with unread input
  goes to the read callback alone.
\<close>

theorem handleEvent_dispatches:
  assumes "stable_callbacks getc run" and "\<And>v d. getc v \<noteq> None \<Longrightarrow> getc (putc d v) = Some d"
    and "getc w = Some c"
  shows "handleEvent getc putc run t w =
      rbind (rfold (\<lambda>(h, call). run h call) (requested t c) (putc (c\<lparr>eventHandling := True\<rparr>) w))
        (with_chan getc (\<lambda>d w. Inr (putc (d\<lparr>eventHandling := False\<rparr>) w))) \<and>
    (\<forall>(h, call) \<in> set (requested t c). call = CloseCall \<longrightarrow> \<not> has_bits (revents c) POLLIN)"
proof
  let ?w = "putc (c\<lparr>eventHandling := True\<rparr>) w"
  have "getc ?w = Some (c\<lparr>eventHandling := True\<rparr>)" using assms(2,3) by simp
  then have "calls_stable getc c ?w" by (simp add: calls_stable_def same_dispatch_def)
  from call_segments [OF assms(1) this, of t] assms(3)
  show "handleEvent getc putc run t w =
      rbind (rfold (\<lambda>(h, call). run h call) (requested t c) ?w)
        (with_chan getc (\<lambda>d w. Inr (putc (d\<lparr>eventHandling := False\<rparr>) w)))"
    by (simp add: handleEvent_def with_chan_def [of getc "\<lambda>c w. Inr (putc (c\<lparr>eventHandling := True\<rparr>) w)"]
        rbind_assoc [symmetric])
next
  show "\<forall>(h, call) \<in> set (requested t c). call = CloseCall \<longrightarrow> \<not> has_bits (revents c) POLLIN"
    by (auto simp: requested_def asked_def has_bits_single split: option.splits)
qed

theorem handleEvent_dispatches_witness:
  "handleEvent (\<lambda>w. Some (fst w)) (\<lambda>d w. (d, snd w)) (\<lambda>h call w. Inr (fst w, snd w @ [(h, call)])) (Timestamp 7)
     ((Channel_new 4)\<lparr>revents := POLLIN OR POLLHUP OR POLLOUT, readCallback := Some ''r'',
        writeCallback := Some ''w'', closeCallback := Some ''c''\<rparr>, [])
   = Inr ((Channel_new 4)\<lparr>revents := POLLIN OR POLLHUP OR POLLOUT, readCallback := Some ''r'',
        writeCallback := Some ''w'', closeCallback := Some ''c''\<rparr>, [(''r'', ReadCall (Timestamp 7)), (''w'', WriteCall)])"
proof -
  let ?c = "(Channel_new 4)\<lparr>revents := POLLIN OR POLLHUP OR POLLOUT, readCallback := Some ''r'',
        writeCallback := Some ''w'', closeCallback := Some ''c''\<rparr>"
  have "stable_callbacks (\<lambda>w. Some (fst w)) (\<lambda>h call w. Inr (fst w, snd w @ [(h, call)]))"
    by (auto simp: stable_callbacks_def)
  from handleEvent_dispatches [OF this, of "\<lambda>d w. (d, snd w)" "(?c, [])" ?c "Timestamp 7"]
  show ?thesis
    by (simp add: requested_def asked_def with_chan_def Channel_new_def bit_or_iff bit_numeral_rec)
qed

end
