(* ===== verification/Pollers.thy ===== *)
theory Pollers
  imports Channels Interfaces "HOL-Library.Multiset"
begin

text \<open>
  Poller (src/net/Poller.h, Poller.cpp) and the operations of a Channel that reach it: the array of
  \<open>pollfd\<close> entries handed to \<open>poll\<close>, the map from descriptors to channels, and the channel objects
  themselves, which the poller reads and writes through pointers. The objects are in a store
  \<open>chans\<close> from pointers to channels; a pointer to no object is \<open>Dangling\<close>.

  The functions take the number of the calling thread, since each of them begins with
  \<open>assertInLoopThread\<close>. What the kernel reports for a \<open>poll\<close> is an argument; \<open>poll_doc\<close> is what
  poll(2) documents about it.
\<close>

section \<open>State\<close>

type_synonym chref = nat

record pollfd =
  pfd_fd :: int
  pfd_events :: "16 word"
  pfd_revents :: "16 word"

record 'h reactor =
  loop_tid :: tid
  pollfds :: "pollfd list"
  channel_map :: "int \<Rightarrow> chref option"
  chans :: "chref \<Rightarrow> 'h channel option"

definition Poller_new :: "tid \<Rightarrow> 'h reactor" where
  "Poller_new t = \<lparr>loop_tid = t, pollfds = [], channel_map = Map.empty, chans = Map.empty\<rparr>"

definition assertInLoopThread :: "tid \<Rightarrow> 'h reactor \<Rightarrow> 'b result \<Rightarrow> 'b result" where
  "assertInLoopThread self r k = (if self = loop_tid r then k else Inl Aborted)"

definition deref :: "chref \<Rightarrow> ('h channel \<Rightarrow> 'b result) \<Rightarrow> 'h reactor \<Rightarrow> 'b result" where
  "deref ref f r = (case chans r ref of None \<Rightarrow> Inl Dangling | Some c \<Rightarrow> f c)"

definition put_chan :: "chref \<Rightarrow> 'h channel \<Rightarrow> 'h reactor \<Rightarrow> 'h reactor" where
  "put_chan ref c r = r\<lparr>chans := (chans r)(ref \<mapsto> c)\<rparr>"

definition new_chan :: "chref \<Rightarrow> 'h channel \<Rightarrow> 'h reactor \<Rightarrow> 'h reactor" where
  "new_chan ref c r = put_chan ref c r"

definition delete_chan :: "chref \<Rightarrow> 'h reactor \<Rightarrow> 'h reactor result" where
  "delete_chan ref r = deref ref (\<lambda>c. rbind (Channel_dtor c) (\<lambda>_. Inr (r\<lparr>chans := (chans r)(ref := None)\<rparr>))) r"

section \<open>Polling\<close>

datatype poll_outcome = PollFailed | PollReady "16 word list"

definition short_pos :: "16 word \<Rightarrow> bool" where
  "short_pos w \<longleftrightarrow> 0 < sint w"

text \<open>The loop body of \<open>fillActiveChannels\<close>: the state is the reactor, the count and the result list.\<close>

definition fill_one :: "pollfd \<Rightarrow> 'h reactor \<times> int \<times> chref list \<Rightarrow> ('h reactor \<times> int \<times> chref list) result" where
  "fill_one pfd st = (case st of (r, numEvents, active) \<Rightarrow>
     if short_pos (pfd_revents pfd)
     then (let numEvents = numEvents - 1 in
       case channel_map r (pfd_fd pfd) of
         None \<Rightarrow> Inl AssertFail
       | Some ref \<Rightarrow> deref ref (\<lambda>c.
           assertC (chan_fd c = pfd_fd pfd)
             (Inr (put_chan ref (set_revents (scast (pfd_revents pfd)) c) r, numEvents, active @ [ref]))) r)
     else Inr st)"

definition fillActiveChannels ::
  "int \<Rightarrow> chref list \<Rightarrow> 'h reactor \<Rightarrow> ('h reactor \<times> chref list) result" where
  "fillActiveChannels numEvents active r =
     rbind (rfold fill_one (pollfds r) (r, numEvents, active)) (\<lambda>(r, _, active). Inr (r, active))"

definition set_kernel_revents :: "16 word list \<Rightarrow> 'h reactor \<Rightarrow> 'h reactor" where
  "set_kernel_revents revs r =
     r\<lparr>pollfds := map2 (\<lambda>p v. p\<lparr>pfd_revents := v\<rparr>) (pollfds r) revs\<rparr>"

definition poll_count :: "16 word list \<Rightarrow> int" where
  "poll_count revs = int (length (filter (\<lambda>v. v \<noteq> 0) revs))"

definition Poller_poll ::
  "poll_outcome \<Rightarrow> chref list \<Rightarrow> 'h reactor \<Rightarrow> ('h reactor \<times> chref list) result" where
  "Poller_poll outcome active r =
     (case outcome of
        PollFailed \<Rightarrow> Inr (r, active)
      | PollReady revs \<Rightarrow>
          let r1 = set_kernel_revents revs r; numEvents = poll_count revs in
          if 0 < numEvents then fillActiveChannels numEvents active r1 else Inr (r1, active))"

section \<open>Changing and removing channels\<close>

definition updateChannel :: "tid \<Rightarrow> chref \<Rightarrow> 'h reactor \<Rightarrow> 'h reactor result" where
  "updateChannel self ref r = assertInLoopThread self r (deref ref (\<lambda>c.
     if index c < 0
     then assertC (channel_map r (chan_fd c) = None)
       (let pfd = \<lparr>pfd_fd = chan_fd c, pfd_events = ucast (events c), pfd_revents = 0\<rparr>;
            r1 = r\<lparr>pollfds := pollfds r @ [pfd]\<rparr>;
            idx = int (length (pollfds r1)) - 1;
            r2 = put_chan ref (setIndex idx c) r1
        in Inr (r2\<lparr>channel_map := (channel_map r2)(pfd_fd pfd \<mapsto> ref)\<rparr>))
     else assertC (channel_map r (chan_fd c) \<noteq> None)
       (assertC (channel_map r (chan_fd c) = Some ref)
       (let idx = index c in
        assertC (0 \<le> idx \<and> idx < int (length (pollfds r)))
       (let pfd = pollfds r ! nat idx in
        assertC (pfd_fd pfd = chan_fd c \<or> pfd_fd pfd = - chan_fd c - 1)
       (let pfd1 = pfd\<lparr>pfd_events := ucast (events c), pfd_revents := 0\<rparr>;
            pfd2 = (if isNoneEvent c then pfd1\<lparr>pfd_fd := - chan_fd c - 1\<rparr> else pfd1)
        in Inr (r\<lparr>pollfds := (pollfds r)[nat idx := pfd2]\<rparr>)))))) r)"

definition removeChannel :: "tid \<Rightarrow> chref \<Rightarrow> 'h reactor \<Rightarrow> 'h reactor result" where
  "removeChannel self ref r = assertInLoopThread self r (deref ref (\<lambda>c.
     assertC (channel_map r (chan_fd c) \<noteq> None)
    (assertC (channel_map r (chan_fd c) = Some ref)
    (assertC (isNoneEvent c)
    (let idx = index c in
     assertC (0 \<le> idx \<and> idx < int (length (pollfds r)))
    (let pfd = pollfds r ! nat idx in
     assertC (pfd_fd pfd = - chan_fd c - 1 \<and> pfd_events pfd = ucast (events c))
    (let r1 = r\<lparr>channel_map := (channel_map r)(chan_fd c := None)\<rparr> in
     if nat idx = length (pollfds r1) - 1
     then Inr (r1\<lparr>pollfds := butlast (pollfds r1)\<rparr>)
     else (let lst = last (pollfds r1);
               channelAtEnd = (if pfd_fd lst < 0 then - pfd_fd lst - 1 else pfd_fd lst);
               r2 = r1\<lparr>pollfds := (pollfds r1)[nat idx := lst, length (pollfds r1) - 1 := pfd]\<rparr>
           in case channel_map r2 channelAtEnd of
                None \<Rightarrow> Inl NullDeref
              | Some ref' \<Rightarrow> deref ref' (\<lambda>c'.
                  let r3 = put_chan ref' (setIndex idx c') r2
                  in Inr (r3\<lparr>pollfds := butlast (pollfds r3)\<rparr>)) r2))))))) r)"

text \<open>The four operations of a Channel that change its events and report to the poller.\<close>

definition change_events ::
  "(event_bits \<Rightarrow> event_bits) \<Rightarrow> tid \<Rightarrow> chref \<Rightarrow> 'h reactor \<Rightarrow> 'h reactor result" where
  "change_events f self ref r =
     deref ref (\<lambda>c. updateChannel self ref (put_chan ref (c\<lparr>events := f (events c)\<rparr>) r)) r"

definition enableReading :: "tid \<Rightarrow> chref \<Rightarrow> 'h reactor \<Rightarrow> 'h reactor result" where
  "enableReading = change_events (\<lambda>e. e OR kReadEvent)"

definition enableWriting :: "tid \<Rightarrow> chref \<Rightarrow> 'h reactor \<Rightarrow> 'h reactor result" where
  "enableWriting = change_events (\<lambda>e. e OR kWriteEvent)"

definition disableWriting :: "tid \<Rightarrow> chref \<Rightarrow> 'h reactor \<Rightarrow> 'h reactor result" where
  "disableWriting = change_events (\<lambda>e. e AND NOT kWriteEvent)"

definition disableAll :: "tid \<Rightarrow> chref \<Rightarrow> 'h reactor \<Rightarrow> 'h reactor result" where
  "disableAll = change_events (\<lambda>_. kNoneEvent)"

section \<open>Invariant\<close>

text \<open>The descriptor an entry stands for: an ignored entry has \<open>-fd - 1\<close>.\<close>

definition pfd_key :: "pollfd \<Rightarrow> int" where
  "pfd_key p = (if pfd_fd p < 0 then - pfd_fd p - 1 else pfd_fd p)"

text \<open>
  The entry at position \<open>i\<close> and its channel point at each other, and the entry asks for the events
  of the channel.
\<close>

definition slot_ok :: "'h reactor \<Rightarrow> nat \<Rightarrow> bool" where
  "slot_ok r i \<longleftrightarrow> (\<exists>ref c. channel_map r (pfd_key (pollfds r ! i)) = Some ref \<and> chans r ref = Some c \<and>
     chan_fd c = pfd_key (pollfds r ! i) \<and> index c = int i \<and>
     pfd_events (pollfds r ! i) = ucast (events c))"

definition reactor_inv :: "'h reactor \<Rightarrow> bool" where
  "reactor_inv r \<longleftrightarrow> (\<forall>i < length (pollfds r). slot_ok r i) \<and>
     (\<forall>fd ref. channel_map r fd = Some ref \<longrightarrow> (\<exists>i < length (pollfds r). pfd_key (pollfds r ! i) = fd)) \<and>
     (\<forall>ref c. chans r ref = Some c \<longrightarrow> 0 \<le> chan_fd c)"

text \<open>What poll(2) documents: one answer per entry, none for an entry with a negative descriptor,
  and only events asked for or the three that are always reported.\<close>

definition poll_doc :: "pollfd list \<Rightarrow> 16 word list \<Rightarrow> bool" where
  "poll_doc ps revs \<longleftrightarrow> length revs = length ps \<and>
     (\<forall>i < length ps. (pfd_fd (ps ! i) < 0 \<longrightarrow> revs ! i = 0) \<and>
        revs ! i AND NOT (pfd_events (ps ! i) OR 0x38) = 0)"

named_theorems reactor_simps

lemmas reactor_defs = assertInLoopThread_def deref_def put_chan_def setIndex_def

lemma pfd_key_ignored [reactor_simps]: "0 \<le> fd \<Longrightarrow> pfd_fd p = - fd - 1 \<Longrightarrow> pfd_key p = fd"
  by (simp add: pfd_key_def)

lemma pfd_key_active [reactor_simps]: "0 \<le> fd \<Longrightarrow> pfd_fd p = fd \<Longrightarrow> pfd_key p = fd"
  by (simp add: pfd_key_def)

lemma pfd_key_nonneg [simp]: "0 \<le> pfd_key p"
  by (simp add: pfd_key_def)

lemma pfd_key_update [simp]:
  "pfd_key (p\<lparr>pfd_events := e\<rparr>) = pfd_key p" "pfd_key (p\<lparr>pfd_revents := v\<rparr>) = pfd_key p"
  by (simp_all add: pfd_key_def)

lemma inv_slot:
  assumes "reactor_inv r" and "i < length (pollfds r)"
  obtains ref c where "channel_map r (pfd_key (pollfds r ! i)) = Some ref" "chans r ref = Some c"
    "chan_fd c = pfd_key (pollfds r ! i)" "index c = int i" "pfd_events (pollfds r ! i) = ucast (events c)"
  using assms unfolding reactor_inv_def slot_ok_def by blast

lemma inv_key_unique:
  assumes "reactor_inv r" and "i < length (pollfds r)" and "j < length (pollfds r)"
    and "pfd_key (pollfds r ! i) = pfd_key (pollfds r ! j)"
  shows "i = j"
  using inv_slot [OF assms(1,2)] inv_slot [OF assms(1,3)] assms(4)
  by (metis of_nat_eq_iff option.inject)

lemma inv_mapped:
  assumes "reactor_inv r" and "channel_map r fd = Some ref"
  obtains i c where "i < length (pollfds r)" "pfd_key (pollfds r ! i) = fd" "chans r ref = Some c"
    "chan_fd c = fd" "index c = int i" "pfd_events (pollfds r ! i) = ucast (events c)" "0 \<le> fd"
proof -
  from assms obtain i where i: "i < length (pollfds r)" "pfd_key (pollfds r ! i) = fd"
    unfolding reactor_inv_def by blast
  from inv_slot [OF assms(1) i(1)] i(2) assms(2) show thesis
    using that [OF i] by (metis option.inject pfd_key_nonneg)
qed

lemma inv_fd: "reactor_inv r \<Longrightarrow> chans r ref = Some c \<Longrightarrow> 0 \<le> chan_fd c"
  unfolding reactor_inv_def by blast

lemma reactor_invI:
  assumes "\<And>i. i < length (pollfds r) \<Longrightarrow> slot_ok r i"
    and "\<And>fd ref. channel_map r fd = Some ref \<Longrightarrow> \<exists>i < length (pollfds r). pfd_key (pollfds r ! i) = fd"
    and "\<And>ref c. chans r ref = Some c \<Longrightarrow> 0 \<le> chan_fd c"
  shows "reactor_inv r"
  using assms unfolding reactor_inv_def by blast

lemma slot_okI:
  assumes "channel_map r (pfd_key (pollfds r ! i)) = Some ref" "chans r ref = Some c"
    "chan_fd c = pfd_key (pollfds r ! i)" "index c = int i" "pfd_events (pollfds r ! i) = ucast (events c)"
  shows "slot_ok r i"
  using assms unfolding slot_ok_def by blast

lemma Poller_new_inv: "reactor_inv (Poller_new t)"
  by (rule reactor_invI) (simp_all add: Poller_new_def)

lemma new_chan_inv:
  assumes "reactor_inv r" and "chans r ref = None" and "0 \<le> chan_fd c"
  shows "reactor_inv (new_chan ref c r)"
proof (rule reactor_invI)
  fix i assume "i < length (pollfds (new_chan ref c r))"
  then have "i < length (pollfds r)" by (simp add: new_chan_def put_chan_def)
  from inv_slot [OF assms(1) this] assms(2) obtain ref' c' where
    s: "channel_map r (pfd_key (pollfds r ! i)) = Some ref'" "chans r ref' = Some c'"
      "chan_fd c' = pfd_key (pollfds r ! i)" "index c' = int i"
      "pfd_events (pollfds r ! i) = ucast (events c')" by blast
  with assms(2) have "ref' \<noteq> ref" by auto
  with s show "slot_ok (new_chan ref c r) i"
    by (intro slot_okI [of _ _ ref' c']) (auto simp: new_chan_def put_chan_def)
next
  fix fd ref' assume "channel_map (new_chan ref c r) fd = Some ref'"
  then have "channel_map r fd = Some ref'" by (simp add: new_chan_def put_chan_def)
  from inv_mapped [OF assms(1) this]
  show "\<exists>i < length (pollfds (new_chan ref c r)). pfd_key (pollfds (new_chan ref c r) ! i) = fd"
    by (auto simp: new_chan_def put_chan_def)
next
  fix ref' c' assume "chans (new_chan ref c r) ref' = Some c'"
  then show "0 \<le> chan_fd c'"
    using assms inv_fd [OF assms(1)] by (auto simp: new_chan_def put_chan_def split: if_splits)
qed

subsection \<open>Adding and updating\<close>

text \<open>What an update of a channel whose events have become those of \<open>c\<close> does.\<close>

definition added :: "chref \<Rightarrow> 'h channel \<Rightarrow> 'h reactor \<Rightarrow> 'h reactor" where
  "added ref c r = r\<lparr>pollfds := pollfds r @ [\<lparr>pfd_fd = chan_fd c, pfd_events = ucast (events c), pfd_revents = 0\<rparr>],
     channel_map := (channel_map r)(chan_fd c \<mapsto> ref),
     chans := (chans r)(ref \<mapsto> c\<lparr>index := int (length (pollfds r))\<rparr>)\<rparr>"

definition entry_of :: "'h channel \<Rightarrow> pollfd \<Rightarrow> pollfd" where
  "entry_of c p = (let p1 = p\<lparr>pfd_events := ucast (events c), pfd_revents := 0\<rparr> in
     if isNoneEvent c then p1\<lparr>pfd_fd := - chan_fd c - 1\<rparr> else p1)"

definition updated :: "chref \<Rightarrow> 'h channel \<Rightarrow> 'h reactor \<Rightarrow> 'h reactor" where
  "updated ref c r = r\<lparr>chans := (chans r)(ref \<mapsto> c),
     pollfds := (pollfds r)[nat (index c) := entry_of c (pollfds r ! nat (index c))]\<rparr>"

lemma change_events_new:
  assumes "chans r ref = Some c" and "index c < 0" and "self = loop_tid r"
  shows "change_events f self ref r =
    (if channel_map r (chan_fd c) = None then Inr (added ref (c\<lparr>events := f (events c)\<rparr>) r) else Inl AssertFail)"
  using assms by (simp add: change_events_def updateChannel_def reactor_defs added_def Let_def)

lemma change_events_known:
  assumes inv: "reactor_inv r" and c: "chans r ref = Some c" "channel_map r (chan_fd c) = Some ref"
    and self: "self = loop_tid r"
  shows "change_events f self ref r = Inr (updated ref (c\<lparr>events := f (events c)\<rparr>) r)"
proof -
  from inv_mapped [OF inv c(2)] c(1) obtain i where
    i: "i < length (pollfds r)" "pfd_key (pollfds r ! i) = chan_fd c" "index c = int i"
    by (metis option.inject)
  from i(2) have "pfd_fd (pollfds r ! i) = chan_fd c \<or> pfd_fd (pollfds r ! i) = - chan_fd c - 1"
    by (auto simp: pfd_key_def split: if_splits)
  with i c self show ?thesis
    by (auto simp: change_events_def updateChannel_def reactor_defs updated_def entry_of_def Let_def
        isNoneEvent_def)
qed

lemma change_events_Inr:
  assumes "reactor_inv r" and "change_events f self ref r = Inr r'"
  obtains c where "chans r ref = Some c" "self = loop_tid r" "index c < 0" "channel_map r (chan_fd c) = None"
      "r' = added ref (c\<lparr>events := f (events c)\<rparr>) r"
  | c where "chans r ref = Some c" "self = loop_tid r" "channel_map r (chan_fd c) = Some ref"
      "r' = updated ref (c\<lparr>events := f (events c)\<rparr>) r"
proof -
  from assms(2) obtain c where c: "chans r ref = Some c" and self: "self = loop_tid r"
    by (auto simp: change_events_def updateChannel_def reactor_defs split: option.splits if_splits)
  show thesis
  proof (cases "index c < 0")
    case True
    with change_events_new [OF c True self, of f] assms(2) that(1) [OF c self] show thesis
      by (simp split: if_splits)
  next
    case False
    with assms(2) c have "channel_map r (chan_fd c) = Some ref"
      by (auto simp: change_events_def updateChannel_def reactor_defs result_simps Let_def split: if_splits)
    with change_events_known [OF assms(1) c this self, of f] assms(2) that(2) [OF c self] show thesis
      by simp
  qed
qed

lemma added_inv:
  assumes inv: "reactor_inv r" and c: "chans r ref = Some c0" "index c0 < 0" "chan_fd c = chan_fd c0"
    and free: "channel_map r (chan_fd c) = None"
  shows "reactor_inv (added ref c r)"
proof (rule reactor_invI)
  let ?r = "added ref c r" and ?n = "length (pollfds r)"
  have fd: "0 \<le> chan_fd c" using inv_fd [OF inv c(1)] c(3) by simp
  fix i assume "i < length (pollfds ?r)"
  then consider "i < ?n" | "i = ?n" by (fastforce simp: added_def)
  then show "slot_ok ?r i"
  proof cases
    case 1
    from inv_slot [OF inv 1] obtain ref' c' where
      s: "channel_map r (pfd_key (pollfds r ! i)) = Some ref'" "chans r ref' = Some c'"
        "chan_fd c' = pfd_key (pollfds r ! i)" "index c' = int i"
        "pfd_events (pollfds r ! i) = ucast (events c')" by blast
    with c have "ref' \<noteq> ref" by auto
    moreover from s(1) free have "pfd_key (pollfds r ! i) \<noteq> chan_fd c" by auto
    ultimately show ?thesis
      using s 1 by (intro slot_okI [of _ _ ref' c']) (auto simp: added_def nth_append)
  next
    case 2
    with fd show ?thesis
      by (intro slot_okI [of _ _ ref "c\<lparr>index := int ?n\<rparr>"]) (auto simp: added_def pfd_key_def)
  qed
next
  let ?r = "added ref c r" and ?n = "length (pollfds r)"
  have fd: "0 \<le> chan_fd c" using inv_fd [OF inv c(1)] c(3) by simp
  fix fd' ref' assume m: "channel_map ?r fd' = Some ref'"
  show "\<exists>i < length (pollfds ?r). pfd_key (pollfds ?r ! i) = fd'"
  proof (cases "fd' = chan_fd c")
    case True
    with fd show ?thesis by (intro exI [of _ ?n]) (simp add: added_def pfd_key_def)
  next
    case False
    with m have "channel_map r fd' = Some ref'" by (simp add: added_def)
    from inv_mapped [OF inv this] obtain i where "i < ?n" "pfd_key (pollfds r ! i) = fd'" by blast
    then show ?thesis by (intro exI [of _ i]) (simp add: added_def nth_append)
  qed
next
  fix ref' c' assume "chans (added ref c r) ref' = Some c'"
  then show "0 \<le> chan_fd c'"
    using inv_fd [OF inv] c by (auto simp: added_def split: if_splits)
qed

lemma updated_inv:
  assumes inv: "reactor_inv r" and c: "chans r ref = Some c0" "chan_fd c = chan_fd c0" "index c = index c0"
    and known: "channel_map r (chan_fd c) = Some ref"
  shows "reactor_inv (updated ref c r)"
proof -
  let ?r = "updated ref c r"
  from inv_mapped [OF inv known] c obtain k where
    k: "k < length (pollfds r)" "pfd_key (pollfds r ! k) = chan_fd c" "index c = int k" "0 \<le> chan_fd c"
    by (metis option.inject)
  have len: "length (pollfds ?r) = length (pollfds r)" by (simp add: updated_def)
  have entry: "pfd_key (entry_of c (pollfds r ! k)) = chan_fd c"
    using k by (auto simp: entry_of_def pfd_key_def Let_def)
  have key: "pfd_key (pollfds ?r ! i) = pfd_key (pollfds r ! i)" if "i < length (pollfds r)" for i
    using that k entry by (cases "i = k") (auto simp: updated_def)
  show ?thesis
  proof (rule reactor_invI)
    fix i assume "i < length (pollfds ?r)"
    then have i: "i < length (pollfds r)" by (simp add: len)
    show "slot_ok ?r i"
    proof (cases "i = k")
      case True
      with k known entry show ?thesis
        by (intro slot_okI [of _ _ ref c]) (auto simp: updated_def entry_of_def Let_def)
    next
      case False
      from inv_slot [OF inv i] obtain ref' c' where
        s: "channel_map r (pfd_key (pollfds r ! i)) = Some ref'" "chans r ref' = Some c'"
          "chan_fd c' = pfd_key (pollfds r ! i)" "index c' = int i"
          "pfd_events (pollfds r ! i) = ucast (events c')" by blast
      from s c k False have "ref' \<noteq> ref" by auto
      with s k False show ?thesis
        by (intro slot_okI [of _ _ ref' c']) (auto simp: updated_def)
    qed
  next
    fix fd ref' assume "channel_map ?r fd = Some ref'"
    then have "channel_map r fd = Some ref'" by (simp add: updated_def)
    from inv_mapped [OF inv this] obtain i where "i < length (pollfds r)" "pfd_key (pollfds r ! i) = fd"
      by blast
    then show "\<exists>i < length (pollfds ?r). pfd_key (pollfds ?r ! i) = fd"
      using key len by auto
  next
    fix ref' c' assume "chans ?r ref' = Some c'"
    then show "0 \<le> chan_fd c'"
      using inv_fd [OF inv] c by (auto simp: updated_def split: if_splits)
  qed
qed

lemma change_events_inv:
  assumes "reactor_inv r" and "change_events f self ref r = Inr r'"
  shows "reactor_inv r'"
proof (cases rule: change_events_Inr [OF assms])
  case (1 c)
  then show ?thesis using added_inv [OF assms(1), of ref c "c\<lparr>events := f (events c)\<rparr>"] by simp
next
  case (2 c)
  then show ?thesis using updated_inv [OF assms(1), of ref c "c\<lparr>events := f (events c)\<rparr>"] by simp
qed

subsection \<open>Removing\<close>

text \<open>The last entry takes the place of the removed one and its channel learns its new position.\<close>

definition removed :: "'h channel \<Rightarrow> 'h reactor \<Rightarrow> 'h reactor" where
  "removed c r = (let k = nat (index c); lst = last (pollfds r) in
     if k = length (pollfds r) - 1
     then r\<lparr>channel_map := (channel_map r)(chan_fd c := None), pollfds := butlast (pollfds r)\<rparr>
     else let ref' = the (channel_map r (pfd_key lst)) in
          r\<lparr>channel_map := (channel_map r)(chan_fd c := None),
            chans := (chans r)(ref' \<mapsto> (the (chans r ref'))\<lparr>index := int k\<rparr>),
            pollfds := butlast ((pollfds r)[k := lst])\<rparr>)"

lemma butlast_swap:
  "k < length xs - 1 \<Longrightarrow> butlast (xs[k := last xs, length xs - 1 := x]) = butlast (xs[k := last xs])"
  by (simp add: butlast_list_update)

lemma mset_swap_remove:
  assumes "k < length xs"
  shows "mset (butlast (xs[k := last xs])) = mset xs - {#xs ! k#}"
proof (cases "k = length xs - 1")
  case True
  with assms have "xs = butlast xs @ [xs ! k]"
    by (metis append_butlast_last_id last_conv_nth list.size(3) not_less_zero)
  with True show ?thesis
    by (metis add_mset_remove_trivial butlast_list_update mset_append mset.simps(1,2)
        union_mset_add_mset_right add.right_neutral butlast_snoc)
next
  case False
  let ?ys = "xs[k := last xs]"
  from assms have ne: "?ys \<noteq> []" by auto
  with assms False have lst: "last ?ys = last xs"
    by (simp add: last_conv_nth nth_list_update)
  have "mset ?ys = mset (butlast ?ys) + {#last xs#}"
    using append_butlast_last_id [OF ne] lst by (metis mset_append mset.simps(1,2))
  moreover have "mset ?ys = add_mset (last xs) (mset xs - {#xs ! k#})"
    by (rule mset_update [OF assms])
  ultimately show ?thesis by simp
qed

lemma last_slot:
  assumes inv: "reactor_inv r" and ne: "pollfds r \<noteq> []"
  obtains ref c where "channel_map r (pfd_key (last (pollfds r))) = Some ref" "chans r ref = Some c"
    "chan_fd c = pfd_key (last (pollfds r))" "index c = int (length (pollfds r) - 1)"
    "pfd_events (last (pollfds r)) = ucast (events c)"
  using inv_slot [OF inv, of "length (pollfds r) - 1"] ne by (auto simp: last_conv_nth)

lemma removeChannel_eq:
  assumes inv: "reactor_inv r" and c: "chans r ref = Some c" "channel_map r (chan_fd c) = Some ref"
    and none: "isNoneEvent c" and ign: "pfd_fd (pollfds r ! nat (index c)) = - chan_fd c - 1"
    and self: "self = loop_tid r"
  shows "removeChannel self ref r = Inr (removed c r)"
proof -
  let ?ps = "pollfds r"
  from inv_mapped [OF inv c(2)] c(1) obtain k where
    k: "k < length ?ps" "pfd_key (?ps ! k) = chan_fd c" "index c = int k"
      "pfd_events (?ps ! k) = ucast (events c)" by (metis option.inject)
  show ?thesis
  proof (cases "k = length ?ps - 1")
    case True
    moreover from k(1) have "?ps \<noteq> []" by auto
    ultimately show ?thesis using k c none ign self
      by (auto simp: removeChannel_def reactor_defs removed_def Let_def)
  next
    case False
    with k(1) have lt: "k < length ?ps - 1" by simp
    from k(1) have "?ps \<noteq> []" by auto
    from last_slot [OF inv this] obtain ref' c' where
      l: "channel_map r (pfd_key (last ?ps)) = Some ref'" "chans r ref' = Some c'"
        "chan_fd c' = pfd_key (last ?ps)" "index c' = int (length ?ps - 1)" by blast
    have "ref' \<noteq> ref" using l(2,4) c(1) k(3) False by auto
    with l(1) c(2) have other: "pfd_key (last ?ps) \<noteq> chan_fd c" by auto
    from k c none ign self l lt other butlast_swap [OF lt, of "?ps ! k"] False show ?thesis
      by (auto simp: removeChannel_def reactor_defs removed_def Let_def pfd_key_def [of "last ?ps"])
  qed
qed

lemma removed_mset:
  assumes "nat (index c) < length (pollfds r)"
  shows "mset (pollfds (removed c r)) = mset (pollfds r) - {#pollfds r ! nat (index c)#}"
proof (cases "nat (index c) = length (pollfds r) - 1")
  case True
  then have "butlast (pollfds r) = butlast ((pollfds r)[nat (index c) := last (pollfds r)])"
    by (simp add: butlast_list_update)
  with True mset_swap_remove [OF assms] show ?thesis by (simp add: removed_def Let_def)
next
  case False
  with mset_swap_remove [OF assms] show ?thesis by (simp add: removed_def Let_def)
qed

lemma removed_inv:
  assumes inv: "reactor_inv r" and c: "chans r ref = Some c" "channel_map r (chan_fd c) = Some ref"
  shows "reactor_inv (removed c r)"
proof -
  let ?ps = "pollfds r" and ?r = "removed c r" and ?n = "length (pollfds r) - 1"
  from inv_mapped [OF inv c(2)] c(1) obtain k where
    k: "k < length ?ps" "pfd_key (?ps ! k) = chan_fd c" "index c = int k" by (metis option.inject)
  then have ne: "?ps \<noteq> []" by auto
  from last_slot [OF inv ne] obtain lr lc where
    l: "channel_map r (pfd_key (last ?ps)) = Some lr" "chans r lr = Some lc"
      "chan_fd lc = pfd_key (last ?ps)" "index lc = int ?n" "pfd_events (last ?ps) = ucast (events lc)" by blast
  have len: "length (pollfds ?r) = ?n" by (simp add: removed_def Let_def)
  have nth: "pollfds ?r ! i = (if i = k then last ?ps else ?ps ! i)" if "i < ?n" for i
    using that k by (auto simp: removed_def Let_def nth_butlast nth_list_update)
  have cm: "channel_map ?r = (channel_map r)(chan_fd c := None)" by (simp add: removed_def Let_def)
  have ch: "chans ?r = (if k = ?n then chans r else (chans r)(lr \<mapsto> lc\<lparr>index := int k\<rparr>))"
    using k l by (simp add: removed_def Let_def)
  have key_ne: "pfd_key (?ps ! i) \<noteq> chan_fd c" if "i < length ?ps" "i \<noteq> k" for i
    using inv_key_unique [OF inv that(1) k(1)] that k(2) by auto
  have last_ne: "pfd_key (last ?ps) \<noteq> chan_fd c" if "k < ?n"
    using key_ne [of ?n] that ne by (simp add: last_conv_nth)
  show ?thesis
  proof (rule reactor_invI)
    fix i assume "i < length (pollfds ?r)"
    then have i: "i < ?n" by (simp add: len)
    show "slot_ok ?r i"
    proof (cases "i = k")
      case True
      with i l last_ne show ?thesis
        by (intro slot_okI [of _ _ lr "lc\<lparr>index := int k\<rparr>"]) (auto simp: nth cm ch)
    next
      case False
      from i have "i < length ?ps" by simp
      from inv_slot [OF inv this] obtain ref' c' where
        s: "channel_map r (pfd_key (?ps ! i)) = Some ref'" "chans r ref' = Some c'"
          "chan_fd c' = pfd_key (?ps ! i)" "index c' = int i" "pfd_events (?ps ! i) = ucast (events c')"
        by blast
      from s l(2,4) i have "ref' \<noteq> lr" by auto
      with s i False key_ne [of i] show ?thesis
        by (intro slot_okI [of _ _ ref' c']) (auto simp: nth cm ch)
    qed
  next
    fix fd ref' assume "channel_map ?r fd = Some ref'"
    then have m: "channel_map r fd = Some ref'" "fd \<noteq> chan_fd c" by (auto simp: cm split: if_splits)
    from inv_mapped [OF inv m(1)] obtain i where i: "i < length ?ps" "pfd_key (?ps ! i) = fd" by blast
    with m(2) k(2) have "i \<noteq> k" by auto
    show "\<exists>i < length (pollfds ?r). pfd_key (pollfds ?r ! i) = fd"
    proof (cases "i = ?n")
      case True
      with i \<open>i \<noteq> k\<close> k(1) have "k < ?n" and "pfd_key (last ?ps) = fd" by (auto simp: last_conv_nth [OF ne])
      then show ?thesis by (intro exI [of _ k]) (simp add: len nth)
    next
      case False
      with i \<open>i \<noteq> k\<close> have "i < ?n" by simp
      with i \<open>i \<noteq> k\<close> show ?thesis by (intro exI [of _ i]) (simp add: len nth)
    qed
  next
    fix ref' c' assume "chans ?r ref' = Some c'"
    then show "0 \<le> chan_fd c'"
      using inv_fd [OF inv] l by (auto simp: ch split: if_splits)
  qed
qed

lemma removeChannel_Inr:
  assumes inv: "reactor_inv r" and "removeChannel self ref r = Inr r'"
  obtains c where "chans r ref = Some c" "channel_map r (chan_fd c) = Some ref" "isNoneEvent c"
    "pfd_fd (pollfds r ! nat (index c)) = - chan_fd c - 1" "self = loop_tid r" "r' = removed c r"
proof -
  from assms(2) obtain c where c: "chans r ref = Some c" "channel_map r (chan_fd c) = Some ref"
      "isNoneEvent c" "pfd_fd (pollfds r ! nat (index c)) = - chan_fd c - 1" "self = loop_tid r"
    by (auto simp: removeChannel_def reactor_defs Let_def result_simps split: option.splits if_splits)
  from removeChannel_eq [OF inv c] assms(2) have "r' = removed c r" by simp
  with c show thesis by (intro that)
qed

lemma removeChannel_inv:
  "reactor_inv r \<Longrightarrow> removeChannel self ref r = Inr r' \<Longrightarrow> reactor_inv r'"
  by (metis removeChannel_Inr removed_inv)

subsection \<open>Collecting the active channels\<close>

text \<open>Polling changes nothing but the reported events of channels.\<close>

definition same_but_revents :: "'h reactor \<Rightarrow> 'h reactor \<Rightarrow> bool" where
  "same_but_revents r r' \<longleftrightarrow> loop_tid r' = loop_tid r \<and> pollfds r' = pollfds r \<and>
     channel_map r' = channel_map r \<and>
     (\<forall>ref. rel_option (\<lambda>c c'. c' = c\<lparr>revents := revents c'\<rparr>) (chans r ref) (chans r' ref))"

lemma same_but_revents_refl: "same_but_revents r r"
  by (auto simp: same_but_revents_def option.rel_refl)

lemma same_but_revents_trans:
  assumes "same_but_revents a b" and "same_but_revents b c"
  shows "same_but_revents a c"
proof -
  have "rel_option (\<lambda>c c'. c' = c\<lparr>revents := revents c'\<rparr>) (chans a ref) (chans c ref)" for ref
  proof -
    have 1: "rel_option (\<lambda>c c'. c' = c\<lparr>revents := revents c'\<rparr>) (chans a ref) (chans b ref)"
      and 2: "rel_option (\<lambda>c c'. c' = c\<lparr>revents := revents c'\<rparr>) (chans b ref) (chans c ref)"
      using assms by (auto simp: same_but_revents_def)
    then show ?thesis
      by (cases "chans a ref"; cases "chans b ref"; cases "chans c ref") (simp_all, metis channel.update_convs(3) channel.surjective)
  qed
  with assms show ?thesis by (simp add: same_but_revents_def)
qed

lemma same_but_revents_put:
  "chans r ref = Some c \<Longrightarrow> same_but_revents r (put_chan ref (set_revents v c) r)"
  by (auto simp: same_but_revents_def put_chan_def set_revents_def option.rel_refl)

lemma same_but_revents_forward:
  assumes "same_but_revents r r'" and "chans r ref = Some c"
  shows "\<exists>v. chans r' ref = Some (c\<lparr>revents := v\<rparr>)"
proof -
  from assms(1) have "rel_option (\<lambda>c c'. c' = c\<lparr>revents := revents c'\<rparr>) (chans r ref) (chans r' ref)"
    by (simp add: same_but_revents_def)
  with assms(2) show ?thesis by (auto simp: option_rel_Some1)
qed

lemma same_but_revents_backward:
  assumes "same_but_revents r r'" and "chans r' ref = Some c'"
  shows "\<exists>c. chans r ref = Some c \<and> chan_fd c' = chan_fd c"
proof -
  from assms(1) have "rel_option (\<lambda>c c'. c' = c\<lparr>revents := revents c'\<rparr>) (chans r ref) (chans r' ref)"
    by (simp add: same_but_revents_def)
  with assms(2) obtain c where "chans r ref = Some c" "c' = c\<lparr>revents := revents c'\<rparr>"
    by (auto simp: option_rel_Some2)
  then show ?thesis by (metis channel.select_convs(1) channel.surjective channel.update_convs(3))
qed

lemma same_but_revents_inv:
  assumes "reactor_inv r" and same: "same_but_revents r r'"
  shows "reactor_inv r'"
proof -
  show ?thesis
  proof (rule reactor_invI)
    fix i assume "i < length (pollfds r')"
    with same have "i < length (pollfds r)" by (simp add: same_but_revents_def)
    from inv_slot [OF assms(1) this] obtain ref c where
      s: "channel_map r (pfd_key (pollfds r ! i)) = Some ref" "chans r ref = Some c"
        "chan_fd c = pfd_key (pollfds r ! i)" "index c = int i" "pfd_events (pollfds r ! i) = ucast (events c)"
      by blast
    from same_but_revents_forward [OF same s(2)] obtain v where "chans r' ref = Some (c\<lparr>revents := v\<rparr>)" by blast
    with s same show "slot_ok r' i"
      by (intro slot_okI [of _ _ ref "c\<lparr>revents := v\<rparr>"]) (simp_all add: same_but_revents_def)
  next
    fix fd ref assume "channel_map r' fd = Some ref"
    with same have "channel_map r fd = Some ref" by (simp add: same_but_revents_def)
    from inv_mapped [OF assms(1) this] same
    show "\<exists>i < length (pollfds r'). pfd_key (pollfds r' ! i) = fd"
      by (metis same_but_revents_def)
  next
    fix ref c' assume "chans r' ref = Some c'"
    from same_but_revents_backward [OF same this] inv_fd [OF assms(1)] show "0 \<le> chan_fd c'" by auto
  qed
qed

text \<open>The channel an entry reports to.\<close>

definition target :: "'h reactor \<Rightarrow> pollfd \<Rightarrow> chref" where
  "target r p = the (channel_map r (pfd_fd p))"

definition reports :: "'h reactor \<Rightarrow> pollfd \<Rightarrow> bool" where
  "reports r p \<longleftrightarrow> short_pos (pfd_revents p) \<longrightarrow>
     (\<exists>ref c. channel_map r (pfd_fd p) = Some ref \<and> chans r ref = Some c \<and> chan_fd c = pfd_fd p)"

lemma reports_same: "same_but_revents r r' \<Longrightarrow> reports r p \<Longrightarrow> reports r' p"
proof -
  assume same: "same_but_revents r r'" and rep: "reports r p"
  show "reports r' p"
  proof (unfold reports_def, rule impI)
    assume "short_pos (pfd_revents p)"
    with rep obtain ref c where c: "channel_map r (pfd_fd p) = Some ref" "chans r ref = Some c" "chan_fd c = pfd_fd p"
      by (auto simp: reports_def)
    from same_but_revents_forward [OF same c(2)] obtain v where "chans r' ref = Some (c\<lparr>revents := v\<rparr>)"
      by blast
    with c same show "\<exists>ref c. channel_map r' (pfd_fd p) = Some ref \<and> chans r' ref = Some c \<and> chan_fd c = pfd_fd p"
      by (auto simp: same_but_revents_def)
  qed
qed

lemma fill_one_ok:
  assumes "reports r p"
  shows "\<exists>r'. fill_one p (r, n, acc) = Inr (r', if short_pos (pfd_revents p) then n - 1 else n,
      acc @ (if short_pos (pfd_revents p) then [target r p] else [])) \<and> same_but_revents r r' \<and>
    (\<forall>ref. (\<not> short_pos (pfd_revents p) \<or> ref \<noteq> target r p) \<longrightarrow> chans r' ref = chans r ref) \<and>
    (short_pos (pfd_revents p) \<longrightarrow> map_option revents (chans r' (target r p)) = Some (scast (pfd_revents p)))"
proof (cases "short_pos (pfd_revents p)")
  case True
  with assms obtain ref c where c: "channel_map r (pfd_fd p) = Some ref" "chans r ref = Some c" "chan_fd c = pfd_fd p"
    by (auto simp: reports_def)
  with True same_but_revents_put [OF c(2), of "scast (pfd_revents p)"] show ?thesis
    by (intro exI [of _ "put_chan ref (set_revents (scast (pfd_revents p)) c) r"])
      (auto simp: fill_one_def target_def deref_def Let_def put_chan_def set_revents_def)
next
  case False
  then show ?thesis by (intro exI [of _ r]) (simp add: fill_one_def same_but_revents_refl)
qed

lemma target_same: "same_but_revents r r' \<Longrightarrow> target r' = target r"
  by (simp add: fun_eq_iff target_def same_but_revents_def)

lemma fill_loop:
  assumes "\<And>p. p \<in> set ps \<Longrightarrow> reports r p"
    and "distinct (map (target r) (filter (\<lambda>p. short_pos (pfd_revents p)) ps))"
  shows "\<exists>r' m. rfold fill_one ps (r, n, acc) =
      Inr (r', m, acc @ map (target r) (filter (\<lambda>p. short_pos (pfd_revents p)) ps)) \<and> same_but_revents r r' \<and>
    (\<forall>ref. ref \<notin> target r ` {p \<in> set ps. short_pos (pfd_revents p)} \<longrightarrow> chans r' ref = chans r ref) \<and>
    (\<forall>p \<in> set ps. short_pos (pfd_revents p) \<longrightarrow>
       map_option revents (chans r' (target r p)) = Some (scast (pfd_revents p)))"
  using assms
proof (induction ps arbitrary: r n acc)
  case Nil
  then show ?case by (simp add: same_but_revents_refl)
next
  case (Cons p ps)
  let ?sp = "\<lambda>p. short_pos (pfd_revents p)"
  from fill_one_ok [of r p n acc] Cons.prems(1) obtain r1 where
    r1: "fill_one p (r, n, acc) = Inr (r1, if ?sp p then n - 1 else n, acc @ (if ?sp p then [target r p] else []))"
      "same_but_revents r r1"
      "\<And>ref. \<not> ?sp p \<or> ref \<noteq> target r p \<Longrightarrow> chans r1 ref = chans r ref"
      "?sp p \<Longrightarrow> map_option revents (chans r1 (target r p)) = Some (scast (pfd_revents p))" by auto
  have t: "target r1 = target r" by (rule target_same [OF r1(2)])
  have rep: "\<And>q. q \<in> set ps \<Longrightarrow> reports r1 q"
    using Cons.prems(1) reports_same [OF r1(2)] by simp
  have dist: "distinct (map (target r1) (filter ?sp ps))"
    using Cons.prems(2) by (simp add: t split: if_splits)
  from Cons.IH [OF rep dist, of "if ?sp p then n - 1 else n" "acc @ (if ?sp p then [target r p] else [])"]
  obtain r' m where r': "rfold fill_one ps (r1, if ?sp p then n - 1 else n, acc @ (if ?sp p then [target r p] else [])) =
      Inr (r', m, (acc @ (if ?sp p then [target r p] else [])) @ map (target r) (filter ?sp ps))"
    "same_but_revents r1 r'"
    "\<And>ref. ref \<notin> target r ` {p \<in> set ps. ?sp p} \<Longrightarrow> chans r' ref = chans r1 ref"
    "\<And>q. q \<in> set ps \<Longrightarrow> ?sp q \<Longrightarrow> map_option revents (chans r' (target r q)) = Some (scast (pfd_revents q))"
    unfolding t by blast
  have head: "map_option revents (chans r' (target r p)) = Some (scast (pfd_revents p))" if "?sp p"
  proof -
    from that Cons.prems(2) have "target r p \<notin> target r ` {p \<in> set ps. ?sp p}" by auto
    with r'(3) r1(4) that show ?thesis by simp
  qed
  from r1(1) r'(1) have "rfold fill_one (p # ps) (r, n, acc) = Inr (r', m, acc @ map (target r) (filter ?sp (p # ps)))"
    by simp
  moreover have "same_but_revents r r'" using r1(2) r'(2) by (rule same_but_revents_trans)
  moreover have "chans r' ref = chans r ref" if "ref \<notin> target r ` {q \<in> set (p # ps). ?sp q}" for ref
  proof -
    from that have "ref \<notin> target r ` {q \<in> set ps. ?sp q}" and "\<not> ?sp p \<or> ref \<noteq> target r p"
      by (auto intro: imageI)
    with r1(3) r'(3) show ?thesis by simp
  qed
  ultimately show ?case using head r'(4) by auto
qed

lemma map2_upt:
  "length xs = length ys \<Longrightarrow> map2 f xs ys = map (\<lambda>i. f (xs ! i) (ys ! i)) [0..<length xs]"
  by (rule nth_equalityI) simp_all

lemma set_kernel_revents_inv:
  assumes inv: "reactor_inv r" and len: "length revs = length (pollfds r)"
  shows "reactor_inv (set_kernel_revents revs r)"
proof (rule reactor_invI)
  fix i assume "i < length (pollfds (set_kernel_revents revs r))"
  then have i: "i < length (pollfds r)" using len by (simp add: set_kernel_revents_def)
  from inv_slot [OF inv i] obtain ref c where
    "channel_map r (pfd_key (pollfds r ! i)) = Some ref" "chans r ref = Some c"
    "chan_fd c = pfd_key (pollfds r ! i)" "index c = int i" "pfd_events (pollfds r ! i) = ucast (events c)" by blast
  with i len show "slot_ok (set_kernel_revents revs r) i"
    by (intro slot_okI [of _ _ ref c]) (simp_all add: set_kernel_revents_def)
next
  fix fd ref assume "channel_map (set_kernel_revents revs r) fd = Some ref"
  then have "channel_map r fd = Some ref" by (simp add: set_kernel_revents_def)
  from inv_mapped [OF inv this] obtain i where "i < length (pollfds r)" "pfd_key (pollfds r ! i) = fd" by blast
  with len show "\<exists>i < length (pollfds (set_kernel_revents revs r)). pfd_key (pollfds (set_kernel_revents revs r) ! i) = fd"
    by (intro exI [of _ i]) (simp add: set_kernel_revents_def)
qed (use inv_fd [OF inv] in \<open>auto simp: set_kernel_revents_def\<close>)

text \<open>The positions of the entries with something to report, and the channel of a position.\<close>

definition ready :: "'h reactor \<Rightarrow> 16 word list \<Rightarrow> nat list" where
  "ready r revs = filter (\<lambda>i. short_pos (revs ! i)) [0..<length (pollfds r)]"

definition channel_at :: "'h reactor \<Rightarrow> nat \<Rightarrow> chref" where
  "channel_at r i = the (channel_map r (pfd_fd (pollfds r ! i)))"

lemma short_pos_0 [simp]: "\<not> short_pos 0"
  by (simp add: short_pos_def)

lemma ready_slot:
  assumes inv: "reactor_inv r" and doc: "poll_doc (pollfds r) revs"
    and i: "i < length (pollfds r)" "short_pos (revs ! i)"
  obtains c where "channel_map r (pfd_fd (pollfds r ! i)) = Some (channel_at r i)"
    "chans r (channel_at r i) = Some c" "chan_fd c = pfd_fd (pollfds r ! i)" "index c = int i"
proof -
  have "0 \<le> pfd_fd (pollfds r ! i)"
  proof (rule ccontr)
    assume "\<not> 0 \<le> pfd_fd (pollfds r ! i)"
    with doc i(1) have "revs ! i = 0" by (simp add: poll_doc_def)
    with i(2) show False by simp
  qed
  then have "pfd_key (pollfds r ! i) = pfd_fd (pollfds r ! i)" by (simp add: pfd_key_def)
  with inv_slot [OF inv i(1)] that show thesis by (metis channel_at_def option.sel)
qed

lemma Poller_poll_ok:
  assumes inv: "reactor_inv r" and doc: "poll_doc (pollfds r) revs"
  shows "\<exists>r'. Poller_poll (PollReady revs) [] r = Inr (r', map (channel_at r) (ready r revs)) \<and>
    reactor_inv r' \<and> same_but_revents (set_kernel_revents revs r) r' \<and>
    (\<forall>i \<in> set (ready r revs). \<exists>c. chans r' (channel_at r i) = Some c \<and> revents c = scast (revs ! i))"
proof -
  let ?n = "length (pollfds r)" and ?r = "set_kernel_revents revs r"
  let ?p = "\<lambda>i. (pollfds r ! i)\<lparr>pfd_revents := revs ! i\<rparr>"
  have len: "length revs = ?n" using doc by (simp add: poll_doc_def)
  have inv1: "reactor_inv ?r" by (rule set_kernel_revents_inv [OF inv len])
  have ps: "pollfds ?r = map ?p [0..<?n]"
    using len by (simp add: set_kernel_revents_def map2_upt)
  have tgt: "target ?r (?p i) = channel_at r i" for i
    by (simp add: target_def channel_at_def set_kernel_revents_def)
  have filt: "filter (\<lambda>p. short_pos (pfd_revents p)) (pollfds ?r) = map ?p (ready r revs)"
    unfolding ps ready_def by (simp add: filter_map o_def)
  have act: "map (target ?r) (filter (\<lambda>p. short_pos (pfd_revents p)) (pollfds ?r)) = map (channel_at r) (ready r revs)"
    unfolding filt by (simp add: tgt o_def)
  have rep: "reports ?r p" if "p \<in> set (pollfds ?r)" for p
  proof (unfold reports_def, rule impI)
    assume sp: "short_pos (pfd_revents p)"
    from that obtain i where i: "i < ?n" "p = ?p i" by (auto simp: ps)
    with sp have "short_pos (revs ! i)" by simp
    from ready_slot [OF inv doc i(1) this] obtain c where
      "channel_map r (pfd_fd (pollfds r ! i)) = Some (channel_at r i)"
      "chans r (channel_at r i) = Some c" "chan_fd c = pfd_fd (pollfds r ! i)" by blast
    with i(2) show "\<exists>ref c. channel_map ?r (pfd_fd p) = Some ref \<and> chans ?r ref = Some c \<and> chan_fd c = pfd_fd p"
      by (auto simp: set_kernel_revents_def)
  qed
  have dist: "distinct (map (channel_at r) (ready r revs))"
  proof -
    have "inj_on (channel_at r) (set (ready r revs))"
    proof (rule inj_onI)
      fix i j assume ij: "i \<in> set (ready r revs)" "j \<in> set (ready r revs)" and eq: "channel_at r i = channel_at r j"
      then have "i < ?n" "short_pos (revs ! i)" "j < ?n" "short_pos (revs ! j)" by (auto simp: ready_def)
      from ready_slot [OF inv doc this(1,2)] ready_slot [OF inv doc this(3,4)] eq show "i = j"
        by (metis of_nat_eq_iff option.inject)
    qed
    then show ?thesis by (simp add: distinct_map ready_def)
  qed
  show ?thesis
  proof (cases "0 < poll_count revs")
    case True
    from fill_loop [of "pollfds ?r" ?r "poll_count revs" "[]", OF rep] dist obtain r' m where
      r': "rfold fill_one (pollfds ?r) (?r, poll_count revs, []) = Inr (r', m, map (channel_at r) (ready r revs))"
        "same_but_revents ?r r'"
        "\<And>p. p \<in> set (pollfds ?r) \<Longrightarrow> short_pos (pfd_revents p) \<Longrightarrow>
           map_option revents (chans r' (target ?r p)) = Some (scast (pfd_revents p))"
      unfolding act by auto
    have "\<exists>c. chans r' (channel_at r i) = Some c \<and> revents c = scast (revs ! i)" if "i \<in> set (ready r revs)" for i
    proof -
      from that have "i < ?n" "short_pos (revs ! i)" by (auto simp: ready_def)
      then have "map_option revents (chans r' (target ?r (?p i))) = Some (scast (pfd_revents (?p i)))"
        by (intro r'(3)) (auto simp: ps)
      then show ?thesis by (simp only: tgt) auto
    qed
    with True r'(1,2) same_but_revents_inv [OF inv1 r'(2)] show ?thesis
      by (auto simp: Poller_poll_def fillActiveChannels_def Let_def)
  next
    case False
    then have "filter (\<lambda>v. v \<noteq> 0) revs = []" by (simp add: poll_count_def)
    then have "revs ! i = 0" if "i < ?n" for i
      using that len by (auto simp: filter_empty_conv)
    then have "ready r revs = []" by (auto simp: ready_def filter_empty_conv)
    with False inv1 show ?thesis
      by (simp add: Poller_poll_def Let_def same_but_revents_refl)
  qed
qed

section \<open>The registry the other components see\<close>

definition chan_bits :: "'h reactor \<Rightarrow> chref \<Rightarrow> event_bits option" where
  "chan_bits r ref = map_option events (chans r ref)"

definition interest :: "'h reactor \<Rightarrow> chref \<Rightarrow> event_bits option" where
  "interest r ref = (case chans r ref of None \<Rightarrow> None
     | Some c \<Rightarrow> if channel_map r (chan_fd c) = Some ref then Some (events c) else None)"

lemma added_frame:
  assumes "chans r ref = Some c0" "chan_fd c = chan_fd c0" "channel_map r (chan_fd c) = None" "d \<noteq> ref"
  shows "interest (added ref c r) d = interest r d \<and> chan_bits (added ref c r) d = chan_bits r d"
  using assms by (auto simp: added_def interest_def chan_bits_def split: option.splits)

lemma updated_frame:
  assumes "chans r ref = Some c0" "chan_fd c = chan_fd c0" "d \<noteq> ref"
  shows "interest (updated ref c r) d = interest r d \<and> chan_bits (updated ref c r) d = chan_bits r d"
  using assms by (auto simp: updated_def interest_def chan_bits_def split: option.splits)

lemma removed_chan:
  assumes inv: "reactor_inv r" and ref: "chans r ref = Some c" "channel_map r (chan_fd c) = Some ref"
  shows "\<exists>v. chans (removed c r) d = map_option (\<lambda>c. c\<lparr>index := v (index c)\<rparr>) (chans r d)"
proof -
  from inv_mapped [OF inv ref(2)] obtain i where "i < length (pollfds r)" by blast
  then have ne: "pollfds r \<noteq> []" by auto
  from last_slot [OF inv ne] obtain lr lc where
    l: "channel_map r (pfd_key (last (pollfds r))) = Some lr" "chans r lr = Some lc" by blast
  show ?thesis
  proof (cases "nat (index c) = length (pollfds r) - 1 \<or> d \<noteq> lr")
    case True
    with l have "chans (removed c r) d = chans r d" by (auto simp: removed_def Let_def)
    then show ?thesis by (intro exI [of _ "\<lambda>i. i"]) (cases "chans r d"; simp)
  next
    case False
    then have "d = lr" and k: "nat (index c) \<noteq> length (pollfds r) - 1" by simp_all
    from l k have "chans (removed c r) lr = Some (lc\<lparr>index := int (nat (index c))\<rparr>)"
      by (simp only: removed_def Let_def) simp
    with l(2) \<open>d = lr\<close> show ?thesis
      by (intro exI [of _ "\<lambda>_. int (nat (index c))"]) simp
  qed
qed

lemma removed_frame:
  assumes "reactor_inv r" and "chans r ref = Some c" "channel_map r (chan_fd c) = Some ref"
  shows "interest (removed c r) ref = None" and "d \<noteq> ref \<Longrightarrow> interest (removed c r) d = interest r d"
proof -
  have cm: "channel_map (removed c r) = (channel_map r)(chan_fd c := None)"
    by (simp add: removed_def Let_def)
  from removed_chan [OF assms, of ref] assms(2) obtain v where
    "chans (removed c r) ref = Some (c\<lparr>index := v\<rparr>)" by auto
  then show "interest (removed c r) ref = None" by (simp add: interest_def cm)
  assume d: "d \<noteq> ref"
  from removed_chan [OF assms, of d] obtain v where
    "chans (removed c r) d = map_option (\<lambda>c. c\<lparr>index := v (index c)\<rparr>) (chans r d)" by blast
  with d assms(3) show "interest (removed c r) d = interest r d"
    by (cases "chans r d") (auto simp: interest_def cm)
qed

interpretation reg: channel_registry reactor_inv interest chan_bits change_events removeChannel
proof unfold_locales
  fix r :: "'h reactor" and f t c r' assume inv: "reactor_inv r" and op: "change_events f t c r = Inr r'"
  then show "reactor_inv r'" by (rule change_events_inv)
  show "interest r' c = map_option f (chan_bits r c) \<and> chan_bits r' c = map_option f (chan_bits r c)"
    by (cases rule: change_events_Inr [OF inv op]) (simp_all add: interest_def chan_bits_def added_def updated_def)
  show "interest r' d = interest r d \<and> chan_bits r' d = chan_bits r d" if "d \<noteq> c" for d
    by (cases rule: change_events_Inr [OF inv op]) (use that in \<open>simp_all add: added_frame updated_frame\<close>)
next
  fix r :: "'h reactor" and t c r' assume inv: "reactor_inv r" and op: "removeChannel t c r = Inr r'"
  then show "reactor_inv r'" by (rule removeChannel_inv)
  show "interest r' c = None"
    by (cases rule: removeChannel_Inr [OF inv op]) (simp add: removed_frame(1) [OF inv])
  show "interest r' d = interest r d" if "d \<noteq> c" for d
    by (cases rule: removeChannel_Inr [OF inv op]) (use that in \<open>simp add: removed_frame(2) [OF inv]\<close>)
qed

section \<open>Runs of the registry\<close>

text \<open>Everything that happens to a poller and its channels; a channel is destroyed only when it is
  not registered, which is the rule the comment on \<open>removeChannel\<close> states.\<close>

inductive reactor_step :: "'h reactor \<Rightarrow> 'h reactor \<Rightarrow> bool" where
  construct: "chans r ref = None \<Longrightarrow> 0 \<le> fd \<Longrightarrow> reactor_step r (new_chan ref (Channel_new fd) r)"
| install: "chans r ref = Some c \<Longrightarrow>
    f \<in> {setReadCallback h, setWriteCallback h, setErrorCallback h, setCloseCallback h} \<Longrightarrow>
    reactor_step r (put_chan ref (f c) r)"
| enable_read: "enableReading self ref r = Inr r' \<Longrightarrow> reactor_step r r'"
| enable_write: "enableWriting self ref r = Inr r' \<Longrightarrow> reactor_step r r'"
| disable_write: "disableWriting self ref r = Inr r' \<Longrightarrow> reactor_step r r'"
| disable_all: "disableAll self ref r = Inr r' \<Longrightarrow> reactor_step r r'"
| remove: "removeChannel self ref r = Inr r' \<Longrightarrow> reactor_step r r'"
| destroy: "delete_chan ref r = Inr r' \<Longrightarrow> ref \<notin> ran (channel_map r) \<Longrightarrow> reactor_step r r'"
| poll: "poll_doc (pollfds r) revs \<Longrightarrow> Poller_poll (PollReady revs) [] r = Inr (r', active) \<Longrightarrow>
    reactor_step r r'"

lemma heap_inv:
  assumes inv: "reactor_inv r" and "\<And>fd ref. channel_map r fd = Some ref \<Longrightarrow> \<exists>c c'. chans r ref = Some c \<and>
      h ref = Some c' \<and> chan_fd c' = chan_fd c \<and> index c' = index c \<and> events c' = events c"
    and "\<And>ref c. h ref = Some c \<Longrightarrow> 0 \<le> chan_fd c"
  shows "reactor_inv (r\<lparr>chans := h\<rparr>)"
proof (rule reactor_invI)
  fix i assume "i < length (pollfds (r\<lparr>chans := h\<rparr>))"
  then have "i < length (pollfds r)" by simp
  from inv_slot [OF inv this] obtain ref c where
    s: "channel_map r (pfd_key (pollfds r ! i)) = Some ref" "chans r ref = Some c"
      "chan_fd c = pfd_key (pollfds r ! i)" "index c = int i" "pfd_events (pollfds r ! i) = ucast (events c)" by blast
  from assms(2) [OF s(1)] s(2) obtain c' where "h ref = Some c'" "chan_fd c' = chan_fd c"
    "index c' = index c" "events c' = events c" by auto
  with s show "slot_ok (r\<lparr>chans := h\<rparr>) i" by (intro slot_okI [of _ _ ref c']) simp_all
next
  fix fd ref assume "channel_map (r\<lparr>chans := h\<rparr>) fd = Some ref"
  then have "channel_map r fd = Some ref" by simp
  from inv_mapped [OF inv this] obtain i where "i < length (pollfds r)" "pfd_key (pollfds r ! i) = fd" by blast
  then show "\<exists>i < length (pollfds (r\<lparr>chans := h\<rparr>)). pfd_key (pollfds (r\<lparr>chans := h\<rparr>) ! i) = fd" by auto
qed (use assms(3) in simp)

text \<open>Changing what a channel keeps for itself: the reported events and the \<open>eventHandling_\<close> flag.\<close>

lemma put_same_inv:
  assumes inv: "reactor_inv r" and c: "chans r ref = Some c"
    and d: "chan_fd d = chan_fd c" "index d = index c" "events d = events c"
  shows "reactor_inv (put_chan ref d r)"
proof (rule reactor_invI)
  fix i assume "i < length (pollfds (put_chan ref d r))"
  then have "i < length (pollfds r)" by (simp add: put_chan_def)
  from inv_slot [OF inv this] obtain ref' c' where
    s: "channel_map r (pfd_key (pollfds r ! i)) = Some ref'" "chans r ref' = Some c'"
      "chan_fd c' = pfd_key (pollfds r ! i)" "index c' = int i" "pfd_events (pollfds r ! i) = ucast (events c')" by blast
  show "slot_ok (put_chan ref d r) i"
    by (rule slot_okI [of _ _ ref' "if ref' = ref then d else c'"])
      (use s c d in \<open>auto simp: put_chan_def\<close>)
next
  fix fd ref' assume "channel_map (put_chan ref d r) fd = Some ref'"
  then have "channel_map r fd = Some ref'" by (simp add: put_chan_def)
  from inv_mapped [OF inv this]
  show "\<exists>i < length (pollfds (put_chan ref d r)). pfd_key (pollfds (put_chan ref d r) ! i) = fd"
    by (auto simp: put_chan_def)
next
  fix ref' c' assume "chans (put_chan ref d r) ref' = Some c'"
  then show "0 \<le> chan_fd c'"
    using inv_fd [OF inv] c d by (auto simp: put_chan_def split: if_splits)
qed

lemma mapped_chan: "reactor_inv r \<Longrightarrow> channel_map r fd = Some ref \<Longrightarrow> \<exists>c. chans r ref = Some c"
  using inv_mapped by metis

lemma install_inv:
  assumes inv: "reactor_inv r" and c: "chans r ref = Some c"
    and f: "f \<in> {setReadCallback h, setWriteCallback h, setErrorCallback h, setCloseCallback h}"
  shows "reactor_inv (put_chan ref (f c) r)"
proof -
  have same: "chan_fd (f c) = chan_fd c \<and> index (f c) = index c \<and> events (f c) = events c"
    using f by (auto simp: setReadCallback_def setWriteCallback_def setErrorCallback_def setCloseCallback_def)
  have "reactor_inv (r\<lparr>chans := (chans r)(ref \<mapsto> f c)\<rparr>)"
  proof (rule heap_inv [OF inv])
    fix fd ref' assume "channel_map r fd = Some ref'"
    then obtain d where "chans r ref' = Some d" using mapped_chan [OF inv] by blast
    with c same show "\<exists>c1 c'. chans r ref' = Some c1 \<and> ((chans r)(ref \<mapsto> f c)) ref' = Some c' \<and>
        chan_fd c' = chan_fd c1 \<and> index c' = index c1 \<and> events c' = events c1"
      by (cases "ref' = ref") auto
  next
    fix ref' d assume "((chans r)(ref \<mapsto> f c)) ref' = Some d"
    then show "0 \<le> chan_fd d" using inv_fd [OF inv] c same by (auto split: if_splits)
  qed
  then show ?thesis by (simp add: put_chan_def)
qed

lemma delete_inv:
  assumes inv: "reactor_inv r" and del: "delete_chan ref r = Inr r'" and free: "ref \<notin> ran (channel_map r)"
  shows "reactor_inv r'"
proof -
  from del have r': "r' = r\<lparr>chans := (chans r)(ref := None)\<rparr>"
    by (auto simp: delete_chan_def deref_def result_simps split: option.splits)
  show ?thesis unfolding r'
  proof (rule heap_inv [OF inv])
    fix fd ref' assume m: "channel_map r fd = Some ref'"
    with free have "ref' \<noteq> ref" by (auto simp: ran_def)
    with mapped_chan [OF inv m] show "\<exists>c c'. chans r ref' = Some c \<and> ((chans r)(ref := None)) ref' = Some c' \<and>
        chan_fd c' = chan_fd c \<and> index c' = index c \<and> events c' = events c" by auto
  qed (use inv_fd [OF inv] in \<open>auto split: if_splits\<close>)
qed

lemma reactor_step_inv: "reactor_inv r \<Longrightarrow> reactor_step r r' \<Longrightarrow> reactor_inv r'"
proof (erule reactor_step.cases, goal_cases)
  case (1 r ref fd)
  then show ?case by (auto intro: new_chan_inv simp: Channel_new_def)
next
  case (2 r ref c f h)
  then show ?case by (auto intro: install_inv)
next
  case (7 self ref r r')
  then show ?case by (auto intro: removeChannel_inv)
next
  case (8 ref r r')
  then show ?case by (auto intro: delete_inv)
next
  case (9 r revs r' active)
  then show ?case using Poller_poll_ok [of r revs] by auto
qed (auto simp: enableReading_def enableWriting_def disableWriting_def disableAll_def intro: change_events_inv)

interpretation rs: invariant_system "\<lambda>r. \<exists>t. r = Poller_new t" reactor_step reactor_inv
  by unfold_locales (auto intro: Poller_new_inv reactor_step_inv)

text \<open>A poller with one channel registered for reading, for the examples below.\<close>

lemma sample_reactor:
  obtains r :: "nat reactor" and c where "reach (\<lambda>r. \<exists>t. r = Poller_new t) reactor_step r" "reactor_inv r"
    "chans r 0 = Some c" "channel_map r (chan_fd c) = Some 0" "chan_fd c = 5" "index c = 0" "loop_tid r = 1"
    "pollfds r = [\<lparr>pfd_fd = 5, pfd_events = 3, pfd_revents = 0\<rparr>]"
proof -
  let ?r0 = "new_chan 0 (Channel_new 5) (Poller_new 1) :: nat reactor"
  let ?r1 = "added 0 ((Channel_new 5)\<lparr>events := 3\<rparr>) ?r0"
  have "reactor_step (Poller_new 1) ?r0" by (rule construct) (simp_all add: Poller_new_def)
  then have "reach (\<lambda>r. \<exists>t. r = Poller_new t) reactor_step ?r0"
    by (rule reach_step [rotated]) (auto intro: reach_init)
  moreover have "enableReading 1 0 ?r0 = Inr ?r1"
    unfolding enableReading_def
    by (subst change_events_new [of _ _ "Channel_new 5"])
      (simp_all add: new_chan_def put_chan_def Poller_new_def Channel_new_def)
  ultimately have reach: "reach (\<lambda>r. \<exists>t. r = Poller_new t) reactor_step ?r1"
    by (blast intro: reach_step enable_read)
  from that [OF reach rs.reach_inv [OF reach], of "(Channel_new 5)\<lparr>events := 3, index := 0\<rparr>"]
  show thesis by (simp add: added_def new_chan_def put_chan_def Poller_new_def Channel_new_def)
qed

text \<open>Deregistering a channel.\<close>

lemma deregister:
  assumes inv: "reactor_inv r" and c: "chans r ref = Some c" "channel_map r (chan_fd c) = Some ref"
    and self: "self = loop_tid r"
  shows "\<exists>r1 r2. disableAll self ref r = Inr r1 \<and> removeChannel self ref r1 = Inr r2 \<and> reactor_inv r2 \<and>
    channel_map r2 = (channel_map r)(chan_fd c := None) \<and>
    mset (pollfds r2) = mset (pollfds r) - {#pollfds r ! nat (index c)#} \<and>
    interest r2 ref = None \<and> (\<forall>d. d \<noteq> ref \<longrightarrow> interest r2 d = interest r d)"
proof -
  let ?c = "c\<lparr>events := kNoneEvent\<rparr>"
  let ?r1 = "updated ref ?c r"
  from inv_mapped [OF inv c(2)] c(1) obtain k where
    k: "k < length (pollfds r)" "index c = int k" by (metis option.inject)
  have op1: "disableAll self ref r = Inr ?r1"
    unfolding disableAll_def by (rule change_events_known [OF inv c self])
  then have inv1: "reactor_inv ?r1" unfolding disableAll_def by (rule reg.change_ok [OF inv])
  have ch1: "chans ?r1 ref = Some ?c" "channel_map ?r1 = channel_map r" "loop_tid ?r1 = loop_tid r"
    "pollfds ?r1 = (pollfds r)[k := entry_of ?c (pollfds r ! k)]"
    using k(2) by (simp_all add: updated_def)
  have op2: "removeChannel self ref ?r1 = Inr (removed ?c ?r1)"
    by (rule removeChannel_eq [OF inv1 ch1(1)])
      (use ch1 c k self in \<open>simp_all add: isNoneEvent_def entry_of_def\<close>)
  have "mset (pollfds (removed ?c ?r1)) = mset (pollfds r) - {#pollfds r ! nat (index c)#}"
    using removed_mset [of ?c ?r1] k by (simp add: ch1(4) mset_update)
  moreover have "channel_map (removed ?c ?r1) = (channel_map r)(chan_fd c := None)"
    by (simp add: removed_def Let_def ch1)
  ultimately show ?thesis
    using op1 op2 reg.change_remove [OF inv op1 [unfolded disableAll_def] op2] by blast
qed

text \<open>What stays of a channel when its events change, and when another one is removed.\<close>

lemma change_events_chan:
  assumes inv: "reactor_inv r" and c: "chans r ref = Some c" and op: "change_events f self ref r = Inr r'"
  shows "reactor_inv r' \<and> self = loop_tid r \<and> loop_tid r' = loop_tid r \<and> channel_map r' (chan_fd c) = Some ref \<and>
    (\<exists>k. chans r' ref = Some (c\<lparr>events := f (events c), index := k\<rparr>))"
proof (cases rule: change_events_Inr [OF inv op])
  case (1 d)
  then show ?thesis using c reg.change_ok [OF inv op] by (auto simp: added_def)
next
  case (2 d)
  with c have "c = d" by simp
  with 2 reg.change_ok [OF inv op] show ?thesis
    by (simp add: updated_def) (rule exI [of _ "index d"], simp)
qed

lemma removeChannel_chan:
  assumes inv: "reactor_inv r" and op: "removeChannel self ref r = Inr r'" and c: "chans r ref = Some c"
  shows "reactor_inv r' \<and> loop_tid r' = loop_tid r \<and> (\<exists>k. chans r' ref = Some (c\<lparr>index := k\<rparr>)) \<and>
    channel_map r' = (channel_map r)(chan_fd c := None)"
proof -
  from removeChannel_Inr [OF inv op] c have d: "channel_map r (chan_fd c) = Some ref" "r' = removed c r"
    by (metis option.inject)+
  from removed_chan [OF inv c d(1), of ref] c obtain k where "chans r' ref = Some (c\<lparr>index := k\<rparr>)" by (auto simp: d(2))
  moreover have "loop_tid r' = loop_tid r" "channel_map r' = (channel_map r)(chan_fd c := None)"
    by (simp_all add: d(2) removed_def Let_def)
  ultimately show ?thesis using removeChannel_inv [OF inv op] by blast
qed

lemma removed_unmapped:
  assumes inv: "reactor_inv r" and op: "removeChannel self ref r = Inr r'"
  shows "ref \<notin> ran (channel_map r')"
proof
  assume "ref \<in> ran (channel_map r')"
  then obtain fd where m: "channel_map r' fd = Some ref" by (auto simp: ran_def)
  from removeChannel_Inr [OF inv op] obtain c where "chans r ref = Some c" by metis
  from removeChannel_chan [OF inv op this] obtain k where
    k: "reactor_inv r'" "chans r' ref = Some (c\<lparr>index := k\<rparr>)" "channel_map r' = (channel_map r)(chan_fd c := None)" by blast
  obtain d where "chans r' ref = Some d" "chan_fd d = fd" by (rule inv_mapped [OF k(1) m]) blast
  with k(2,3) m show False by simp
qed

section \<open>Properties\<close>

text \<open>
  C8. In every reachable state of a poller the map of channels has no dangling pointer, every
  registered channel knows the position of its entry in the array handed to \<open>poll\<close>, and that entry
  stands for the descriptor of the channel and asks for its events.
\<close>

theorem poller_consistent:
  assumes "reach (\<lambda>r. \<exists>t. r = Poller_new t) reactor_step r" and "channel_map r fd = Some ref"
  shows "\<exists>c. chans r ref = Some c \<and> chan_fd c = fd \<and> 0 \<le> index c \<and> index c < int (length (pollfds r)) \<and>
    pfd_key (pollfds r ! nat (index c)) = fd \<and> pfd_events (pollfds r ! nat (index c)) = ucast (events c)"
proof -
  from inv_mapped [OF rs.reach_inv [OF assms(1)] assms(2)] obtain i c where
    "i < length (pollfds r)" "pfd_key (pollfds r ! i) = fd" "chans r ref = Some c"
    "chan_fd c = fd" "index c = int i" "pfd_events (pollfds r ! i) = ucast (events c)" by blast
  then show ?thesis by auto
qed

theorem poller_consistent_witness:
  "\<exists>r. reach (\<lambda>r. \<exists>t. r = Poller_new t) reactor_step (r :: nat reactor) \<and> channel_map r 5 = Some 0 \<and>
     (\<exists>c. chans r 0 = Some c \<and> index c < int (length (pollfds r)))"
proof -
  obtain r :: "nat reactor" and c :: "nat channel" where r: "reach (\<lambda>r. \<exists>t. r = Poller_new t) reactor_step r"
    "channel_map r (chan_fd c) = Some 0" "chan_fd c = 5" by (rule sample_reactor) blast
  from poller_consistent [OF r(1,2)] r show ?thesis by - (rule exI [of _ r], auto)
qed

text \<open>
  C16. When \<open>poll\<close> behaves as documented, no assertion of \<open>fillActiveChannels\<close> fails; the active
  list holds exactly the channels of the entries with something to report, in the order of the
  array, and each of them has been given what the kernel reported for it.
\<close>

theorem poll_reports_ready:
  assumes "reactor_inv r" and "poll_doc (pollfds r) revs"
  shows "\<exists>r'. Poller_poll (PollReady revs) [] r = Inr (r', map (channel_at r) (ready r revs)) \<and>
    reactor_inv r' \<and>
    (\<forall>i \<in> set (ready r revs). \<exists>c. chans r' (channel_at r i) = Some c \<and> revents c = scast (revs ! i))"
  using Poller_poll_ok [OF assms] by blast

theorem poll_reports_ready_witness:
  "\<exists>r r'. reactor_inv (r :: nat reactor) \<and> Poller_poll (PollReady [1]) [] r = Inr (r', [0]) \<and>
     (\<exists>c. chans r' 0 = Some c \<and> revents c = POLLIN)"
proof -
  obtain r :: "nat reactor" and c where r: "reactor_inv r" "chans r 0 = Some c"
    "channel_map r (chan_fd c) = Some 0" "chan_fd c = 5" "pollfds r = [\<lparr>pfd_fd = 5, pfd_events = 3, pfd_revents = 0\<rparr>]"
    by (rule sample_reactor) blast
  then have doc: "poll_doc (pollfds r) [1]" by (simp add: poll_doc_def)
  from r have "ready r [1] = [0]" "channel_at r 0 = 0"
    by (simp_all add: ready_def channel_at_def short_pos_def)
  with poll_reports_ready [OF r(1) doc] r(1) show ?thesis by auto
qed

text \<open>
  Deregistration: for a registered channel, \<open>disableAll\<close> followed by \<open>removeChannel\<close> returns; the
  array loses exactly the entry of the channel, the registrations of all other channels stay, and
  the invariant holds again although the last entry has moved.
\<close>

theorem disableAll_removeChannel:
  assumes inv: "reactor_inv r" and c: "chans r ref = Some c" "channel_map r (chan_fd c) = Some ref"
    and self: "self = loop_tid r"
  shows "\<exists>r1 r2. disableAll self ref r = Inr r1 \<and> removeChannel self ref r1 = Inr r2 \<and> reactor_inv r2 \<and>
    channel_map r2 = (channel_map r)(chan_fd c := None) \<and>
    mset (pollfds r2) = mset (pollfds r) - {#pollfds r ! nat (index c)#} \<and>
    interest r2 ref = None \<and> (\<forall>d. d \<noteq> ref \<longrightarrow> interest r2 d = interest r d)"
  using deregister [OF assms] .

theorem disableAll_removeChannel_witness:
  "\<exists>r r1 r2. disableAll 1 0 (r :: nat reactor) = Inr r1 \<and> length (pollfds r) = 1 \<and>
     removeChannel 1 0 r1 = Inr r2 \<and> mset (pollfds r2) = mset (pollfds r) - {#pollfds r ! 0#}"
proof -
  obtain r :: "nat reactor" and c where r: "reactor_inv r" "chans r 0 = Some c"
    "channel_map r (chan_fd c) = Some 0" "index c = 0" "loop_tid r = 1"
    "pollfds r = [\<lparr>pfd_fd = 5, pfd_events = 3, pfd_revents = 0\<rparr>]"
    by (rule sample_reactor) blast
  from disableAll_removeChannel [OF r(1,2,3), of 1] r show ?thesis by - (rule exI [of _ r], auto)
qed

text \<open>
  A channel that has disabled all its events and enables reading again stays deaf: it is
  registered for reading, but its entry keeps the negative descriptor that makes \<open>poll\<close> ignore it,
  so no documented answer of \<open>poll\<close> makes it active.
\<close>

theorem reenabled_channel_is_ignored:
  assumes inv: "reactor_inv r" and c: "chans r ref = Some c" "channel_map r (chan_fd c) = Some ref"
    and self: "self = loop_tid r"
  shows "\<exists>r1 r2. disableAll self ref r = Inr r1 \<and> enableReading self ref r1 = Inr r2 \<and>
    interest r2 ref = Some kReadEvent \<and> pfd_fd (pollfds r2 ! nat (index c)) = - chan_fd c - 1 \<and>
    (\<forall>revs r3 active. poll_doc (pollfds r2) revs \<longrightarrow> Poller_poll (PollReady revs) [] r2 = Inr (r3, active) \<longrightarrow>
       ref \<notin> set active)"
proof -
  let ?c1 = "c\<lparr>events := kNoneEvent\<rparr>" and ?c2 = "c\<lparr>events := kReadEvent\<rparr>"
  let ?r1 = "updated ref ?c1 r"
  let ?r2 = "updated ref ?c2 ?r1"
  from inv_mapped [OF inv c(2)] c(1) obtain k where
    k: "k < length (pollfds r)" "index c = int k" "0 \<le> chan_fd c" by (metis option.inject)
  have op1: "disableAll self ref r = Inr ?r1"
    unfolding disableAll_def by (rule change_events_known [OF inv c self])
  then have inv1: "reactor_inv ?r1" unfolding disableAll_def by (rule reg.change_ok [OF inv])
  have ch1: "chans ?r1 ref = Some ?c1" "channel_map ?r1 (chan_fd ?c1) = Some ref" "self = loop_tid ?r1"
    using c self by (simp_all add: updated_def)
  from change_events_known [OF inv1 ch1, of "\<lambda>e. e OR kReadEvent"]
  have op2: "enableReading self ref ?r1 = Inr ?r2"
    by (simp add: enableReading_def kNoneEvent_def)
  then have inv2: "reactor_inv ?r2" unfolding enableReading_def by (rule reg.change_ok [OF inv1])
  from reg.change_change_self [OF inv op1 [unfolded disableAll_def] op2 [unfolded enableReading_def]] c(1)
  have int2: "interest ?r2 ref = Some kReadEvent" by (simp add: chan_bits_def kNoneEvent_def)
  have fd2: "pfd_fd (pollfds ?r2 ! k) = - chan_fd c - 1"
    using k by (simp add: updated_def entry_of_def Let_def isNoneEvent_def kNoneEvent_def)
  have "ref \<notin> set active" if doc: "poll_doc (pollfds ?r2) revs"
    and poll: "Poller_poll (PollReady revs) [] ?r2 = Inr (r3, active)" for revs r3 active
  proof
    assume "ref \<in> set active"
    moreover from Poller_poll_ok [OF inv2 doc] poll have "active = map (channel_at ?r2) (ready ?r2 revs)" by simp
    ultimately obtain i where i: "i < length (pollfds ?r2)" "short_pos (revs ! i)" "channel_at ?r2 i = ref"
      by (auto simp: ready_def)
    from ready_slot [OF inv2 doc i(1,2)] i(3) obtain d where "chans ?r2 ref = Some d" "index d = int i" by metis
    then have "i = k" using k by (auto simp: updated_def)
    with fd2 k(3) i(1) doc have "revs ! i = 0" by (simp add: poll_doc_def)
    with i(2) show False by simp
  qed
  with op1 op2 int2 fd2 k show ?thesis by auto
qed

theorem reenabled_channel_is_ignored_witness:
  "\<exists>r r1 r2. disableAll 1 0 (r :: nat reactor) = Inr r1 \<and> enableReading 1 0 r1 = Inr r2 \<and>
     interest r2 0 = Some kReadEvent \<and> pfd_fd (pollfds r2 ! 0) = -6"
proof -
  obtain r :: "nat reactor" and c where r: "reactor_inv r" "chans r 0 = Some c"
    "channel_map r (chan_fd c) = Some 0" "chan_fd c = 5" "index c = 0" "loop_tid r = 1"
    by (rule sample_reactor) blast
  from reenabled_channel_is_ignored [OF r(1,2,3), of 1] r(4-) show ?thesis
    by - (rule exI [of _ r], auto)
qed

end
