(* ===== verification/Timer_Queue.thy ===== *)
theory Timer_Queue
  imports Timestamps Interfaces "HOL-Library.Product_Lexorder"
begin

text \<open>
  Timer, TimerId and TimerQueue (src/net/Timer.h, Timer.cpp, TimerId.h, TimerQueue.h,
  TimerQueue.cpp): the timers of a loop, ordered by expiration.

  A \<open>Timer*\<close> is an address of the store \<open>theap\<close>; the two kinds of \<open>std::set\<close> are strictly sorted
  lists, in the lexicographic order of pairs; a TimerId is an address and a sequence number. The
  time of the system clock and the address returned by \<open>new\<close> are arguments. The timerfd is the
  absolute time in microseconds at which it will become readable, if it is armed.

  The callbacks of timers are names \<open>'cb\<close>; what a callback does to the queue is a function \<open>run\<close>,
  an argument of \<open>handleRead\<close>.
\<close>

section \<open>\<open>std::set\<close>\<close>

definition set_insert :: "'a::linorder \<Rightarrow> 'a list \<Rightarrow> bool \<times> 'a list" where
  "set_insert x xs = (if x \<in> set xs then (False, xs) else (True, insort x xs))"

definition set_erase :: "'a::linorder \<Rightarrow> 'a list \<Rightarrow> nat \<times> 'a list" where
  "set_erase x xs = (if x \<in> set xs then (1, remove1 x xs) else (0, xs))"

text \<open>The elements before and from \<open>lower_bound x\<close> on.\<close>

definition set_split :: "'a::linorder \<Rightarrow> 'a list \<Rightarrow> 'a list \<times> 'a list" where
  "set_split x xs = (takeWhile (\<lambda>y. y < x) xs, dropWhile (\<lambda>y. y < x) xs)"

definition set_ok :: "'a::linorder list \<Rightarrow> bool" where
  "set_ok xs \<longleftrightarrow> sorted xs \<and> distinct xs"

lemma split_sorted:
  "sorted xs \<Longrightarrow> set (takeWhile (\<lambda>y. y < x) xs) = {y \<in> set xs. y < (x::'a::linorder)} \<and>
     set (dropWhile (\<lambda>y. y < x) xs) = {y \<in> set xs. x \<le> y}"
proof (induction xs)
  case Nil
  then show ?case by simp
next
  case (Cons y ys)
  show ?case
  proof (cases "y < x")
    case True
    with Cons show ?thesis by auto
  next
    case False
    with Cons.prems have "\<forall>z \<in> set (y # ys). x \<le> z" by auto
    then have "\<forall>z \<in> set (y # ys). \<not> z < x" by (simp add: not_less)
    with False show ?thesis using \<open>\<forall>z \<in> set (y # ys). x \<le> z\<close> by auto
  qed
qed

interpretation os: ordered_set set_ok set length set_insert set_erase set_split
proof (unfold_locales, goal_cases)
  case (1 s x)
  then show ?case by (auto simp: set_ok_def set_insert_def sorted_insort distinct_insort set_insort_key)
next
  case (2 s x)
  then show ?case by (auto simp: set_ok_def set_erase_def sorted_remove1 set_remove1_eq)
next
  case (3 s x)
  then show ?case using split_sorted [of s x]
    by (auto simp: set_ok_def set_split_def sorted_takeWhile sorted_dropWhile distinct_takeWhile distinct_dropWhile)
next
  case (4 s)
  then show ?case by (simp add: set_ok_def distinct_card)
qed

lemma set_ok_Nil [simp]: "set_ok []"
  by (simp add: set_ok_def)

section \<open>State\<close>

type_synonym taddr = nat

record 'cb timer =
  callback :: 'cb
  expiration :: timestamp
  interval :: double
  repeat :: bool
  sequence :: int

record timer_id =
  timer_ptr :: taddr
  timer_seq :: int

record 'cb timer_queue =
  tq_tid :: nat
  timers :: "(timestamp \<times> taddr) list"
  callingExpiredTimers :: bool
  activeTimers :: "(taddr \<times> int) list"
  cancelingTimers :: "(taddr \<times> int) list"
  theap :: "taddr \<Rightarrow> 'cb timer option"
  numCreated :: int
  timerfd :: "int option"

definition UINTPTR_MAX :: taddr where "UINTPTR_MAX = 2 ^ 64 - 1"

text \<open>\<open>TimerId()\<close>: no timer.\<close>

definition TimerId_none :: timer_id where
  "TimerId_none = \<lparr>timer_ptr = 0, timer_seq = 0\<rparr>"

definition TimerQueue_new :: "nat \<Rightarrow> 'cb timer_queue" where
  "TimerQueue_new t = \<lparr>tq_tid = t, timers = [], callingExpiredTimers = False, activeTimers = [],
     cancelingTimers = [], theap = Map.empty, numCreated = 0, timerfd = None\<rparr>"

section \<open>Timers\<close>

definition Timer_new :: "'cb \<Rightarrow> timestamp \<Rightarrow> double \<Rightarrow> int \<Rightarrow> 'cb timer" where
  "Timer_new cb when intv seq = \<lparr>callback = cb, expiration = when, interval = intv,
     repeat = dpos intv, sequence = seq\<rparr>"

definition Timer_restart :: "timestamp \<Rightarrow> 'cb timer \<Rightarrow> 'cb timer result" where
  "Timer_restart now t =
     (if repeat t then rbind (addTime now (interval t)) (\<lambda>e. Inr (t\<lparr>expiration := e\<rparr>))
      else Inr (t\<lparr>expiration := invaild\<rparr>))"

definition tderef :: "taddr \<Rightarrow> ('cb timer \<Rightarrow> 'b result) \<Rightarrow> 'cb timer_queue \<Rightarrow> 'b result" where
  "tderef a f q = (case theap q a of None \<Rightarrow> Inl Dangling | Some t \<Rightarrow> f t)"

section \<open>The timerfd\<close>

definition createTimerfd :: "int syscall \<Rightarrow> int result" where
  "createTimerfd r = (case r of Err _ \<Rightarrow> Inl Aborted | Ret fd \<Rightarrow> Inr fd)"

definition howMuchTimeFromNow :: "timestamp \<Rightarrow> timestamp \<Rightarrow> (int \<times> int) result" where
  "howMuchTimeFromNow when now =
     (let diff = micros when - micros now;
          microseconds = (if diff < 100 then 100 else diff)
      in if in_int64 diff
         then Inr (cdiv microseconds kMicroSecondsPerSecond, cmod microseconds kMicroSecondsPerSecond * 1000)
         else Inl Overflow)"

definition resetTimerfd :: "timestamp \<Rightarrow> timestamp \<Rightarrow> 'cb timer_queue \<Rightarrow> 'cb timer_queue result" where
  "resetTimerfd expiry now q =
     rbind (howMuchTimeFromNow expiry now) (\<lambda>(s, ns).
       Inr (q\<lparr>timerfd := Some (micros now + s * 1000000 + ns div 1000)\<rparr>))"

text \<open>Reading the timerfd disarms it until it is set again (the interval is zero).\<close>

definition readTimerfd :: "'cb timer_queue \<Rightarrow> 'cb timer_queue" where
  "readTimerfd q = q\<lparr>timerfd := None\<rparr>"

section \<open>Operations\<close>

definition assertInLoop :: "nat \<Rightarrow> 'cb timer_queue \<Rightarrow> 'b result \<Rightarrow> 'b result" where
  "assertInLoop self q k = (if self = tq_tid q then k else Inl Aborted)"

definition sizes_agree :: "'cb timer_queue \<Rightarrow> bool" where
  "sizes_agree q \<longleftrightarrow> length (timers q) = length (activeTimers q)"

definition tq_insert :: "nat \<Rightarrow> taddr \<Rightarrow> 'cb timer_queue \<Rightarrow> (bool \<times> 'cb timer_queue) result" where
  "tq_insert self a q = assertInLoop self q
     (assertC (sizes_agree q)
     (tderef a (\<lambda>t.
       let when = expiration t;
           earliestChanged = (timers q = [] \<or> when < fst (hd (timers q)));
           r1 = set_insert (when, a) (timers q)
       in assertC (fst r1)
         (let r2 = set_insert (a, sequence t) (activeTimers q) in
          assertC (fst r2)
            (let q' = q\<lparr>timers := snd r1, activeTimers := snd r2\<rparr> in
             assertC (sizes_agree q') (Inr (earliestChanged, q'))))) q))"

definition addTimerInLoop :: "nat \<Rightarrow> taddr \<Rightarrow> timestamp \<Rightarrow> 'cb timer_queue \<Rightarrow> 'cb timer_queue result" where
  "addTimerInLoop self a now q = assertInLoop self q
     (rbind (tq_insert self a q) (\<lambda>(earliestChanged, q1).
        if earliestChanged then tderef a (\<lambda>t. resetTimerfd (expiration t) now q1) q1 else Inr q1))"

text \<open>\<open>new Timer(...)\<close> at the address \<open>a\<close>, and the identifier that \<open>addTimer\<close> returns.\<close>

definition create_timer ::
  "'cb \<Rightarrow> timestamp \<Rightarrow> double \<Rightarrow> taddr \<Rightarrow> 'cb timer_queue \<Rightarrow> timer_id \<times> 'cb timer_queue" where
  "create_timer cb when intv a q =
     (let seq = numCreated q + 1 in
      (\<lparr>timer_ptr = a, timer_seq = seq\<rparr>,
       q\<lparr>numCreated := seq, theap := (theap q)(a \<mapsto> Timer_new cb when intv seq)\<rparr>))"

text \<open>
  \<open>addTimer\<close> in the loop's own thread, where \<open>runInLoop\<close> calls at once. In another thread
  \<open>addTimerInLoop\<close> runs later, as a functor of the loop.
\<close>

definition addTimer ::
  "nat \<Rightarrow> 'cb \<Rightarrow> timestamp \<Rightarrow> double \<Rightarrow> taddr \<Rightarrow> timestamp \<Rightarrow> 'cb timer_queue \<Rightarrow> (timer_id \<times> 'cb timer_queue) result" where
  "addTimer self cb when intv a now q =
     (let r = create_timer cb when intv a q in
      rbind (addTimerInLoop self a now (snd r)) (\<lambda>q'. Inr (fst r, q')))"

definition cancelInLoop :: "nat \<Rightarrow> timer_id \<Rightarrow> 'cb timer_queue \<Rightarrow> 'cb timer_queue result" where
  "cancelInLoop self timerId q = assertInLoop self q
     (assertC (sizes_agree q)
     (let timer = (timer_ptr timerId, timer_seq timerId) in
      rbind
       (if timer \<in> set (activeTimers q)
        then tderef (fst timer) (\<lambda>t.
          let r = set_erase (expiration t, fst timer) (timers q) in
          assertC (fst r = 1)
            (Inr (q\<lparr>timers := snd r, theap := (theap q)(fst timer := None),
                    activeTimers := remove1 timer (activeTimers q)\<rparr>))) q
        else if callingExpiredTimers q
        then Inr (q\<lparr>cancelingTimers := snd (set_insert timer (cancelingTimers q))\<rparr>)
        else Inr q)
       (\<lambda>q'. assertC (sizes_agree q') (Inr q'))))"

definition erase_active :: "timestamp \<times> taddr \<Rightarrow> 'cb timer_queue \<Rightarrow> 'cb timer_queue result" where
  "erase_active entry q = tderef (snd entry) (\<lambda>t.
     let r = set_erase (snd entry, sequence t) (activeTimers q) in
     assertC (fst r = 1) (Inr (q\<lparr>activeTimers := snd r\<rparr>))) q"

definition getExpired ::
  "timestamp \<Rightarrow> 'cb timer_queue \<Rightarrow> ((timestamp \<times> taddr) list \<times> 'cb timer_queue) result" where
  "getExpired now q =
     assertC (sizes_agree q)
      (case set_split (now, UINTPTR_MAX) (timers q) of (expired, rest) \<Rightarrow>
       assertC (rest = [] \<or> now < fst (hd rest))
       (rbind (rfold erase_active expired (q\<lparr>timers := rest\<rparr>)) (\<lambda>q'.
        assertC (sizes_agree q') (Inr (expired, q')))))"

text \<open>
  The loop body of \<open>reset\<close>. The test for a repeating timer stands twice in the source, so the
  inner \<open>else\<close>, which would delete the timer, is never reached.
\<close>

definition reset_one :: "nat \<Rightarrow> timestamp \<Rightarrow> timestamp \<times> taddr \<Rightarrow> 'cb timer_queue \<Rightarrow> 'cb timer_queue result" where
  "reset_one self now entry q = tderef (snd entry) (\<lambda>t.
     if repeat t \<and> (snd entry, sequence t) \<notin> set (cancelingTimers q)
     then (if repeat t
           then rbind (Timer_restart now t) (\<lambda>t'.
                rbind (tq_insert self (snd entry) (q\<lparr>theap := (theap q)(snd entry \<mapsto> t')\<rparr>)) (\<lambda>(_, q'). Inr q'))
           else Inr (q\<lparr>theap := (theap q)(snd entry := None)\<rparr>))
     else Inr q) q"

definition tq_reset ::
  "nat \<Rightarrow> (timestamp \<times> taddr) list \<Rightarrow> timestamp \<Rightarrow> timestamp \<Rightarrow> 'cb timer_queue \<Rightarrow> 'cb timer_queue result" where
  "tq_reset self expired now now2 q =
     rbind (rfold (reset_one self now) expired q) (\<lambda>q.
     rbind (if timers q = [] then Inr (Timestamp 0)
            else tderef (snd (hd (timers q))) (\<lambda>t. Inr (expiration t)) q) (\<lambda>nextExpire.
     if valid nextExpire then resetTimerfd nextExpire now2 q else Inr q))"

definition run_timer ::
  "('cb \<Rightarrow> 'cb timer_queue \<Rightarrow> 'cb timer_queue result) \<Rightarrow> timestamp \<times> taddr \<Rightarrow> 'cb timer_queue \<Rightarrow> 'cb timer_queue result" where
  "run_timer run entry q = tderef (snd entry) (\<lambda>t. run (callback t) q) q"

definition tq_handleRead ::
  "nat \<Rightarrow> ('cb \<Rightarrow> 'cb timer_queue \<Rightarrow> 'cb timer_queue result) \<Rightarrow> timestamp \<Rightarrow> timestamp \<Rightarrow>
   'cb timer_queue \<Rightarrow> 'cb timer_queue result" where
  "tq_handleRead self run now now2 q = assertInLoop self q
     (let q = readTimerfd q in
      rbind (getExpired now q) (\<lambda>(expired, q).
      let q = q\<lparr>callingExpiredTimers := True, cancelingTimers := []\<rparr> in
      rbind (rfold (run_timer run) expired q) (\<lambda>q.
      let q = q\<lparr>callingExpiredTimers := False\<rparr> in
      tq_reset self expired now now2 q)))"

text \<open>The destructor deletes the timers that are still scheduled.\<close>

definition TimerQueue_dtor :: "'cb timer_queue \<Rightarrow> 'cb timer_queue" where
  "TimerQueue_dtor q = foldl (\<lambda>q e. q\<lparr>theap := (theap q)(snd e := None)\<rparr>) q (timers q)"

section \<open>Invariant\<close>

text \<open>The timer scheduled at an address: it is in the heap and its identity is active.\<close>

definition sched :: "'cb timer_queue \<Rightarrow> taddr \<Rightarrow> 'cb timer option" where
  "sched q a = (case theap q a of None \<Rightarrow> None
     | Some t \<Rightarrow> if (a, sequence t) \<in> set (activeTimers q) then Some t else None)"

text \<open>
  Both sets hold exactly the scheduled timers, so no pointer in them dangles; addresses are below
  the sentry of \<open>getExpired\<close> and times in the range of their type; sequence numbers identify the objects.
\<close>

definition tq_inv :: "'cb timer_queue \<Rightarrow> bool" where
  "tq_inv q \<longleftrightarrow> set_ok (timers q) \<and> set_ok (activeTimers q) \<and> set_ok (cancelingTimers q) \<and>
     (\<forall>e a. (e, a) \<in> set (timers q) \<longleftrightarrow> (\<exists>t. sched q a = Some t \<and> expiration t = e)) \<and>
     (\<forall>a n. (a, n) \<in> set (activeTimers q) \<longleftrightarrow> (\<exists>t. sched q a = Some t \<and> sequence t = n)) \<and>
     (\<forall>a t. theap q a = Some t \<longrightarrow> 0 < a \<and> a < UINTPTR_MAX \<and> sequence t \<le> numCreated q \<and>
       in_int64 (micros (expiration t)) \<and> repeat t = dpos (interval t)) \<and>
     (\<forall>a b t u. theap q a = Some t \<longrightarrow> theap q b = Some u \<longrightarrow> sequence t = sequence u \<longrightarrow> a = b)"

lemma tq_invD:
  assumes "tq_inv q"
  shows "set_ok (timers q)" "set_ok (activeTimers q)" "set_ok (cancelingTimers q)"
    and "(e, a) \<in> set (timers q) \<longleftrightarrow> (\<exists>t. sched q a = Some t \<and> expiration t = e)"
    and "(a, n) \<in> set (activeTimers q) \<longleftrightarrow> (\<exists>t. sched q a = Some t \<and> sequence t = n)"
    and "theap q a = Some t \<Longrightarrow> 0 < a \<and> a < UINTPTR_MAX \<and> sequence t \<le> numCreated q \<and>
      in_int64 (micros (expiration t)) \<and> repeat t = dpos (interval t)"
    and "theap q a = Some t \<Longrightarrow> theap q b = Some u \<Longrightarrow> sequence t = sequence u \<Longrightarrow> a = b"
  using assms unfolding tq_inv_def by blast+

lemma sched_heap: "sched q a = Some t \<Longrightarrow> theap q a = Some t"
  by (auto simp: sched_def split: option.splits if_splits)

lemma sched_None: "sched q a = None \<Longrightarrow> theap q a = Some t \<Longrightarrow> (a, sequence t) \<notin> set (activeTimers q)"
  by (auto simp: sched_def split: if_splits)

lemma sched_cong: "theap q' = theap q \<Longrightarrow> activeTimers q' = activeTimers q \<Longrightarrow> sched q' = sched q"
  by (rule ext) (auto simp: sched_def split: option.splits)

lemma sched_canceling [simp]: "sched (q\<lparr>cancelingTimers := c\<rparr>) = sched q"
  by (rule sched_cong) simp_all

lemma active_sched: "tq_inv q \<Longrightarrow> (a, n) \<in> set (activeTimers q) \<longleftrightarrow> (\<exists>t. sched q a = Some t \<and> sequence t = n)"
  by (rule tq_invD(5))

lemma timers_sched: "tq_inv q \<Longrightarrow> (e, a) \<in> set (timers q) \<longleftrightarrow> (\<exists>t. sched q a = Some t \<and> expiration t = e)"
  by (rule tq_invD(4))

text \<open>The assertion that stands at the start and end of the operations.\<close>

lemma sizes_agreeI:
  assumes "set_ok (timers q)" and "set_ok (activeTimers q)"
    and "\<And>e a. (e, a) \<in> set (timers q) \<longleftrightarrow> (\<exists>t. sched q a = Some t \<and> expiration t = e)"
    and "\<And>a n. (a, n) \<in> set (activeTimers q) \<longleftrightarrow> (\<exists>t. sched q a = Some t \<and> sequence t = n)"
  shows "sizes_agree q"
proof -
  have "set (timers q) = (\<lambda>a. (expiration (the (sched q a)), a)) ` dom (sched q)"
    using assms(3) by (auto simp: image_iff dom_def)
  moreover have "set (activeTimers q) = (\<lambda>a. (a, sequence (the (sched q a)))) ` dom (sched q)"
    using assms(4) by (auto simp: image_iff dom_def)
  ultimately have "length (timers q) = card (dom (sched q))" "length (activeTimers q) = card (dom (sched q))"
    using os.count_image [OF assms(1), of "\<lambda>a. (expiration (the (sched q a)), a)"]
      os.count_image [OF assms(2), of "\<lambda>a. (a, sequence (the (sched q a)))"]
    by (auto simp: inj_on_def)
  then show ?thesis by (simp add: sizes_agree_def)
qed

lemma tq_inv_sizes: "tq_inv q \<Longrightarrow> sizes_agree q"
  by (rule sizes_agreeI) (simp_all add: tq_invD)

lemma TimerQueue_new_inv: "tq_inv (TimerQueue_new t)"
  by (simp add: tq_inv_def TimerQueue_new_def sched_def)

text \<open>An invariant queue is well formed after a change that keeps what is scheduled.\<close>

lemma tq_inv_frame:
  assumes "tq_inv q" and "theap q' = theap q" and "timers q' = timers q"
    and "activeTimers q' = activeTimers q" and "set_ok (cancelingTimers q')" and "numCreated q \<le> numCreated q'"
  shows "tq_inv q'"
  using assms sched_cong [OF assms(2,4)] unfolding tq_inv_def by (simp, meson order_trans)

section \<open>Insertion\<close>

definition inserted :: "taddr \<Rightarrow> 'cb timer \<Rightarrow> 'cb timer_queue \<Rightarrow> 'cb timer_queue" where
  "inserted a t q = q\<lparr>timers := snd (set_insert (expiration t, a) (timers q)),
     activeTimers := snd (set_insert (a, sequence t) (activeTimers q))\<rparr>"

lemma inserted_frame [simp]:
  "theap (inserted a t q) = theap q" "tq_tid (inserted a t q) = tq_tid q"
  "callingExpiredTimers (inserted a t q) = callingExpiredTimers q"
  "cancelingTimers (inserted a t q) = cancelingTimers q" "numCreated (inserted a t q) = numCreated q"
  "timerfd (inserted a t q) = timerfd q"
  by (simp_all add: inserted_def)

lemma inserted_facts:
  assumes inv: "tq_inv q" and t: "theap q a = Some t" and free: "sched q a = None"
  shows inserted_inv: "tq_inv (inserted a t q)"
    and inserted_sched: "sched (inserted a t q) = (sched q)(a \<mapsto> t)"
    and inserted_new: "fst (set_insert (expiration t, a) (timers q))"
      "fst (set_insert (a, sequence t) (activeTimers q))"
    and inserted_timers: "set (timers (inserted a t q)) = insert (expiration t, a) (set (timers q))"
proof -
  have n1: "(expiration t, a) \<notin> set (timers q)" using free by (simp add: timers_sched [OF inv])
  have n2: "(a, sequence t) \<notin> set (activeTimers q)" using free by (simp add: active_sched [OF inv])
  note i1 = os.ins_new [OF tq_invD(1) [OF inv] n1] and i2 = os.ins_new [OF tq_invD(2) [OF inv] n2]
  have s: "sched (inserted a t q) = (sched q)(a \<mapsto> t)"
    using t i2 by (auto simp: fun_eq_iff sched_def inserted_def split: option.splits)
  moreover have "set (timers (inserted a t q)) = insert (expiration t, a) (set (timers q))"
    "set (activeTimers (inserted a t q)) = insert (a, sequence t) (set (activeTimers q))"
    using i1 i2 by (simp_all add: inserted_def)
  moreover have "set_ok (timers (inserted a t q))" "set_ok (activeTimers (inserted a t q))"
    using i1 i2 by (simp_all add: inserted_def)
  ultimately show "tq_inv (inserted a t q)"
    using inv free unfolding tq_inv_def by simp blast
  show "sched (inserted a t q) = (sched q)(a \<mapsto> t)" by (rule s)
  show "fst (set_insert (expiration t, a) (timers q))" "fst (set_insert (a, sequence t) (activeTimers q))"
    using i1 i2 by blast+
  show "set (timers (inserted a t q)) = insert (expiration t, a) (set (timers q))"
    using i1 by (simp add: inserted_def)
qed

lemma tq_insert_eq:
  assumes inv: "tq_inv q" and t: "theap q a = Some t" "sched q a = None" and self: "self = tq_tid q"
  shows "tq_insert self a q = Inr (timers q = [] \<or> expiration t < fst (hd (timers q)), inserted a t q)"
  using tq_inv_sizes [OF inv] tq_inv_sizes [OF inserted_inv [OF inv t]] inserted_new [OF inv t] t self
  by (simp add: tq_insert_def assertInLoop_def tderef_def Let_def inserted_def)
section \<open>Cancelling\<close>

lemma cancel_hit:
  assumes inv: "tq_inv q" and t: "sched q (timer_ptr i) = Some t" "sequence t = timer_seq i" and self: "self = tq_tid q"
  shows "\<exists>q'. cancelInLoop self i q = Inr q' \<and> tq_inv q' \<and> sched q' = (sched q)(timer_ptr i := None) \<and>
    theap q' = (theap q)(timer_ptr i := None) \<and> tq_tid q' = tq_tid q \<and> numCreated q' = numCreated q \<and>
    callingExpiredTimers q' = callingExpiredTimers q \<and> cancelingTimers q' = cancelingTimers q \<and> timerfd q' = timerfd q \<and>
    set (timers q') = set (timers q) - {(expiration t, timer_ptr i)}"
proof -
  let ?a = "timer_ptr i"
  let ?q = "q\<lparr>timers := snd (set_erase (expiration t, ?a) (timers q)), theap := (theap q)(?a := None),
    activeTimers := snd (set_erase (?a, sequence t) (activeTimers q))\<rparr>"
  have m1: "(expiration t, ?a) \<in> set (timers q)" using t by (simp add: timers_sched [OF inv])
  have m2: "(?a, sequence t) \<in> set (activeTimers q)" using t by (simp add: active_sched [OF inv])
  note d1 = os.del_member [OF tq_invD(1) [OF inv] m1] and d2 = os.del_member [OF tq_invD(2) [OF inv] m2]
  have h: "theap q ?a = Some t" using t(1) by (rule sched_heap)
  have s: "sched ?q = (sched q)(?a := None)"
    using d2 by (auto simp: fun_eq_iff sched_def split: option.splits)
  then have inv': "tq_inv ?q"
    using d1 d2 inv t unfolding tq_inv_def by simp
  have "cancelInLoop self i q = Inr ?q"
    using tq_inv_sizes [OF inv] tq_inv_sizes [OF inv'] d1 m2 h t self
    by (simp add: cancelInLoop_def assertInLoop_def tderef_def Let_def set_erase_def)
  with inv' s d1 show ?thesis by simp
qed

lemma cancel_miss:
  assumes inv: "tq_inv q" and t: "\<nexists>t. sched q (timer_ptr i) = Some t \<and> sequence t = timer_seq i" and self: "self = tq_tid q"
  shows "cancelInLoop self i q = Inr (if callingExpiredTimers q
    then q\<lparr>cancelingTimers := snd (set_insert (timer_ptr i, timer_seq i) (cancelingTimers q))\<rparr> else q)"
    and "tq_inv (if callingExpiredTimers q
    then q\<lparr>cancelingTimers := snd (set_insert (timer_ptr i, timer_seq i) (cancelingTimers q))\<rparr> else q)" (is "tq_inv ?q")
proof -
  have "(timer_ptr i, timer_seq i) \<notin> set (activeTimers q)" using t by (simp add: active_sched [OF inv])
  with tq_inv_sizes [OF inv] self show "cancelInLoop self i q = Inr ?q"
    by (simp add: cancelInLoop_def assertInLoop_def sizes_agree_def)
  show "tq_inv ?q"
    using os.ins_law [OF tq_invD(3) [OF inv]] by (intro tq_inv_frame [OF inv]) (simp_all add: tq_invD(3) [OF inv])
qed

section \<open>Taking the expired timers\<close>

definition due :: "timestamp \<Rightarrow> 'cb timer_queue \<Rightarrow> (timestamp \<times> taddr) list" where
  "due now q = fst (set_split (now, UINTPTR_MAX) (timers q))"

lemma due_set:
  assumes "tq_inv q"
  shows "(e, a) \<in> set (due now q) \<longleftrightarrow> (\<exists>t. sched q a = Some t \<and> expiration t = e \<and> e \<le> now)"
proof -
  have "(e, a) \<in> set (timers q) \<Longrightarrow> a < UINTPTR_MAX"
    using timers_sched [OF assms, of e a] sched_heap tq_invD(6) [OF assms] by metis
  then show ?thesis
    using os.split_law [OF tq_invD(1) [OF assms], of "(now, UINTPTR_MAX)"] timers_sched [OF assms, of e a]
    by (auto simp: due_def)
qed

lemma due_ok: "tq_inv q \<Longrightarrow> set_ok (due now q)"
  using os.split_law [OF tq_invD(1), of q "(now, UINTPTR_MAX)"] by (simp add: due_def)

lemma due_distinct:
  assumes "tq_inv q"
  shows "distinct (map snd (due now q))"
proof -
  have "inj_on snd (set (due now q))"
  proof (rule inj_onI)
    fix x y assume "x \<in> set (due now q)" "y \<in> set (due now q)" "snd x = snd y"
    moreover obtain e a f b where "x = (e, a)" "y = (f, b)" by fastforce
    ultimately show "x = y" using due_set [OF assms] by fastforce
  qed
  with due_ok [OF assms] show ?thesis by (simp add: distinct_map set_ok_def)
qed

lemma erase_active_loop:
  assumes "set_ok (activeTimers q)" and "distinct (map snd es)"
    and "\<And>a. a \<in> snd ` set es \<Longrightarrow> \<exists>t. theap q a = Some t \<and> (a, sequence t) \<in> set (activeTimers q)"
  shows "\<exists>as. rfold erase_active es q = Inr (q\<lparr>activeTimers := as\<rparr>) \<and> set_ok as \<and>
    (\<forall>a n. (a, n) \<in> set as \<longleftrightarrow> (a, n) \<in> set (activeTimers q) \<and>
      \<not> (a \<in> snd ` set es \<and> map_option sequence (theap q a) = Some n))"
  using assms
proof (induction es arbitrary: q)
  case Nil
  then show ?case by (intro exI [of _ "activeTimers q"]) simp
next
  case (Cons e es)
  obtain t where t: "theap q (snd e) = Some t" "(snd e, sequence t) \<in> set (activeTimers q)"
    using Cons.prems(3) [of "snd e"] by auto
  let ?q = "q\<lparr>activeTimers := snd (set_erase (snd e, sequence t) (activeTimers q))\<rparr>"
  note d = os.del_member [OF Cons.prems(1) t(2)]
  have "erase_active e q = Inr ?q" using d t by (simp add: erase_active_def tderef_def Let_def)
  moreover have "\<exists>u. theap ?q a = Some u \<and> (a, sequence u) \<in> set (activeTimers ?q)" if "a \<in> snd ` set es" for a
  proof -
    from that Cons.prems(2) have "a \<noteq> snd e" by (auto simp: image_iff)
    moreover from that Cons.prems(3) [of a] obtain u where "theap q a = Some u" "(a, sequence u) \<in> set (activeTimers q)"
      by auto
    ultimately show ?thesis using d by auto
  qed
  ultimately obtain as where as: "rfold erase_active (e # es) q = Inr (?q\<lparr>activeTimers := as\<rparr>)" "set_ok as"
    and mem: "(a, n) \<in> set as \<longleftrightarrow> (a, n) \<in> set (activeTimers ?q) \<and>
      \<not> (a \<in> snd ` set es \<and> map_option sequence (theap ?q a) = Some n)" for a n
    using Cons.IH [of ?q] Cons.prems(2) d by auto
  have "(a, n) \<in> set as \<longleftrightarrow> (a, n) \<in> set (activeTimers q) \<and>
      \<not> (a \<in> snd ` set (e # es) \<and> map_option sequence (theap q a) = Some n)" for a n
  proof -
    have "(a, n) \<in> set (activeTimers ?q) \<longleftrightarrow> (a, n) \<in> set (activeTimers q) \<and> (a, n) \<noteq> (snd e, sequence t)"
      using d by simp
    then show ?thesis using t(1) by (cases "a = snd e") (simp_all add: mem, blast)
  qed
  with as show ?case by auto
qed

lemma getExpired_eq:
  assumes inv: "tq_inv q"
  shows "\<exists>q'. getExpired now q = Inr (due now q, q') \<and> tq_inv q' \<and>
    sched q' = (\<lambda>a. case sched q a of None \<Rightarrow> None | Some t \<Rightarrow> if expiration t \<le> now then None else Some t) \<and>
    theap q' = theap q \<and> tq_tid q' = tq_tid q \<and> numCreated q' = numCreated q \<and> timerfd q' = timerfd q"
proof -
  define rest where "rest = snd (set_split (now, UINTPTR_MAX) (timers q))"
  have sp: "set_split (now, UINTPTR_MAX) (timers q) = (due now q, rest)"
    by (simp add: due_def rest_def)
  have rest: "set_ok rest" "set rest = {y \<in> set (timers q). (now, UINTPTR_MAX) \<le> y}"
    using os.split_law [OF tq_invD(1) [OF inv], of "(now, UINTPTR_MAX)"] by (simp_all add: rest_def)
  have bound: "a < UINTPTR_MAX" if "(e, a) \<in> set (timers q)" for e a
    using that timers_sched [OF inv, of e a] sched_heap tq_invD(6) [OF inv] by metis
  have rest_iff: "(e, a) \<in> set rest \<longleftrightarrow> (e, a) \<in> set (timers q) \<and> now < e" for e a
    using rest(2) bound [of e a] by auto
  have hd: "rest = [] \<or> now < fst (hd rest)"
    using rest_iff [of "fst (hd rest)" "snd (hd rest)"] by (cases rest) auto
  have live: "\<exists>t. theap (q\<lparr>timers := rest\<rparr>) a = Some t \<and> (a, sequence t) \<in> set (activeTimers (q\<lparr>timers := rest\<rparr>))"
    if "a \<in> snd ` set (due now q)" for a
    using that due_set [OF inv] sched_heap by (fastforce simp: active_sched [OF inv])
  have ok: "set_ok (activeTimers (q\<lparr>timers := rest\<rparr>))" using tq_invD(2) [OF inv] by simp
  obtain as where as: "rfold erase_active (due now q) (q\<lparr>timers := rest\<rparr>) = Inr (q\<lparr>timers := rest\<rparr>\<lparr>activeTimers := as\<rparr>)"
    "set_ok as" and gone: "(a, n) \<in> set as \<longleftrightarrow> (a, n) \<in> set (activeTimers (q\<lparr>timers := rest\<rparr>)) \<and>
      \<not> (a \<in> snd ` set (due now q) \<and> map_option sequence (theap (q\<lparr>timers := rest\<rparr>) a) = Some n)" for a n
    using erase_active_loop [OF ok due_distinct [OF inv, of now] live] by blast
  let ?q = "q\<lparr>timers := rest, activeTimers := as\<rparr>"
  have mem: "a \<in> snd ` set (due now q) \<longleftrightarrow> (\<exists>t. sched q a = Some t \<and> expiration t \<le> now)" for a
    using due_set [OF inv] by (force simp: image_iff)
  have active: "(a, n) \<in> set as \<longleftrightarrow> (\<exists>t. sched q a = Some t \<and> sequence t = n \<and> now < expiration t)" for a n
  proof (cases "sched q a")
    case None
    then show ?thesis by (simp add: gone active_sched [OF inv])
  next
    case (Some t)
    then show ?thesis using sched_heap [OF Some] by (auto simp: gone mem active_sched [OF inv] not_le)
  qed
  have sched: "sched ?q a = (case sched q a of None \<Rightarrow> None | Some t \<Rightarrow> if expiration t \<le> now then None else Some t)" for a
  proof (cases "sched q a")
    case None
    then show ?thesis by (auto simp: sched_def [of ?q] active split: option.splits)
  next
    case (Some t)
    then show ?thesis using sched_heap [OF Some] by (auto simp: sched_def [of ?q] active not_le)
  qed
  have "set_ok (cancelingTimers q)" by (rule tq_invD(3) [OF inv])
  then have inv': "tq_inv ?q"
    unfolding tq_inv_def sched
    using tq_invD(6,7) [OF inv] rest(1) as(2) rest_iff active
    by (simp add: timers_sched [OF inv] split: option.splits) (auto simp: not_le)
  have "getExpired now q = Inr (due now q, ?q)"
    using tq_inv_sizes [OF inv] tq_inv_sizes [OF inv'] as(1) hd
    by (simp add: getExpired_def sp)
  with inv' sched show ?thesis by auto
qed
text \<open>The same as a partition of the two sets, a function of the old state alone.\<close>

definition expire_ref ::
  "timestamp \<Rightarrow> 'cb timer_queue \<Rightarrow> (timestamp \<times> taddr) list \<times> 'cb timer_queue" where
  "expire_ref now q = (filter (\<lambda>e. fst e \<le> now) (timers q),
     q\<lparr>timers := filter (\<lambda>e. now < fst e) (timers q),
       activeTimers := filter (\<lambda>(a, n). case theap q a of None \<Rightarrow> True | Some t \<Rightarrow> now < expiration t) (activeTimers q)\<rparr>)"

lemma set_ok_unique: "set_ok xs \<Longrightarrow> set_ok ys \<Longrightarrow> set xs = set ys \<Longrightarrow> xs = ys"
  by (simp add: set_ok_def sorted_distinct_set_unique)

lemma set_ok_filter: "set_ok xs \<Longrightarrow> set_ok (filter P xs)"
  by (simp add: set_ok_def sorted_filter [where f = id, simplified])

lemma getExpired_shape:
  assumes "getExpired now q = Inr (es, q')"
  shows "\<exists>ts as. q' = q\<lparr>timers := ts, activeTimers := as\<rparr>"
proof -
  obtain expired rest where "set_split (now, UINTPTR_MAX) (timers q) = (expired, rest)" by fastforce
  with assms have loop: "rfold erase_active expired (q\<lparr>timers := rest\<rparr>) = Inr q'"
    by (auto simp: getExpired_def result_simps)
  have "\<exists>as. q' = q\<lparr>timers := rest, activeTimers := as\<rparr>"
  proof (rule rfold_inv [OF _ _ loop, where P = "\<lambda>p. \<exists>as. p = q\<lparr>timers := rest, activeTimers := as\<rparr>"])
    show "\<exists>as. s' = q\<lparr>timers := rest, activeTimers := as\<rparr>"
      if "\<exists>as. s = q\<lparr>timers := rest, activeTimers := as\<rparr>" "erase_active e s = Inr s'" for e s s'
      using that by (auto simp: erase_active_def tderef_def Let_def result_simps split: option.splits)
    show "\<exists>as. q\<lparr>timers := rest\<rparr> = q\<lparr>timers := rest, activeTimers := as\<rparr>" by (intro exI [of _ "activeTimers q"]) simp
  qed
  then show ?thesis by blast
qed

section \<open>The operations a callback may use\<close>

lemma howMuchTimeFromNow_eq:
  assumes "in_int64 (micros when - micros now)"
  shows "howMuchTimeFromNow when now =
    (let us = max 100 (micros when - micros now) in Inr (us div 1000000, us mod 1000000 * 1000))"
  using assms by (simp add: howMuchTimeFromNow_def Let_def kMicroSecondsPerSecond_def cdiv_nonneg cmod_nonneg max_def)

definition deadline :: "timestamp \<Rightarrow> timestamp \<Rightarrow> int" where
  "deadline e now = micros now + max 100 (micros e - micros now)"

lemma resetTimerfd_eq:
  "in_int64 (micros e - micros now) \<Longrightarrow> resetTimerfd e now q = Inr (q\<lparr>timerfd := Some (deadline e now)\<rparr>)"
  by (simp add: resetTimerfd_def howMuchTimeFromNow_eq Let_def deadline_def)

lemma resetTimerfd_Inr:
  "resetTimerfd e now q = Inr q' \<Longrightarrow> q' = q\<lparr>timerfd := Some (deadline e now)\<rparr>"
  by (cases "in_int64 (micros e - micros now)") (simp_all add: resetTimerfd_eq, simp add: resetTimerfd_def howMuchTimeFromNow_def Let_def)

definition fresh :: "taddr \<Rightarrow> 'cb timer_queue \<Rightarrow> bool" where
  "fresh a q \<longleftrightarrow> theap q a = None \<and> 0 < a \<and> a < UINTPTR_MAX"

text \<open>
  A callback, which runs in the loop's thread, may add and cancel timers; meanwhile other threads
  may create timers and other loops may take sequence numbers.
\<close>

inductive tq_op :: "'cb timer_queue \<Rightarrow> 'cb timer_queue \<Rightarrow> bool" where
  op_add: "fresh a q \<Longrightarrow> in_int64 (micros when) \<Longrightarrow>
    addTimer (tq_tid q) cb when intv a now q = Inr (i, q') \<Longrightarrow> tq_op q q'"
| op_cancel: "cancelInLoop (tq_tid q) i q = Inr q' \<Longrightarrow> tq_op q q'"
| op_create: "fresh a q \<Longrightarrow> in_int64 (micros when) \<Longrightarrow> tq_op q (snd (create_timer cb when intv a q))"
| op_elsewhere: "tq_op q (q\<lparr>numCreated := numCreated q + 1\<rparr>)"

text \<open>What such operations leave alone: the timers that exist and are not scheduled.\<close>

definition keeps :: "'cb timer_queue \<Rightarrow> 'cb timer_queue \<Rightarrow> bool" where
  "keeps q q' \<longleftrightarrow> tq_tid q' = tq_tid q \<and> callingExpiredTimers q' = callingExpiredTimers q \<and>
     set (cancelingTimers q) \<subseteq> set (cancelingTimers q') \<and> numCreated q \<le> numCreated q' \<and>
     (\<forall>a t. theap q a = Some t \<longrightarrow> sched q a = None \<longrightarrow> theap q' a = Some t \<and> sched q' a = None)"

lemma keeps_refl: "keeps q q"
  by (simp add: keeps_def)

lemma keeps_trans: "keeps p q \<Longrightarrow> keeps q r \<Longrightarrow> keeps p r"
  unfolding keeps_def by (simp, meson order_trans)

lemma create_timer_ok:
  assumes inv: "tq_inv q" and f: "fresh a q" and w: "in_int64 (micros when)"
    and q': "q' = snd (create_timer cb when intv a q)"
  shows "tq_inv q'" "sched q' = sched q" "keeps q q'" "timers q' = timers q" "timerfd q' = timerfd q"
    "theap q' = (theap q)(a \<mapsto> Timer_new cb when intv (numCreated q + 1))" "tq_tid q' = tq_tid q"
    "sched q' a = None"
proof -
  have h: "theap q' = (theap q)(a \<mapsto> Timer_new cb when intv (numCreated q + 1))" "activeTimers q' = activeTimers q"
    "timers q' = timers q" "cancelingTimers q' = cancelingTimers q" "numCreated q' = numCreated q + 1"
    "tq_tid q' = tq_tid q" "callingExpiredTimers q' = callingExpiredTimers q" "timerfd q' = timerfd q"
    by (simp_all add: q' create_timer_def Let_def)
  have "theap q a = None" using f by (simp add: fresh_def)
  then have free: "sched q a = None" by (simp add: sched_def)
  then have "(a, n) \<notin> set (activeTimers q)" for n by (simp add: active_sched [OF inv])
  then have s: "sched q' = sched q"
    using free by (auto simp: fun_eq_iff sched_def h split: option.splits)
  then show "sched q' = sched q" "sched q' a = None" using free by simp_all
  have old: "theap q b = Some t \<Longrightarrow> sequence t \<le> numCreated q" for b t
    using tq_invD(6) [OF inv] by blast
  then have new: "theap q b = Some t \<Longrightarrow> sequence t \<noteq> numCreated q + 1 \<and> sequence t \<le> numCreated q + 1" for b t by fastforce
  show "tq_inv q'"
    unfolding tq_inv_def s h(2-5)
    using tq_invD(1-3) [OF inv] tq_invD(6) [OF inv] tq_invD(7) [OF inv] f w new
    by (auto simp: h timers_sched [OF inv] active_sched [OF inv] Timer_new_def fresh_def
        dest: new)
  show "keeps q q'"
    using f by (auto simp: keeps_def s h fresh_def)
qed (simp_all add: q' create_timer_def Let_def)

lemma addTimerInLoop_ok:
  assumes inv: "tq_inv q" and t: "theap q a = Some t" "sched q a = None" and self: "self = tq_tid q"
    and add: "addTimerInLoop self a now q = Inr q'"
  shows "tq_inv q'" "sched q' = (sched q)(a \<mapsto> t)" "theap q' = theap q" "keeps (q\<lparr>theap := (theap q)(a := None)\<rparr>) q'"
    "set (timers q') = insert (expiration t, a) (set (timers q))"
    "timerfd q' = (if timers q = [] \<or> expiration t < fst (hd (timers q)) then Some (deadline (expiration t) now) else timerfd q)"
proof -
  let ?i = "inserted a t q"
  from add have "\<exists>fd. q' = ?i\<lparr>timerfd := fd\<rparr> \<and>
      fd = (if timers q = [] \<or> expiration t < fst (hd (timers q)) then Some (deadline (expiration t) now) else timerfd q)"
    using t self by (auto simp: addTimerInLoop_def assertInLoop_def tq_insert_eq [OF inv t refl] tderef_def
        dest!: resetTimerfd_Inr split: if_splits)
  then obtain fd where q': "q' = ?i\<lparr>timerfd := fd\<rparr>"
    and fd: "fd = (if timers q = [] \<or> expiration t < fst (hd (timers q)) then Some (deadline (expiration t) now) else timerfd q)"
    by blast
  note inv_i = inserted_inv [OF inv t]
  show "tq_inv q'" by (rule tq_inv_frame [OF inv_i]) (simp_all add: q' tq_invD(3) [OF inv])
  show s: "sched q' = (sched q)(a \<mapsto> t)"
    using inserted_sched [OF inv t] by (subst sched_cong [of q' ?i]) (simp_all add: q')
  show "theap q' = theap q" by (simp add: q')
  show "set (timers q') = insert (expiration t, a) (set (timers q))"
    using inserted_timers [OF inv t] by (simp add: q')
  show "timerfd q' = (if timers q = [] \<or> expiration t < fst (hd (timers q)) then Some (deadline (expiration t) now) else timerfd q)"
    unfolding fd [symmetric] by (simp add: q')
  show "keeps (q\<lparr>theap := (theap q)(a := None)\<rparr>) q'"
    unfolding keeps_def s by (auto simp: q' sched_def)
qed
text \<open>A timer that is due before the epoch began is never left without an armed timerfd.\<close>

definition past_armed :: "'cb timer_queue \<Rightarrow> bool" where
  "past_armed q \<longleftrightarrow> (\<forall>e \<in> set (timers q). \<not> valid (fst e) \<longrightarrow> timerfd q \<noteq> None)"

definition armed :: "'cb timer_queue \<Rightarrow> bool" where
  "armed q \<longleftrightarrow> (timers q \<noteq> [] \<longrightarrow> timerfd q \<noteq> None)"

lemma addTimer_ok:
  assumes inv: "tq_inv q" and f: "fresh a q" and w: "in_int64 (micros when)"
    and add: "addTimer (tq_tid q) cb when intv a now q = Inr (i, q')"
  shows "tq_inv q'" "sched q' = (sched q)(a \<mapsto> Timer_new cb when intv (numCreated q + 1))" "keeps q q'"
    "i = \<lparr>timer_ptr = a, timer_seq = numCreated q + 1\<rparr>"
    "theap q' = (theap q)(a \<mapsto> Timer_new cb when intv (numCreated q + 1))"
    "set (timers q') = insert (when, a) (set (timers q))"
    "timerfd q' = (if timers q = [] \<or> when < fst (hd (timers q)) then Some (deadline when now) else timerfd q)"
proof -
  let ?c = "snd (create_timer cb when intv a q)" and ?t = "Timer_new cb when intv (numCreated q + 1)"
  note c = create_timer_ok [OF inv f w refl, of cb intv]
  from add have l: "addTimerInLoop (tq_tid q) a now ?c = Inr q'" and "i = fst (create_timer cb when intv a q)"
    by (auto simp: addTimer_def Let_def result_simps)
  then show "i = \<lparr>timer_ptr = a, timer_seq = numCreated q + 1\<rparr>" by (simp add: create_timer_def Let_def)
  have t: "theap ?c a = Some ?t" using c by simp
  have self: "tq_tid q = tq_tid ?c" using c by simp
  note r = addTimerInLoop_ok [OF c(1) t c(8) self l]
  show "tq_inv q'" by (rule r(1))
  show s: "sched q' = (sched q)(a \<mapsto> ?t)" using r(2) c(2) by simp
  show h: "theap q' = (theap q)(a \<mapsto> ?t)" using r(3) c(6) by simp
  show "set (timers q') = insert (when, a) (set (timers q))" using r(5) c(4) by (simp add: Timer_new_def)
  show "timerfd q' = (if timers q = [] \<or> when < fst (hd (timers q)) then Some (deadline when now) else timerfd q)"
    using r(6) c(4,5) by (simp add: Timer_new_def)
  show "keeps q q'"
    using c(3) r(4) f unfolding keeps_def s h by (auto simp: fresh_def intro: order_trans)
qed

lemma cancel_ok:
  assumes inv: "tq_inv q" and c: "cancelInLoop (tq_tid q) i q = Inr q'"
  shows "tq_inv q' \<and> keeps q q' \<and> timerfd q' = timerfd q \<and> set (timers q') \<subseteq> set (timers q)"
proof (cases "\<exists>t. sched q (timer_ptr i) = Some t \<and> sequence t = timer_seq i")
  case True
  then obtain t where t: "sched q (timer_ptr i) = Some t" "sequence t = timer_seq i" by blast
  from cancel_hit [OF inv t refl] c t(1) show ?thesis by (auto simp: keeps_def)
next
  case False
  from cancel_miss [OF inv False refl] c os.ins_law [OF tq_invD(3) [OF inv]] show ?thesis
    by (auto simp: keeps_def sched_def split: if_splits)
qed

lemma hd_least: "set_ok xs \<Longrightarrow> x \<in> set xs \<Longrightarrow> hd xs \<le> (x :: 'a::linorder)"
  by (cases xs) (auto simp: set_ok_def)

lemma tq_op_ok:
  assumes "tq_op q q'" and inv: "tq_inv q"
  shows "tq_inv q' \<and> keeps q q' \<and> (past_armed q \<longrightarrow> past_armed q') \<and> (armed q \<longrightarrow> armed q')"
  using assms(1)
proof cases
  case (op_add a w cb intv now i)
  note r = addTimer_ok [OF inv op_add]
  have "timerfd q' \<noteq> None" if "past_armed q" and v: "\<not> valid w"
  proof (cases "timers q = [] \<or> w < fst (hd (timers q))")
    case False
    then have "\<not> valid (fst (hd (timers q)))" using v by (simp add: valid_def less_timestamp_def)
    with False that(1) r(7) show ?thesis by (auto simp: past_armed_def)
  qed (simp add: r(7))
  then have "past_armed q \<longrightarrow> past_armed q'" using r(6,7) by (auto simp: past_armed_def)
  moreover have "armed q \<longrightarrow> armed q'" using r(7) by (auto simp: armed_def)
  ultimately show ?thesis using r by blast
next
  case (op_cancel i)
  from cancel_ok [OF inv op_cancel] show ?thesis
    by (cases "timers q = []") (auto simp: past_armed_def armed_def subset_iff)
next
  case (op_create a w cb intv)
  note r = create_timer_ok [OF inv op_create(2,3,1)]
  with r show ?thesis by (simp add: past_armed_def armed_def)
next
  case op_elsewhere
  have "tq_inv q'" by (rule tq_inv_frame [OF inv]) (simp_all add: op_elsewhere tq_invD(3) [OF inv])
  then show ?thesis by (auto simp: op_elsewhere keeps_def past_armed_def armed_def sched_def)
qed

lemma tq_ops_ok:
  assumes "tq_op\<^sup>*\<^sup>* q q'" and "tq_inv q"
  shows "tq_inv q' \<and> keeps q q' \<and> (past_armed q \<longrightarrow> past_armed q') \<and> (armed q \<longrightarrow> armed q')"
  using assms(1)
proof induction
  case base
  with assms(2) show ?case by (simp add: keeps_refl)
next
  case (step p r)
  with tq_op_ok [OF step.hyps(2)] show ?case by (blast intro: keeps_trans)
qed
section \<open>A whole alarm\<close>

text \<open>Callbacks act on the queue only by its operations.\<close>

definition uses_interface :: "('cb \<Rightarrow> 'cb timer_queue \<Rightarrow> 'cb timer_queue result) \<Rightarrow> bool" where
  "uses_interface run \<longleftrightarrow> (\<forall>cb q q'. run cb q = Inr q' \<longrightarrow> tq_op\<^sup>*\<^sup>* q q')"

text \<open>The callbacks of a batch are those of the timers as they were when they expired.\<close>

lemma run_timers:
  assumes run: "uses_interface run" and inv: "tq_inv q"
    and es: "\<And>a. a \<in> snd ` set es \<Longrightarrow> sched q a = None \<and> theap q a = Some (tm a)"
  shows "rfold (run_timer run) es q = rfold run (map (\<lambda>e. callback (tm (snd e))) es) q"
  using inv es
proof (induction es arbitrary: q)
  case Nil
  then show ?case by simp
next
  case (Cons e es)
  have e: "run_timer run e q = run (callback (tm (snd e))) q"
    using Cons.prems(2) [of "snd e"] by (simp add: run_timer_def tderef_def)
  show ?case
  proof (cases "run (callback (tm (snd e))) q")
    case (Inl f)
    with e show ?thesis by simp
  next
    case (Inr p)
    with run have "tq_op\<^sup>*\<^sup>* q p" by (simp add: uses_interface_def)
    from tq_ops_ok [OF this Cons.prems(1)] have p: "tq_inv p" "keeps q p" by blast+
    have "sched p a = None \<and> theap p a = Some (tm a)" if "a \<in> snd ` set es" for a
      using p(2) Cons.prems(2) [of a] that by (auto simp: keeps_def)
    from Cons.IH [OF p(1) this] show ?thesis using e Inr by simp
  qed
qed

lemma run_all_ops:
  assumes "uses_interface run" and "rfold run cbs q = Inr q'"
  shows "tq_op\<^sup>*\<^sup>* q q'"
proof (rule rfold_inv [OF _ _ assms(2), of "tq_op\<^sup>*\<^sup>* q"])
  fix cb s s' assume "tq_op\<^sup>*\<^sup>* q s" "run cb s = Inr s'"
  with assms(1) show "tq_op\<^sup>*\<^sup>* q s'" unfolding uses_interface_def by (metis rtranclp_trans)
qed simp

subsection \<open>Re-arming\<close>

text \<open>What an expired timer becomes: \<open>None\<close> if it does not repeat or was cancelled by a callback.\<close>

definition rearmed :: "timestamp \<Rightarrow> 'cb timer_queue \<Rightarrow> taddr \<Rightarrow> 'cb timer option" where
  "rearmed now q a = (case theap q a of None \<Rightarrow> None
     | Some t \<Rightarrow> if repeat t \<and> (a, sequence t) \<notin> set (cancelingTimers q)
                then (case addTime now (interval t) of Inl _ \<Rightarrow> None | Inr e \<Rightarrow> Some (t\<lparr>expiration := e\<rparr>))
                else None)"

text \<open>An object that is not scheduled may change its expiration.\<close>

lemma heap_unscheduled_inv:
  assumes inv: "tq_inv q" and t: "theap q a = Some t" "sched q a = None"
    and t': "sequence t' = sequence t" "in_int64 (micros (expiration t'))" "repeat t' = dpos (interval t')"
  defines "q' \<equiv> q\<lparr>theap := (theap q)(a \<mapsto> t')\<rparr>"
  shows "tq_inv q'" "sched q' = sched q"
proof -
  show s: "sched q' = sched q"
    using t t' sched_None [OF t(2,1)] by (auto simp: fun_eq_iff sched_def q'_def split: option.splits)
  have "tq_inv q'"
    unfolding tq_inv_def s
    using inv t' t(1) tq_invD(6,7) [OF inv] unfolding q'_def
    by (auto simp: tq_invD(1-3) timers_sched [OF inv] active_sched [OF inv])
  then show "tq_inv q'" .
qed

lemma addTime_range: "addTime now s = Inr e \<Longrightarrow> in_int64 (micros e)"
  by (auto simp: addTime_def result_simps split: if_splits)

text \<open>One timer of the batch.\<close>

lemma reset_one_eq:
  assumes inv: "tq_inv q" and t: "theap q a = Some t" "sched q a = None" and self: "self = tq_tid q"
    and fits: "repeat t \<Longrightarrow> faultless (addTime now (interval t))" and now: "valid now"
  shows "\<exists>q'. reset_one self now (e, a) q = Inr q' \<and> tq_inv q' \<and> sched q' = (sched q)(a := rearmed now q a) \<and>
    theap q' = (case rearmed now q a of None \<Rightarrow> theap q | Some t' \<Rightarrow> (theap q)(a \<mapsto> t')) \<and> tq_tid q' = tq_tid q \<and> cancelingTimers q' = cancelingTimers q \<and>
    numCreated q' = numCreated q \<and> timerfd q' = timerfd q \<and> (past_armed q \<longrightarrow> past_armed q')"
proof (cases "repeat t \<and> (a, sequence t) \<notin> set (cancelingTimers q)")
  case False
  then have "rearmed now q a = None" using t(1) by (auto simp: rearmed_def)
  then have "(sched q)(a := rearmed now q a) = sched q" using t(2) by auto
  moreover have "reset_one self now (e, a) q = Inr q" using False t(1) by (auto simp: reset_one_def tderef_def)
  ultimately show ?thesis using inv \<open>rearmed now q a = None\<close> by auto
next
  case True
  from fits True obtain x where x: "addTime now (interval t) = Inr x" by (auto simp: faultless_iff)
  let ?t = "t\<lparr>expiration := x\<rparr>"
  let ?q = "q\<lparr>theap := (theap q)(a \<mapsto> ?t)\<rparr>"
  have rp: "repeat t = dpos (interval t)" using tq_invD(6) [OF inv t(1)] by blast
  have "in_int64 (micros x)" using x by (rule addTime_range)
  then have h: "tq_inv ?q" "sched ?q = sched q"
    using heap_unscheduled_inv [OF inv t, of ?t] rp by simp_all
  have t': "theap ?q a = Some ?t" "sched ?q a = None" using h(2) t(2) by simp_all
  have "reset_one self now (e, a) q = Inr (inserted a ?t ?q)"
    using True t(1) x tq_insert_eq [OF h(1) t', of self] self
    by (simp add: reset_one_def tderef_def Timer_restart_def)
  moreover have re: "rearmed now q a = Some ?t" using True t(1) x by (simp add: rearmed_def)
  moreover have "sched (inserted a ?t ?q) = (sched q)(a := rearmed now q a)"
    using inserted_sched [OF h(1) t'] h(2) re by simp
  moreover have "past_armed (inserted a ?t ?q)" if "past_armed q"
  proof -
    have "now \<le> x" using addTime_mono [OF x] rp True by (simp add: dpos_def)
    then have "valid x" using now by (simp add: valid_def less_eq_timestamp_def)
    with that show ?thesis using inserted_timers [OF h(1) t'] by (auto simp: past_armed_def)
  qed
  ultimately show ?thesis using inserted_inv [OF h(1) t'] t(1) by (intro exI [of _ "inserted a ?t ?q"]) auto
qed

lemma reset_loop:
  assumes "tq_inv q" and "distinct (map snd es)" and self: "self = tq_tid q" and now: "valid now"
    and "\<And>a. a \<in> snd ` set es \<Longrightarrow> sched q a = None \<and> (\<exists>t. theap q a = Some t \<and>
      (repeat t \<longrightarrow> faultless (addTime now (interval t))))"
  shows "\<exists>q'. rfold (reset_one self now) es q = Inr q' \<and> tq_inv q' \<and>
    sched q' = (\<lambda>a. if a \<in> snd ` set es then rearmed now q a else sched q a) \<and>
    tq_tid q' = tq_tid q \<and> numCreated q' = numCreated q \<and> timerfd q' = timerfd q \<and> (past_armed q \<longrightarrow> past_armed q') \<and>
    theap q' = (\<lambda>a. if a \<in> snd ` set es \<and> rearmed now q a \<noteq> None then rearmed now q a else theap q a)"
  using assms
proof (induction es arbitrary: q)
  case Nil
  then show ?case by auto
next
  case (Cons ea es)
  obtain e a where ea: "ea = (e, a)" by fastforce
  from Cons.prems(5) [of a] ea obtain t where t: "theap q a = Some t" "sched q a = None"
    "repeat t \<Longrightarrow> faultless (addTime now (interval t))" by auto
  from reset_one_eq [OF Cons.prems(1) t(1,2) Cons.prems(3) t(3) now, of e] obtain p where
    p: "reset_one self now ea q = Inr p" "tq_inv p" "sched p = (sched q)(a := rearmed now q a)"
      "tq_tid p = tq_tid q" "cancelingTimers p = cancelingTimers q" "numCreated p = numCreated q" "timerfd p = timerfd q"
      "past_armed q \<longrightarrow> past_armed p"
      "theap p = (case rearmed now q a of None \<Rightarrow> theap q | Some t' \<Rightarrow> (theap q)(a \<mapsto> t'))"
    unfolding ea by blast
  then have other: "theap p b = theap q b" if "b \<noteq> a" for b using that by (auto split: option.splits)
  have na: "a \<notin> snd ` set es" using Cons.prems(2) ea by (auto simp: image_iff)
  have rearm: "rearmed now p b = rearmed now q b" if "b \<noteq> a" for b
    using that other p(5) by (simp add: rearmed_def cong: option.case_cong if_cong)
  have d: "distinct (map snd es)" and self': "self = tq_tid p" using Cons.prems(2,3) p(4) by simp_all
  have "sched p b = None \<and> (\<exists>t. theap p b = Some t \<and> (repeat t \<longrightarrow> faultless (addTime now (interval t))))"
    if "b \<in> snd ` set es" for b
  proof -
    from that na have "b \<noteq> a" by blast
    with Cons.prems(5) [of b] that other p(3) show ?thesis by auto
  qed
  from Cons.IH [OF p(2) d self' now this] obtain q' where
    q': "rfold (reset_one self now) es p = Inr q'" "tq_inv q'"
      "sched q' = (\<lambda>b. if b \<in> snd ` set es then rearmed now p b else sched p b)"
      "tq_tid q' = tq_tid p" "numCreated q' = numCreated p" "timerfd q' = timerfd p" "past_armed p \<longrightarrow> past_armed q'"
      "theap q' = (\<lambda>b. if b \<in> snd ` set es \<and> rearmed now p b \<noteq> None then rearmed now p b else theap p b)" by blast
  have "sched q' b = (if b \<in> snd ` set (ea # es) then rearmed now q b else sched q b)" for b
    using na rearm [of b] by (auto simp: q'(3) p(3) ea)
  then have "sched q' = (\<lambda>b. if b \<in> snd ` set (ea # es) then rearmed now q b else sched q b)" by blast
  moreover have "theap q' b = (if b \<in> snd ` set (ea # es) \<and> rearmed now q b \<noteq> None then rearmed now q b else theap q b)" for b
    using na rearm [of b] other [of b] p(9) by (cases "b = a") (auto simp: q'(8) ea split: option.splits)
  then have "theap q' = (\<lambda>b. if b \<in> snd ` set (ea # es) \<and> rearmed now q b \<noteq> None then rearmed now q b else theap q b)"
    by blast
  ultimately show ?case using p q' by auto
qed

lemma reset_eq:
  assumes inv: "tq_inv q" and d: "distinct (map snd es)" and self: "self = tq_tid q" and now: "valid now" "valid now2"
    and es: "\<And>a. a \<in> snd ` set es \<Longrightarrow> sched q a = None \<and> (\<exists>t. theap q a = Some t \<and>
      (repeat t \<longrightarrow> faultless (addTime now (interval t))))"
    and past: "past_armed q" and int2: "in_int64 (micros now2)"
  shows "\<exists>q'. tq_reset self es now now2 q = Inr q' \<and> tq_inv q' \<and>
    sched q' = (\<lambda>a. if a \<in> snd ` set es then rearmed now q a else sched q a) \<and>
    tq_tid q' = tq_tid q \<and> numCreated q' = numCreated q \<and> armed q' \<and>
    (timers q' \<noteq> [] \<longrightarrow> valid (fst (hd (timers q'))) \<longrightarrow> timerfd q' = Some (deadline (fst (hd (timers q'))) now2)) \<and>
    theap q' = (\<lambda>a. if a \<in> snd ` set es \<and> rearmed now q a \<noteq> None then rearmed now q a else theap q a)"
proof -
  from reset_loop [OF inv d self now(1) es] past obtain p where
    p: "rfold (reset_one self now) es q = Inr p" "tq_inv p"
      "sched p = (\<lambda>a. if a \<in> snd ` set es then rearmed now q a else sched q a)"
      "tq_tid p = tq_tid q" "numCreated p = numCreated q" "past_armed p"
      "theap p = (\<lambda>a. if a \<in> snd ` set es \<and> rearmed now q a \<noteq> None then rearmed now q a else theap q a)" by blast
  define next_expire where "next_expire = (if timers p = [] then Timestamp 0 else fst (hd (timers p)))"
  define q' where "q' = (if valid next_expire then p\<lparr>timerfd := Some (deadline next_expire now2)\<rparr> else p)"
  have first: "(if timers p = [] then Inr (Timestamp 0)
      else tderef (snd (hd (timers p))) (\<lambda>t. Inr (expiration t)) p) = Inr next_expire \<and> in_int64 (micros next_expire)"
  proof (cases "timers p")
    case Nil
    then show ?thesis by (simp add: next_expire_def in_int64_def)
  next
    case (Cons f fs)
    then have "(fst f, snd f) \<in> set (timers p)" by simp
    then obtain t where "sched p (snd f) = Some t" "expiration t = fst f"
      using timers_sched [OF p(2), of "fst f" "snd f"] by blast
    then show ?thesis using sched_heap [of p "snd f" t] tq_invD(6) [OF p(2), of "snd f" t] Cons
      by (auto simp: tderef_def next_expire_def)
  qed
  have "resetTimerfd next_expire now2 p = Inr (p\<lparr>timerfd := Some (deadline next_expire now2)\<rparr>)" if "valid next_expire"
    using that first now(2) int2 by (intro resetTimerfd_eq) (auto simp: in_int64_def valid_def)
  then have "tq_reset self es now now2 q = Inr q'"
    using p(1) first by (simp add: tq_reset_def q'_def)
  moreover have "tq_inv q'" by (rule tq_inv_frame [OF p(2)]) (simp_all add: q'_def tq_invD(3) [OF p(2)])
  moreover have "sched q' = sched p" by (rule sched_cong) (simp_all add: q'_def)
  moreover have "armed q'"
    using p(6) unfolding armed_def past_armed_def
    by (cases "timers p") (auto simp: q'_def next_expire_def)
  ultimately show ?thesis using p(3,4,5,7)
    by (intro exI [of _ q']) (auto simp: q'_def next_expire_def split: if_splits)
qed

text \<open>The state in which the callbacks of an alarm start, and in which they have finished.\<close>

definition calling_state :: "timestamp \<Rightarrow> 'cb timer_queue \<Rightarrow> 'cb timer_queue" where
  "calling_state now q = (case getExpired now (readTimerfd q) of Inl _ \<Rightarrow> q
     | Inr (_, q1) \<Rightarrow> q1\<lparr>callingExpiredTimers := True, cancelingTimers := []\<rparr>)"

lemma calling_state_ok:
  assumes inv: "tq_inv q" and now: "valid now"
  shows "getExpired now (readTimerfd q) = Inr (due now q, q1) \<Longrightarrow>
      calling_state now q = q1\<lparr>callingExpiredTimers := True, cancelingTimers := []\<rparr>"
    and "\<exists>q1. getExpired now (readTimerfd q) = Inr (due now q, q1)"
    and "tq_inv (calling_state now q)"
    and "sched (calling_state now q) a = (case sched q a of None \<Rightarrow> None | Some t \<Rightarrow> if expiration t \<le> now then None else Some t)"
    and "theap (calling_state now q) = theap q" "tq_tid (calling_state now q) = tq_tid q"
    and "numCreated (calling_state now q) = numCreated q" "past_armed (calling_state now q)"
    and "callingExpiredTimers (calling_state now q)" "cancelingTimers (calling_state now q) = []"
proof -
  have inv': "tq_inv (readTimerfd q)"
    by (rule tq_inv_frame [OF inv]) (simp_all add: readTimerfd_def tq_invD(3) [OF inv])
  have s: "sched (readTimerfd q) = sched q" by (rule sched_cong) (simp_all add: readTimerfd_def)
  have "due now (readTimerfd q) = due now q" by (simp add: due_def readTimerfd_def)
  with getExpired_eq [OF inv', of now] obtain p where p: "getExpired now (readTimerfd q) = Inr (due now q, p)"
    "tq_inv p" "theap p = theap q" "tq_tid p = tq_tid q" "numCreated p = numCreated q"
    and sp: "sched p = (\<lambda>a. case sched q a of None \<Rightarrow> None | Some t \<Rightarrow> if expiration t \<le> now then None else Some t)"
    by (auto simp: readTimerfd_def s [unfolded readTimerfd_def])
  then show "\<exists>q1. getExpired now (readTimerfd q) = Inr (due now q, q1)" by blast
  show "getExpired now (readTimerfd q) = Inr (due now q, q1) \<Longrightarrow>
      calling_state now q = q1\<lparr>callingExpiredTimers := True, cancelingTimers := []\<rparr>"
    by (simp add: calling_state_def)
  have c: "calling_state now q = p\<lparr>callingExpiredTimers := True, cancelingTimers := []\<rparr>"
    by (simp add: calling_state_def p)
  have sc: "sched (calling_state now q) = sched p" by (rule sched_cong) (simp_all add: c)
  show "sched (calling_state now q) a = (case sched q a of None \<Rightarrow> None | Some t \<Rightarrow> if expiration t \<le> now then None else Some t)"
    by (simp add: sc sp)
  show inv_c: "tq_inv (calling_state now q)" by (rule tq_inv_frame [OF p(2)]) (simp_all add: c)
  have "valid (fst e)" if "e \<in> set (timers (calling_state now q))" for e
  proof -
    from that obtain t where "sched p (snd e) = Some t" "expiration t = fst e"
      using timers_sched [OF inv_c, of "fst e" "snd e"] sc by auto
    then have "now < fst e" by (auto simp: sp split: option.splits if_splits)
    then show ?thesis using now by (simp add: valid_def less_timestamp_def)
  qed
  then show "past_armed (calling_state now q)" by (auto simp: past_armed_def)
  show "theap (calling_state now q) = theap q" "tq_tid (calling_state now q) = tq_tid q"
    "numCreated (calling_state now q) = numCreated q" "callingExpiredTimers (calling_state now q)"
    "cancelingTimers (calling_state now q) = []"
    by (simp_all add: c p)
qed
lemma due_sched:
  assumes inv: "tq_inv q" and a: "a \<in> snd ` set (due now q)"
  shows "\<exists>t. sched q a = Some t \<and> theap q a = Some t \<and> expiration t \<le> now"
  using a due_set [OF inv] sched_heap by (fastforce simp: image_iff)

lemma handleRead_eq:
  assumes inv: "tq_inv q" and self: "self = tq_tid q" and now: "valid now" "valid now2" "in_int64 (micros now2)"
    and run: "uses_interface run"
    and cbs: "rfold run (map (\<lambda>e. callback (the (sched q (snd e)))) (due now q)) (calling_state now q) = Inr q2"
    and fits: "\<And>a t. sched q a = Some t \<Longrightarrow> expiration t \<le> now \<Longrightarrow> repeat t \<Longrightarrow> faultless (addTime now (interval t))"
  shows "\<exists>q'. tq_handleRead self run now now2 q = Inr q' \<and> tq_inv q' \<and> armed q' \<and>
    sched q' = (\<lambda>a. if a \<in> snd ` set (due now q) then rearmed now q2 a else sched q2 a) \<and>
    (timers q' \<noteq> [] \<longrightarrow> valid (fst (hd (timers q'))) \<longrightarrow> timerfd q' = Some (deadline (fst (hd (timers q'))) now2)) \<and>
    (\<forall>a \<in> snd ` set (due now q). theap q2 a = sched q a) \<and> tq_tid q' = tq_tid q \<and> numCreated q' = numCreated q2 \<and>
    theap q' = (\<lambda>a. if a \<in> snd ` set (due now q) \<and> rearmed now q2 a \<noteq> None then rearmed now q2 a else theap q2 a)"
proof -
  note c = calling_state_ok [OF inv now(1)]
  from c(2) obtain q1 where q1: "getExpired now (readTimerfd q) = Inr (due now q, q1)" by blast
  have start: "calling_state now q = q1\<lparr>callingExpiredTimers := True, cancelingTimers := []\<rparr>" by (rule c(1) [OF q1])
  have expired: "sched (calling_state now q) a = None \<and> theap (calling_state now q) a = Some (the (sched q a))"
    if "a \<in> snd ` set (due now q)" for a
    using due_sched [OF inv that] c(4,5) by auto
  have batch: "rfold (run_timer run) (due now q) (calling_state now q) = Inr q2"
    using run_timers [OF run c(3) expired] cbs by simp
  from tq_ops_ok [OF run_all_ops [OF run cbs] c(3)] c(8) have
    q2: "tq_inv q2" "keeps (calling_state now q) q2" "past_armed q2" by blast+
  let ?q2 = "q2\<lparr>callingExpiredTimers := False\<rparr>"
  have inv2: "tq_inv ?q2" by (rule tq_inv_frame [OF q2(1)]) (simp_all add: tq_invD(3) [OF q2(1)])
  have s2: "sched ?q2 = sched q2" by (rule sched_cong) simp_all
  have same: "theap q2 a = sched q a \<and> sched q2 a = None" if "a \<in> snd ` set (due now q)" for a
    using q2(2) expired [OF that] due_sched [OF inv that] by (auto simp: keeps_def)
  have h2: "theap ?q2 = theap q2" "tq_tid ?q2 = tq_tid q2" "numCreated ?q2 = numCreated q2" by simp_all
  have es: "sched ?q2 a = None \<and> (\<exists>t. theap ?q2 a = Some t \<and> (repeat t \<longrightarrow> faultless (addTime now (interval t))))"
    if "a \<in> snd ` set (due now q)" for a
    using same [OF that] due_sched [OF inv that] fits [of a] s2 by auto
  have self2: "self = tq_tid ?q2" using q2(2) c(6) self by (simp add: keeps_def)
  have past2: "past_armed ?q2" using q2(3) by (simp add: past_armed_def)
  have rearm2: "rearmed now ?q2 = rearmed now q2" by (rule ext) (simp add: rearmed_def cong: option.case_cong if_cong)
  from reset_eq [OF inv2 due_distinct [OF inv] self2 now(1,2) es past2 now(3)] obtain q' where
    q': "tq_reset self (due now q) now now2 ?q2 = Inr q'" "tq_inv q'" "armed q'"
      "sched q' = (\<lambda>a. if a \<in> snd ` set (due now q) then rearmed now q2 a else sched q2 a)"
      "tq_tid q' = tq_tid q2" "numCreated q' = numCreated q2"
      "timers q' \<noteq> [] \<longrightarrow> valid (fst (hd (timers q'))) \<longrightarrow> timerfd q' = Some (deadline (fst (hd (timers q'))) now2)"
      "theap q' = (\<lambda>a. if a \<in> snd ` set (due now q) \<and> rearmed now q2 a \<noteq> None then rearmed now q2 a else theap q2 a)"
    unfolding s2 rearm2 h2 by blast
  have "tq_handleRead self run now now2 q = Inr q'"
    using q1 batch q'(1) self by (simp add: tq_handleRead_def assertInLoop_def Let_def start)
  moreover have "tq_tid q' = tq_tid q" using q'(5) self2 self by simp
  ultimately show ?thesis using q' same by blast
qed
section \<open>Reachable queues\<close>

text \<open>
  The steps of a queue in its program: the operations above, a functor of the loop that inserts a
  timer created by another thread, and an alarm whose callbacks use the interface and whose
  intervals do not leave the range of a timestamp.
\<close>

inductive tq_step :: "'cb timer_queue \<Rightarrow> 'cb timer_queue \<Rightarrow> bool" where
  step_op: "tq_op q q' \<Longrightarrow> tq_step q q'"
| step_insert: "theap q a = Some t \<Longrightarrow> sched q a = None \<Longrightarrow> addTimerInLoop (tq_tid q) a now q = Inr q' \<Longrightarrow>
    tq_step q q'"
| step_alarm: "valid now \<Longrightarrow> valid now2 \<Longrightarrow> in_int64 (micros now2) \<Longrightarrow> uses_interface run \<Longrightarrow>
    (\<And>a t. sched q a = Some t \<Longrightarrow> expiration t \<le> now \<Longrightarrow> repeat t \<Longrightarrow> faultless (addTime now (interval t))) \<Longrightarrow>
    tq_handleRead (tq_tid q) run now now2 q = Inr q' \<Longrightarrow> tq_step q q'"

text \<open>No step gives an old sequence number to an object that did not have it.\<close>

definition ages :: "'cb timer_queue \<Rightarrow> 'cb timer_queue \<Rightarrow> bool" where
  "ages q q' \<longleftrightarrow> tq_tid q' = tq_tid q \<and> numCreated q \<le> numCreated q' \<and>
     (\<forall>a t'. theap q' a = Some t' \<longrightarrow> numCreated q < sequence t' \<or> (\<exists>t. theap q a = Some t \<and> sequence t' = sequence t))"

lemma ages_refl: "ages q q"
  by (simp add: ages_def)

lemma ages_trans:
  assumes "ages p q" and "ages q r"
  shows "ages p r"
  unfolding ages_def
proof (intro conjI allI impI)
  fix a t' assume "theap r a = Some t'"
  then consider "numCreated q < sequence t'" | t where "theap q a = Some t" "sequence t' = sequence t"
    using assms(2) unfolding ages_def by blast
  then show "numCreated p < sequence t' \<or> (\<exists>t. theap p a = Some t \<and> sequence t' = sequence t)"
  proof cases
    case 1
    then show ?thesis using assms(1) by (simp add: ages_def)
  next
    case (2 t)
    then show ?thesis using assms(1) unfolding ages_def by metis
  qed
qed (use assms in \<open>auto simp: ages_def\<close>)

lemma tq_op_ages:
  assumes "tq_op q q'" and inv: "tq_inv q"
  shows "ages q q'"
  using assms(1)
proof cases
  case (op_add a w cb intv now i)
  note r = addTimer_ok [OF inv op_add]
  from r(3) show ?thesis by (auto simp: ages_def keeps_def r(5) Timer_new_def)
next
  case (op_cancel i)
  show ?thesis
  proof (cases "\<exists>t. sched q (timer_ptr i) = Some t \<and> sequence t = timer_seq i")
    case True
    then obtain t where t: "sched q (timer_ptr i) = Some t" "sequence t = timer_seq i" by blast
    from cancel_hit [OF inv t refl] op_cancel show ?thesis by (auto simp: ages_def split: if_splits)
  next
    case False
    from cancel_miss [OF inv False refl] op_cancel show ?thesis by (auto simp: ages_def split: if_splits)
  qed
next
  case (op_create a w cb intv)
  note r = create_timer_ok [OF inv op_create(2,3,1)]
  from r(3) show ?thesis by (auto simp: ages_def keeps_def r(6) Timer_new_def)
next
  case op_elsewhere
  then show ?thesis by (auto simp: ages_def)
qed

lemma tq_ops_ages:
  assumes "tq_op\<^sup>*\<^sup>* q q'" and "tq_inv q"
  shows "ages q q'"
  using assms(1)
proof induction
  case base
  then show ?case by (rule ages_refl)
next
  case (step p r)
  from tq_ops_ok [OF step.hyps(1) assms(2)] have "tq_inv p" by blast
  from ages_trans [OF step.IH tq_op_ages [OF step.hyps(2) this]] show ?case .
qed

lemma rearmed_sequence: "rearmed now q a = Some t' \<Longrightarrow> \<exists>t. theap q a = Some t \<and> sequence t' = sequence t"
  by (auto simp: rearmed_def split: option.splits if_splits sum.splits)

lemma tq_step_ok:
  assumes "tq_step q q'" and inv: "tq_inv q"
  shows "tq_inv q' \<and> (armed q \<longrightarrow> armed q') \<and> ages q q'"
  using assms(1)
proof cases
  case step_op
  with tq_op_ok [OF _ inv] tq_op_ages [OF _ inv] show ?thesis by blast
next
  case (step_insert a t now)
  note r = addTimerInLoop_ok [OF inv step_insert(1,2) refl step_insert(3)]
  with r show ?thesis by (auto simp: ages_def keeps_def armed_def)
next
  case (step_alarm now now2 run)
  note c = calling_state_ok [OF inv step_alarm(1)]
  from c(2) obtain q1 where q1: "getExpired now (readTimerfd q) = Inr (due now q, q1)" by blast
  have expired: "sched (calling_state now q) a = None \<and> theap (calling_state now q) a = Some (the (sched q a))"
    if "a \<in> snd ` set (due now q)" for a
    using due_sched [OF inv that] c(4,5) by auto
  from step_alarm(6) q1 obtain q2 where
    "rfold (run_timer run) (due now q) (calling_state now q) = Inr q2"
    by (auto simp: tq_handleRead_def assertInLoop_def Let_def c(1) [OF q1] result_simps)
  then have q2: "rfold run (map (\<lambda>e. callback (the (sched q (snd e)))) (due now q)) (calling_state now q) = Inr q2"
    using run_timers [OF step_alarm(4) c(3) expired] by simp
  have a2: "ages (calling_state now q) q2"
    by (rule tq_ops_ages [OF run_all_ops [OF step_alarm(4) q2] c(3)])
  from handleRead_eq [OF inv refl step_alarm(1-4) q2 step_alarm(5)] step_alarm(6) have
    q': "tq_inv q'" "armed q'" "tq_tid q' = tq_tid q" "numCreated q' = numCreated q2"
      "theap q' = (\<lambda>a. if a \<in> snd ` set (due now q) \<and> rearmed now q2 a \<noteq> None then rearmed now q2 a else theap q2 a)"
    by auto
  have "ages q2 q'"
    using rearmed_sequence [of now q2] a2 c(6)
    by (auto simp: ages_def q'(3-5))
  moreover have "ages q (calling_state now q)" using c(5-7) by (auto simp: ages_def)
  ultimately show ?thesis using q' a2 ages_trans by blast
qed

interpretation tqs: invariant_system "\<lambda>q. \<exists>t. q = TimerQueue_new t" tq_step "\<lambda>q. tq_inv q \<and> armed q"
proof unfold_locales
  show "tq_inv q \<and> armed q" if "\<exists>t. q = TimerQueue_new t" for q :: "'cb timer_queue"
    using that TimerQueue_new_inv by (auto simp: armed_def TimerQueue_new_def)
qed (use tq_step_ok in blast)

lemma tq_steps_ages:
  assumes "tq_step\<^sup>*\<^sup>* q q'" and "tq_inv q"
  shows "tq_inv q' \<and> ages q q'"
  using assms(1)
proof induction
  case base
  with assms(2) show ?case by (simp add: ages_refl)
next
  case (step p r)
  with tq_step_ok [OF step.hyps(2)] show ?case by (blast intro: ages_trans)
qed
section \<open>Properties\<close>

text \<open>
  A queue with two timers due at 1000 us, for the examples: at the address 8 one that runs once,
  at 16 one that repeats every second and whose callback (1) cancels it.
\<close>

definition sample :: "nat timer_queue" where
  "sample = \<lparr>tq_tid = 1, timers = [(Timestamp 1000, 8), (Timestamp 1000, 16)], callingExpiredTimers = False,
     activeTimers = [(8, 1), (16, 2)], cancelingTimers = [],
     theap = [8 \<mapsto> Timer_new 0 (Timestamp 1000) (Dbl 0 0) 1, 16 \<mapsto> Timer_new 1 (Timestamp 1000) (Dbl 1 0) 2],
     numCreated = 2, timerfd = Some 1000\<rparr>"

definition sample_run :: "nat \<Rightarrow> nat timer_queue \<Rightarrow> nat timer_queue result" where
  "sample_run cb q = (if cb = 1 then cancelInLoop (tq_tid q) \<lparr>timer_ptr = 16, timer_seq = 2\<rparr> q else Inr q)"

lemma sample_ops: "uses_interface sample_run"
  by (auto simp: uses_interface_def sample_run_def split: if_splits intro: op_cancel)

lemma sample_reach: "reach (\<lambda>q. \<exists>t. q = TimerQueue_new t) tq_step sample"
proof -
  let ?q0 = "TimerQueue_new 1 :: nat timer_queue"
  let ?q1 = "\<lparr>tq_tid = 1, timers = [(Timestamp 1000, 8)], callingExpiredTimers = False,
     activeTimers = [(8, 1)], cancelingTimers = [], theap = [8 \<mapsto> Timer_new 0 (Timestamp 1000) (Dbl 0 0) 1],
     numCreated = 1, timerfd = Some 1000\<rparr>"
  have 1: "tq_op ?q0 ?q1"
    by (rule op_add [of 8 ?q0 "Timestamp 1000" 0 "Dbl 0 0" "Timestamp 500"])
      (simp_all add: fresh_def TimerQueue_new_def UINTPTR_MAX_def in_int64_def addTimer_def create_timer_def
        addTimerInLoop_def assertInLoop_def tq_insert_def sizes_agree_def tderef_def set_insert_def Timer_new_def
        resetTimerfd_eq deadline_def Let_def)
  have 2: "tq_op ?q1 sample"
    by (rule op_add [of 16 ?q1 "Timestamp 1000" 1 "Dbl 1 0" "Timestamp 500"])
      (simp_all add: fresh_def sample_def UINTPTR_MAX_def in_int64_def addTimer_def create_timer_def
        addTimerInLoop_def assertInLoop_def tq_insert_def sizes_agree_def tderef_def set_insert_def Timer_new_def
        resetTimerfd_eq deadline_def Let_def)
  have "reach (\<lambda>q. \<exists>t. q = TimerQueue_new t) tq_step ?q0" by (rule reach_init) blast
  from reach_step [OF reach_step [OF this step_op [OF 1]] step_op [OF 2]] show ?thesis .
qed

lemma sample_inv: "tq_inv sample"
  using tqs.reach_inv [OF sample_reach] by blast

lemma sample_sched: "sched sample = [8 \<mapsto> Timer_new 0 (Timestamp 1000) (Dbl 0 0) 1, 16 \<mapsto> Timer_new 1 (Timestamp 1000) (Dbl 1 0) 2]"
  by (auto simp: fun_eq_iff sched_def sample_def Timer_new_def)

lemma sample_due: "due (Timestamp 2000) sample = [(Timestamp 1000, 8), (Timestamp 1000, 16)]"
  by (simp add: due_def set_split_def sample_def)

lemma sample_calling: "calling_state (Timestamp 2000) sample =
    sample\<lparr>timers := [], callingExpiredTimers := True, activeTimers := [], cancelingTimers := [], timerfd := None\<rparr>"
  by (simp add: calling_state_def readTimerfd_def getExpired_def sample_def set_split_def erase_active_def tderef_def
      sizes_agree_def set_erase_def Timer_new_def)

lemma sample_calls:
  "rfold sample_run (map (\<lambda>e. callback (the (sched sample (snd e)))) (due (Timestamp 2000) sample))
     (calling_state (Timestamp 2000) sample) =
   Inr (sample\<lparr>timers := [], callingExpiredTimers := True, activeTimers := [], cancelingTimers := [(16, 2)], timerfd := None\<rparr>)"
  unfolding sample_due sample_sched sample_calling
  by (simp add: sample_run_def cancelInLoop_def assertInLoop_def sizes_agree_def Timer_new_def set_insert_def sample_def)
text \<open>
  C12. In every reachable timer queue each entry of the ordered set is a live timer with that
  expiration whose identity is active, the two sets have the same size, and while any timer is
  scheduled the timerfd is armed: no timer is forgotten.
\<close>

theorem timers_armed:
  assumes "reach (\<lambda>q. \<exists>t. q = TimerQueue_new t) tq_step q"
  shows "sizes_agree q \<and> (timers q \<noteq> [] \<longrightarrow> timerfd q \<noteq> None) \<and> sorted (timers q) \<and> distinct (map snd (timers q)) \<and>
    (\<forall>e a. (e, a) \<in> set (timers q) \<longrightarrow>
      (\<exists>t. theap q a = Some t \<and> expiration t = e \<and> (a, sequence t) \<in> set (activeTimers q)))"
proof -
  from tqs.reach_inv [OF assms] have inv: "tq_inv q" and "armed q" by auto
  have "inj_on snd (set (timers q))"
    by (auto simp: inj_on_def timers_sched [OF inv])
  then have "distinct (map snd (timers q))" using tq_invD(1) [OF inv] by (simp add: distinct_map set_ok_def)
  moreover have "\<exists>t. theap q a = Some t \<and> expiration t = e \<and> (a, sequence t) \<in> set (activeTimers q)"
    if "(e, a) \<in> set (timers q)" for e a
    using that sched_heap by (fastforce simp: timers_sched [OF inv] active_sched [OF inv])
  ultimately show ?thesis
    using tq_inv_sizes [OF inv] tq_invD(1) [OF inv] \<open>armed q\<close> by (auto simp: armed_def set_ok_def)
qed

theorem timers_armed_witness:
  "timers sample \<noteq> [] \<and> timerfd sample \<noteq> None \<and> (\<exists>t. theap sample 16 = Some t \<and> expiration t = Timestamp 1000)"
proof -
  have "(Timestamp 1000, 16) \<in> set (timers sample)" "timers sample \<noteq> []" by (simp_all add: sample_def)
  then show ?thesis using timers_armed [OF sample_reach] by blast
qed

text \<open>
  C7. An alarm, for callbacks that act on the queue by its operations and return: the timers that
  are due are taken in order of expiration, the callback of each runs once, in that order; then
  exactly those that repeat and were not cancelled by a callback are scheduled again, one interval
  after the alarm, all other timers are as the callbacks left them, and the timerfd is set for the
  earliest one.
\<close>

theorem handleRead_cycle:
  assumes "tq_inv q" and "self = tq_tid q" and "valid now" and "valid now2" and "in_int64 (micros now2)"
    and "uses_interface run"
    and "rfold run (map (\<lambda>e. callback (the (sched q (snd e)))) (due now q)) (calling_state now q) = Inr q2"
    and "\<forall>a t. sched q a = Some t \<longrightarrow> expiration t \<le> now \<longrightarrow> repeat t \<longrightarrow> faultless (addTime now (interval t))"
  shows "sorted (due now q) \<and> distinct (due now q) \<and>
    set (due now q) = {(expiration t, a) | a t. sched q a = Some t \<and> expiration t \<le> now} \<and>
    (\<exists>q'. tq_handleRead self run now now2 q = Inr q' \<and> tq_inv q' \<and>
      (\<forall>a. sched q' a = (if a \<in> snd ` set (due now q) then rearmed now q2 a else sched q2 a)) \<and>
      (\<forall>a \<in> snd ` set (due now q). theap q2 a = sched q a) \<and>
      (timers q' \<noteq> [] \<longrightarrow> valid (fst (hd (timers q'))) \<longrightarrow> timerfd q' = Some (deadline (fst (hd (timers q'))) now2)))"
proof -
  have "set (due now q) = {(expiration t, a) | a t. sched q a = Some t \<and> expiration t \<le> now}"
    using due_set [OF assms(1), of _ _ now] by auto
  moreover have "sorted (due now q) \<and> distinct (due now q)" using due_ok [OF assms(1)] by (simp add: set_ok_def)
  moreover from handleRead_eq [OF assms(1-7)] assms(8) obtain q' where
    "tq_handleRead self run now now2 q = Inr q'" "tq_inv q'"
    "sched q' = (\<lambda>a. if a \<in> snd ` set (due now q) then rearmed now q2 a else sched q2 a)"
    "\<forall>a \<in> snd ` set (due now q). theap q2 a = sched q a"
    "timers q' \<noteq> [] \<longrightarrow> valid (fst (hd (timers q'))) \<longrightarrow> timerfd q' = Some (deadline (fst (hd (timers q'))) now2)"
    by blast
  ultimately show ?thesis by auto
qed

theorem handleRead_cycle_witness:
  "\<exists>q'. tq_handleRead 1 sample_run (Timestamp 2000) (Timestamp 2100) sample = Inr q' \<and>
     sched q' 8 = None \<and> sched q' 16 = None"
proof -
  have fits: "\<forall>a t. sched sample a = Some t \<longrightarrow> expiration t \<le> Timestamp 2000 \<longrightarrow> repeat t \<longrightarrow>
      faultless (addTime (Timestamp 2000) (interval t))"
    using addTime_whole [of 1 "Timestamp 2000"]
    by (auto simp: sample_sched Timer_new_def dpos_def faultless_iff dof_int_exact in_int64_def split: if_splits)
  have pre: "1 = tq_tid sample" "valid (Timestamp 2000)" "valid (Timestamp 2100)" "in_int64 (micros (Timestamp 2100))"
    by (simp_all add: sample_def valid_def in_int64_def)
  let ?q2 = "sample\<lparr>timers := [], callingExpiredTimers := True, activeTimers := [],
    cancelingTimers := [(16, 2)], timerfd := None\<rparr>"
  have "rearmed (Timestamp 2000) ?q2 8 = None" "rearmed (Timestamp 2000) ?q2 16 = None"
    by (simp_all add: rearmed_def sample_def Timer_new_def dpos_def)
  moreover have "{8, 16} \<subseteq> snd ` set (due (Timestamp 2000) sample)" by (simp add: sample_due)
  moreover obtain q' where "tq_handleRead 1 sample_run (Timestamp 2000) (Timestamp 2100) sample = Inr q'"
    "\<forall>a. sched q' a = (if a \<in> snd ` set (due (Timestamp 2000) sample) then rearmed (Timestamp 2000) ?q2 a else sched ?q2 a)"
    using handleRead_cycle [OF sample_inv pre sample_ops sample_calls fits] by blast
  ultimately show ?thesis by auto
qed

text \<open>
  C15. \<open>cancel\<close>: if the identifier names a scheduled timer, exactly this timer is unscheduled and
  deleted; otherwise no timer is touched, and during the callbacks of an alarm the identifier is
  remembered so that \<open>reset\<close> does not schedule the timer again.
\<close>

theorem cancel_exact:
  assumes inv: "tq_inv q" and self: "self = tq_tid q"
  shows "\<exists>q'. cancelInLoop self i q = Inr q' \<and> tq_inv q' \<and>
    (if map_option sequence (sched q (timer_ptr i)) = Some (timer_seq i)
     then sched q' = (sched q)(timer_ptr i := None) \<and> theap q' = (theap q)(timer_ptr i := None)
     else sched q' = sched q \<and> theap q' = theap q \<and>
       (callingExpiredTimers q \<longrightarrow> (timer_ptr i, timer_seq i) \<in> set (cancelingTimers q') \<and>
         (\<forall>now. map_option sequence (theap q (timer_ptr i)) = Some (timer_seq i) \<longrightarrow> rearmed now q' (timer_ptr i) = None)))"
proof (cases "\<exists>t. sched q (timer_ptr i) = Some t \<and> sequence t = timer_seq i")
  case True
  then obtain t where t: "sched q (timer_ptr i) = Some t" "sequence t = timer_seq i" by blast
  from cancel_hit [OF inv t self] t show ?thesis by auto
next
  case False
  note m = cancel_miss [OF inv False self]
  let ?q = "if callingExpiredTimers q
    then q\<lparr>cancelingTimers := snd (set_insert (timer_ptr i, timer_seq i) (cancelingTimers q))\<rparr> else q"
  have "(timer_ptr i, timer_seq i) \<in> set (cancelingTimers ?q)" if "callingExpiredTimers q"
    using os.ins_law [OF tq_invD(3) [OF inv]] that by simp
  moreover have "sched ?q = sched q" "theap ?q = theap q" by auto
  moreover have "\<forall>now. map_option sequence (theap q (timer_ptr i)) = Some (timer_seq i) \<longrightarrow>
      rearmed now ?q (timer_ptr i) = None" if "callingExpiredTimers q"
    using os.ins_law [OF tq_invD(3) [OF inv]] that by (auto simp: rearmed_def)
  moreover have "map_option sequence (sched q (timer_ptr i)) \<noteq> Some (timer_seq i)" using False by auto
  ultimately show ?thesis using m by (intro exI [of _ ?q]) auto
qed

theorem cancel_exact_witness:
  "\<exists>q'. cancelInLoop 1 \<lparr>timer_ptr = 8, timer_seq = 1\<rparr> sample = Inr q' \<and> sched q' 8 = None \<and> sched q' 16 \<noteq> None"
proof -
  have "1 = tq_tid sample" by (simp add: sample_def)
  from cancel_exact [OF sample_inv this, of "\<lparr>timer_ptr = 8, timer_seq = 1\<rparr>"] show ?thesis
    by (auto simp: sample_sched Timer_new_def)
qed

text \<open>
  A stale identifier is harmless for ever: once no timer with its sequence number stands at
  its address, cancelling it has no effect in any later state, also when the address has been
  given to a new timer.
\<close>

theorem stale_id_harmless:
  assumes inv: "tq_inv q" and old: "timer_seq i \<le> numCreated q"
    and gone: "map_option sequence (theap q (timer_ptr i)) \<noteq> Some (timer_seq i)" and later: "tq_step\<^sup>*\<^sup>* q q'"
  shows "\<exists>q''. cancelInLoop (tq_tid q) i q' = Inr q'' \<and> sched q'' = sched q' \<and> theap q'' = theap q' \<and> timers q'' = timers q'"
proof -
  from tq_steps_ages [OF later inv] have inv': "tq_inv q'" and age: "ages q q'" by blast+
  have self: "tq_tid q = tq_tid q'" using age by (simp add: ages_def)
  have no: "\<nexists>t. sched q' (timer_ptr i) = Some t \<and> sequence t = timer_seq i"
  proof
    assume "\<exists>t. sched q' (timer_ptr i) = Some t \<and> sequence t = timer_seq i"
    then obtain t where t: "theap q' (timer_ptr i) = Some t" "sequence t = timer_seq i" using sched_heap by blast
    then show False using age old gone unfolding ages_def by fastforce
  qed
  from cancel_miss(1) [OF inv' no self] show ?thesis
    by auto
qed

theorem stale_id_harmless_witness:
  "\<exists>q''. cancelInLoop 1 \<lparr>timer_ptr = 8, timer_seq = 0\<rparr> sample = Inr q'' \<and> sched q'' 8 \<noteq> None"
proof -
  have "timer_seq \<lparr>timer_ptr = 8, timer_seq = 0\<rparr> \<le> numCreated sample"
    "map_option sequence (theap sample (timer_ptr \<lparr>timer_ptr = 8, timer_seq = 0\<rparr>)) \<noteq> Some (timer_seq \<lparr>timer_ptr = 8, timer_seq = 0\<rparr>)"
    by (simp_all add: sample_def Timer_new_def)
  from stale_id_harmless [OF sample_inv this, of sample]
  have "\<exists>q''. cancelInLoop (tq_tid sample) \<lparr>timer_ptr = 8, timer_seq = 0\<rparr> sample = Inr q'' \<and> sched q'' = sched sample"
    by blast
  moreover have "tq_tid sample = 1" by (simp add: sample_def)
  ultimately show ?thesis by (auto simp: sample_sched)
qed

text \<open>
  Timers that run once are leaked: the timer of an alarm that does not repeat is no longer
  scheduled, but its object is still there, and neither the operations of the queue nor its
  destructor will ever delete it.
\<close>

theorem one_shot_leaks:
  assumes "tq_inv q" and "self = tq_tid q" and "valid now" and "valid now2" and "in_int64 (micros now2)"
    and "uses_interface run"
    and "rfold run (map (\<lambda>e. callback (the (sched q (snd e)))) (due now q)) (calling_state now q) = Inr q2"
    and "\<forall>a t. sched q a = Some t \<longrightarrow> expiration t \<le> now \<longrightarrow> repeat t \<longrightarrow> faultless (addTime now (interval t))"
    and one: "sched q a = Some t" "expiration t \<le> now" "\<not> repeat t"
  shows "\<exists>q'. tq_handleRead self run now now2 q = Inr q' \<and> sched q' a = None \<and>
    (\<forall>q''. tq_op\<^sup>*\<^sup>* q' q'' \<longrightarrow> theap (TimerQueue_dtor q'') a = Some t)"
proof -
  have a: "a \<in> snd ` set (due now q)" using one due_set [OF assms(1), of "expiration t" a now] by force
  from handleRead_eq [OF assms(1-7)] assms(8) obtain q' where
    q': "tq_handleRead self run now now2 q = Inr q'" "tq_inv q'"
      "sched q' = (\<lambda>a. if a \<in> snd ` set (due now q) then rearmed now q2 a else sched q2 a)"
      "theap q' = (\<lambda>a. if a \<in> snd ` set (due now q) \<and> rearmed now q2 a \<noteq> None then rearmed now q2 a else theap q2 a)"
      "\<forall>a \<in> snd ` set (due now q). theap q2 a = sched q a" by blast
  have none: "rearmed now q2 a = None" using q'(5) a one by (auto simp: rearmed_def)
  then have left: "sched q' a = None" "theap q' a = Some t" using q'(3,4,5) a one(1) by auto
  have dtor: "theap (TimerQueue_dtor q'') a = theap q'' a" if "a \<notin> snd ` set (timers q'')" for q'' :: "'a timer_queue"
  proof -
    have "theap (foldl (\<lambda>q e. q\<lparr>theap := (theap q)(snd e := None)\<rparr>) p es) a = theap p a"
      if "a \<notin> snd ` set es" for es :: "(timestamp \<times> taddr) list" and p :: "'a timer_queue"
      using that by (induction es arbitrary: p) auto
    with that show ?thesis by (simp add: TimerQueue_dtor_def)
  qed
  have "theap (TimerQueue_dtor q'') a = Some t" if ops: "tq_op\<^sup>*\<^sup>* q' q''" for q''
  proof -
    from tq_ops_ok [OF ops q'(2)] left have "theap q'' a = Some t" "sched q'' a = None" "tq_inv q''"
      by (auto simp: keeps_def)
    moreover from this have "a \<notin> snd ` set (timers q'')" by (auto simp: timers_sched)
    ultimately show ?thesis using dtor by simp
  qed
  with q'(1) left(1) show ?thesis by blast
qed

theorem one_shot_leaks_witness:
  "\<exists>q'. tq_handleRead 1 sample_run (Timestamp 2000) (Timestamp 2100) sample = Inr q' \<and>
     sched q' 8 = None \<and> theap (TimerQueue_dtor q') 8 \<noteq> None"
proof -
  have fits: "\<forall>a t. sched sample a = Some t \<longrightarrow> expiration t \<le> Timestamp 2000 \<longrightarrow> repeat t \<longrightarrow>
      faultless (addTime (Timestamp 2000) (interval t))"
    using addTime_whole [of 1 "Timestamp 2000"]
    by (auto simp: sample_sched Timer_new_def dpos_def faultless_iff dof_int_exact in_int64_def split: if_splits)
  have pre: "1 = tq_tid sample" "valid (Timestamp 2000)" "valid (Timestamp 2100)" "in_int64 (micros (Timestamp 2100))"
    by (simp_all add: sample_def valid_def in_int64_def)
  have one: "sched sample 8 = Some (Timer_new 0 (Timestamp 1000) (Dbl 0 0) 1)"
    "expiration (Timer_new 0 (Timestamp 1000) (Dbl 0 0) 1) \<le> Timestamp 2000"
    "\<not> repeat (Timer_new 0 (Timestamp 1000) (Dbl 0 0) 1)"
    by (simp_all add: sample_sched Timer_new_def dpos_def)
  from one_shot_leaks [OF sample_inv pre sample_ops sample_calls fits one] obtain q' where
    "tq_handleRead 1 sample_run (Timestamp 2000) (Timestamp 2100) sample = Inr q'" "sched q' 8 = None"
    "theap (TimerQueue_dtor q') 8 = Some (Timer_new 0 (Timestamp 1000) (Dbl 0 0) 1)" by blast
  then show ?thesis by blast
qed

text \<open>
  C13. \<open>getExpired\<close> with its sentry and its loop over the entries it copies is the partition of the timers at \<open>now\<close>: it
  returns those that are due, in order, a timer due at exactly \<open>now\<close> among them, keeps the others in
  both sets, and changes nothing else; none of its assertions fails.
\<close>

theorem getExpired_partitions:
  assumes inv: "tq_inv q"
  shows "getExpired now q = Inr (expire_ref now q)"
proof -
  from getExpired_eq [OF inv] obtain q' where q': "getExpired now q = Inr (due now q, q')" "tq_inv q'"
    "sched q' = (\<lambda>a. case sched q a of None \<Rightarrow> None | Some t \<Rightarrow> if expiration t \<le> now then None else Some t)" by blast
  have due: "due now q = filter (\<lambda>e. fst e \<le> now) (timers q)"
    by (rule set_ok_unique [OF due_ok [OF inv] set_ok_filter [OF tq_invD(1) [OF inv]]])
      (auto simp: due_set [OF inv] timers_sched [OF inv])
  have later: "timers q' = filter (\<lambda>e. now < fst e) (timers q)"
    by (rule set_ok_unique [OF tq_invD(1) [OF q'(2)] set_ok_filter [OF tq_invD(1) [OF inv]]])
      (auto simp: timers_sched [OF inv] timers_sched [OF q'(2)] q'(3) not_le split: option.splits if_splits)
  have active: "activeTimers q' = filter (\<lambda>(a, n). case theap q a of None \<Rightarrow> True | Some t \<Rightarrow> now < expiration t) (activeTimers q)"
    by (rule set_ok_unique [OF tq_invD(2) [OF q'(2)] set_ok_filter [OF tq_invD(2) [OF inv]]])
      (use sched_heap [of q] in \<open>fastforce simp: active_sched [OF inv] active_sched [OF q'(2)] q'(3) not_le split: option.splits if_splits\<close>)
  from getExpired_shape [OF q'(1)] obtain ts as where "q' = q\<lparr>timers := ts, activeTimers := as\<rparr>" by blast
  with q'(1) due later active show ?thesis by (simp add: expire_ref_def)
qed

theorem getExpired_partitions_witness:
  "getExpired (Timestamp 1000) sample = Inr ([(Timestamp 1000, 8), (Timestamp 1000, 16)], sample\<lparr>timers := [], activeTimers := []\<rparr>)"
  using getExpired_partitions [OF sample_inv, of "Timestamp 1000"] by (simp add: expire_ref_def sample_def Timer_new_def)

text \<open>
  C14. \<open>howMuchTimeFromNow\<close> returns a normalised \<open>timespec\<close> (nanoseconds below one second, no
  negative part, so that \<open>timerfd_settime\<close> accepts it and does not disarm the timer), which is the
  time left, and at least 100 microseconds.
\<close>

theorem howMuchTimeFromNow_normalised:
  assumes "in_int64 (micros t - micros now)"
  shows "\<exists>s ns. howMuchTimeFromNow t now = Inr (s, ns) \<and> 0 \<le> s \<and> 0 \<le> ns \<and> ns < 1000000000 \<and> (s, ns) \<noteq> (0, 0) \<and>
    s * 1000000000 + ns = max 100 (micros t - micros now) * 1000"
proof -
  define us where "us = max 100 (micros t - micros now)"
  have us: "us div 1000000 * 1000000 + us mod 1000000 = us" "100 \<le> us" by (simp_all add: us_def)
  have "us mod 1000000 < 1000000" by simp
  then have "us mod 1000000 * 1000 < 1000000000" by linarith
  moreover have "us div 1000000 * 1000000000 + us mod 1000000 * 1000 = us * 1000" using us(1) by linarith
  moreover have "0 \<le> us div 1000000" "0 \<le> us mod 1000000" using us(2) by simp_all
  moreover have "(us div 1000000, us mod 1000000 * 1000) \<noteq> (0, 0)" using us by auto
  ultimately show ?thesis using howMuchTimeFromNow_eq [OF assms] by (simp add: us_def Let_def)
qed

theorem howMuchTimeFromNow_normalised_witness:
  "\<exists>s ns. howMuchTimeFromNow (Timestamp 5) (Timestamp 1000) = Inr (s, ns) \<and> s * 1000000000 + ns = 100000"
  using howMuchTimeFromNow_normalised [of "Timestamp 5" "Timestamp 1000"] by (auto simp: in_int64_def)

end
