(* ===== verification/Event_Loop.thy ===== *)
theory Event_Loop
  imports Timer_Queue
begin

text \<open>
  EventLoop (src/net/EventLoop.h, EventLoop.cpp): the loop of one thread, the functors that other
  threads hand to it, and the eventfd that wakes it up.

  The first part has the member functions as functions on the state, for functors named \<open>'f\<close> and
  channel handlers named \<open>'h\<close> whose effect is an argument. The second part is the interleaving: the
  loop's thread and any number of other threads, each executing the statements of the functions it
  calls one at a time. What the calling thread is (\<open>CurrentThread::tid()\<close>) is the argument \<open>self\<close>.
\<close>

section \<open>State\<close>

record 'f event_loop =
  looping :: bool
  quit_flag :: bool
  calling_pending :: bool
  thread_id :: nat
  wakeup_count :: nat
  pending :: "'f list"

text \<open>
  The constructor: \<open>current\<close> says whether the thread has a loop already; the loop is in the thread that
  constructs it. The counter of the eventfd starts at 0.
\<close>

definition EventLoop_new :: "nat \<Rightarrow> bool \<Rightarrow> 'f event_loop result" where
  "EventLoop_new self current = (if current then Inl Aborted
     else Inr \<lparr>looping = False, quit_flag = False, calling_pending = False, thread_id = self,
                wakeup_count = 0, pending = []\<rparr>)"

definition EventLoop_dtor :: "('f, 'z) event_loop_scheme \<Rightarrow> unit result" where
  "EventLoop_dtor l = assertC (\<not> looping l) (Inr ())"

definition isInLoopThread :: "tid \<Rightarrow> ('f, 'z) event_loop_scheme \<Rightarrow> bool" where
  "isInLoopThread self l \<longleftrightarrow> thread_id l = self"

section \<open>Operations\<close>

text \<open>
  An eventfd adds what is written to its counter, which cannot exceed \<open>2 ^ 64 - 2\<close>: beyond, the write
  fails and the code prints a message. A read takes the whole counter.
\<close>

definition wakeup :: "('f, 'z) event_loop_scheme \<Rightarrow> ('f, 'z) event_loop_scheme" where
  "wakeup l = (if wakeup_count l < 2 ^ 64 - 2 then l\<lparr>wakeup_count := wakeup_count l + 1\<rparr> else l)"

definition el_handleRead :: "('f, 'z) event_loop_scheme \<Rightarrow> ('f, 'z) event_loop_scheme" where
  "el_handleRead l = l\<lparr>wakeup_count := 0\<rparr>"

definition push_pending :: "'f \<Rightarrow> ('f, 'z) event_loop_scheme \<Rightarrow> ('f, 'z) event_loop_scheme" where
  "push_pending cb l = l\<lparr>pending := pending l @ [cb]\<rparr>"

text \<open>
  The member functions that other threads call are lists of statements, each atomic: a critical
  section, an assignment, a system call with the test that guards it. (The tests read the number of
  the loop's thread, which does not change, and, in that thread alone, the flag
  \<open>callingPendingFunctors_\<close>, which nobody else writes: \<open>||\<close> does not evaluate it in another thread.)
  A call is the execution of its statements, all at once in the functions of this section and one
  at a time in the interleaving below.
\<close>

datatype 'f stmt = PushBack 'f | WakeAfterQueue | SetQuit | WakeAfterQuit | ReadEventfd

definition exec_stmt :: "tid \<Rightarrow> 'f stmt \<Rightarrow> ('f, 'z) event_loop_scheme \<Rightarrow> ('f, 'z) event_loop_scheme" where
  "exec_stmt self s l = (case s of
       PushBack cb \<Rightarrow> push_pending cb l
     | WakeAfterQueue \<Rightarrow> if \<not> isInLoopThread self l \<or> calling_pending l then wakeup l else l
     | SetQuit \<Rightarrow> l\<lparr>quit_flag := True\<rparr>
     | WakeAfterQuit \<Rightarrow> if \<not> isInLoopThread self l then wakeup l else l
     | ReadEventfd \<Rightarrow> el_handleRead l)"

primrec exec_all :: "tid \<Rightarrow> 'f stmt list \<Rightarrow> ('f, 'z) event_loop_scheme \<Rightarrow> ('f, 'z) event_loop_scheme" where
  "exec_all self [] l = l"
| "exec_all self (s # ss) l = exec_all self ss (exec_stmt self s l)"

datatype 'f call = QueueInLoop 'f | Quit | HandleRead

definition call_code :: "'f call \<Rightarrow> 'f stmt list" where
  "call_code c = (case c of
       QueueInLoop cb \<Rightarrow> [PushBack cb, WakeAfterQueue]
     | Quit \<Rightarrow> [SetQuit, WakeAfterQuit]
     | HandleRead \<Rightarrow> [ReadEventfd])"

definition queueInLoop :: "tid \<Rightarrow> 'f \<Rightarrow> ('f, 'z) event_loop_scheme \<Rightarrow> ('f, 'z) event_loop_scheme" where
  "queueInLoop self cb l = exec_all self (call_code (QueueInLoop cb)) l"

definition runInLoop ::
  "tid \<Rightarrow> ('f \<Rightarrow> ('f, 'z) event_loop_scheme \<Rightarrow> ('f, 'z) event_loop_scheme result) \<Rightarrow> 'f \<Rightarrow>
   ('f, 'z) event_loop_scheme \<Rightarrow> ('f, 'z) event_loop_scheme result" where
  "runInLoop self run cb l = (if isInLoopThread self l then run cb l else Inr (queueInLoop self cb l))"

definition el_quit :: "tid \<Rightarrow> ('f, 'z) event_loop_scheme \<Rightarrow> ('f, 'z) event_loop_scheme" where
  "el_quit self l = exec_all self (call_code Quit) l"

definition swap_pending :: "('f, 'z) event_loop_scheme \<Rightarrow> 'f list \<times> ('f, 'z) event_loop_scheme" where
  "swap_pending l = (pending l, l\<lparr>pending := []\<rparr>)"

definition doPendingFunctors ::
  "('f \<Rightarrow> ('f, 'z) event_loop_scheme \<Rightarrow> ('f, 'z) event_loop_scheme result) \<Rightarrow> ('f, 'z) event_loop_scheme \<Rightarrow> ('f, 'z) event_loop_scheme result" where
  "doPendingFunctors run l =
     (let l = l\<lparr>calling_pending := True\<rparr> in
      case swap_pending l of (functors, l) \<Rightarrow>
      rbind (rfold run functors l) (\<lambda>l. Inr (l\<lparr>calling_pending := False\<rparr>)))"

text \<open>
  The loop, for a list of answers of \<open>poll\<close>, each the handlers of the active channels. The boolean
  of the result is whether \<open>loop\<close> has returned; without a further answer it is waiting in \<open>poll\<close>.
\<close>

fun loop_while ::
  "('f \<Rightarrow> ('f, 'z) event_loop_scheme \<Rightarrow> ('f, 'z) event_loop_scheme result) \<Rightarrow> ('h \<Rightarrow> ('f, 'z) event_loop_scheme \<Rightarrow> ('f, 'z) event_loop_scheme result) \<Rightarrow>
   'h list list \<Rightarrow> ('f, 'z) event_loop_scheme \<Rightarrow> (bool \<times> ('f, 'z) event_loop_scheme) result" where
  "loop_while run handle [] l = Inr (if quit_flag l then (True, l\<lparr>looping := False\<rparr>) else (False, l))"
| "loop_while run handle (active # polls) l =
     (if quit_flag l then Inr (True, l\<lparr>looping := False\<rparr>)
      else rbind (rfold handle active l) (\<lambda>l.
           rbind (doPendingFunctors run l) (loop_while run handle polls)))"

definition el_loop ::
  "nat \<Rightarrow> ('f \<Rightarrow> ('f, 'z) event_loop_scheme \<Rightarrow> ('f, 'z) event_loop_scheme result) \<Rightarrow> ('h \<Rightarrow> ('f, 'z) event_loop_scheme \<Rightarrow> ('f, 'z) event_loop_scheme result) \<Rightarrow>
   'h list list \<Rightarrow> ('f, 'z) event_loop_scheme \<Rightarrow> (bool \<times> ('f, 'z) event_loop_scheme) result" where
  "el_loop self run handle polls l =
     assertC (\<not> looping l)
     (if \<not> isInLoopThread self l then Inl Aborted
      else loop_while run handle polls (l\<lparr>looping := True, quit_flag := False\<rparr>))"

subsection \<open>Timers\<close>

definition runAt ::
  "nat \<Rightarrow> timestamp \<Rightarrow> 'cb \<Rightarrow> taddr \<Rightarrow> timestamp \<Rightarrow> 'cb timer_queue \<Rightarrow> (timer_id \<times> 'cb timer_queue) result" where
  "runAt self time cb a now q = addTimer self cb time (Dbl 0 0) a now q"

definition runAfter ::
  "nat \<Rightarrow> double \<Rightarrow> 'cb \<Rightarrow> taddr \<Rightarrow> timestamp \<Rightarrow> 'cb timer_queue \<Rightarrow> (timer_id \<times> 'cb timer_queue) result" where
  "runAfter self delay cb a now q = rbind (addTime now delay) (\<lambda>time. runAt self time cb a now q)"

definition runEvery ::
  "nat \<Rightarrow> double \<Rightarrow> 'cb \<Rightarrow> taddr \<Rightarrow> timestamp \<Rightarrow> 'cb timer_queue \<Rightarrow> (timer_id \<times> 'cb timer_queue) result" where
  "runEvery self intv cb a now q = rbind (addTime now intv) (\<lambda>time. addTimer self cb time intv a now q)"

section \<open>Interleaving\<close>

text \<open>
  Where the loop's thread is: outside \<open>loop()\<close>, at the test of the while loop, in \<open>poll\<close>, with the
  handlers of the active channels that are still to be called, between setting
  \<open>callingPendingFunctors_\<close> and the swap, or with the functors of a batch that are still to be called.
\<close>

datatype ('f, 'h) place = Outside | AtTest | InPoll | Handling "'h list" | BeforeSwap | Batch "'f list"

text \<open>
  \<open>code w t\<close> is what the thread \<open>t\<close> has still to execute of the member functions it has called. The last
  four fields record the history: whether the loop's own thread has queued something while it was
  not in the loop (there the code does not write the eventfd), what was ever queued, which
  functors were called, and which handlers.
\<close>

record ('f, 'h) world =
  lp :: "'f event_loop"
  pc :: "('f, 'h) place"
  code :: "tid \<Rightarrow> 'f stmt list"
  quiet :: bool
  queued :: "'f list"
  called :: "'f list"
  handled :: "'h list"

definition pushed :: "'f stmt \<Rightarrow> 'f list" where
  "pushed s = (case s of PushBack cb \<Rightarrow> [cb] | _ \<Rightarrow> [])"

definition exec_next :: "tid \<Rightarrow> ('f, 'h) world \<Rightarrow> ('f, 'h) world" where
  "exec_next t w = (case code w t of
       [] \<Rightarrow> w
     | s # ss \<Rightarrow> w\<lparr>lp := exec_stmt t s (lp w), code := (code w)(t := ss), queued := queued w @ pushed s,
         quiet := quiet w \<or> pushed s \<noteq> [] \<and> t = thread_id (lp w) \<and> pc w = Outside\<rparr>)"

definition codes :: "'f call list \<Rightarrow> 'f stmt list" where
  "codes cs = concat (map call_code cs)"

definition start_calls :: "tid \<Rightarrow> 'f call list \<Rightarrow> ('f, 'h) world \<Rightarrow> ('f, 'h) world" where
  "start_calls t cs w = w\<lparr>code := (code w)(t := codes cs)\<rparr>"

definition idle :: "('f, 'h) world \<Rightarrow> bool" where
  "idle w \<longleftrightarrow> code w (thread_id (lp w)) = []"

text \<open>
  The steps of the loop's thread inside \<open>loop()\<close>, from the test of the while loop, through \<open>poll\<close>, the
  handlers and \<open>doPendingFunctors\<close>. What a functor or a handler
  does to the loop is a list of calls: \<open>fb f cs\<close> says that the functor \<open>f\<close> may make the calls \<open>cs\<close>,
  \<open>hb h cs\<close> the same of a handler. \<open>handleRead\<close> is private: only a handler, that of the wake-up
  channel, calls it.
\<close>

inductive loop_step :: "('f \<Rightarrow> 'f call list \<Rightarrow> bool) \<Rightarrow> ('h \<Rightarrow> 'f call list \<Rightarrow> bool) \<Rightarrow> ('f, 'h) world \<Rightarrow> ('f, 'h) world \<Rightarrow> bool"
  for fb :: "'f \<Rightarrow> 'f call list \<Rightarrow> bool" and hb :: "'h \<Rightarrow> 'f call list \<Rightarrow> bool" where
  leave: "pc w = AtTest \<Longrightarrow> quit_flag (lp w) \<Longrightarrow>
    loop_step fb hb w (w\<lparr>lp := (lp w)\<lparr>looping := False\<rparr>, pc := Outside\<rparr>)"
| stay: "pc w = AtTest \<Longrightarrow> \<not> quit_flag (lp w) \<Longrightarrow> loop_step fb hb w (w\<lparr>pc := InPoll\<rparr>)"
| polled: "pc w = InPoll \<Longrightarrow> loop_step fb hb w (w\<lparr>pc := Handling hs\<rparr>)"
| handle: "pc w = Handling (h # hs) \<Longrightarrow> idle w \<Longrightarrow> hb h cs \<Longrightarrow>
    loop_step fb hb w (start_calls (thread_id (lp w)) cs (w\<lparr>pc := Handling hs, handled := handled w @ [h]\<rparr>))"
| start_batch: "pc w = Handling [] \<Longrightarrow> idle w \<Longrightarrow>
    loop_step fb hb w (w\<lparr>lp := (lp w)\<lparr>calling_pending := True\<rparr>, pc := BeforeSwap\<rparr>)"
| swap: "pc w = BeforeSwap \<Longrightarrow> loop_step fb hb w
    (w\<lparr>lp := snd (swap_pending (lp w)), pc := Batch (fst (swap_pending (lp w))), quiet := False\<rparr>)"
| call: "pc w = Batch (f # fs) \<Longrightarrow> idle w \<Longrightarrow> fb f cs \<Longrightarrow> HandleRead \<notin> set cs \<Longrightarrow>
    loop_step fb hb w (start_calls (thread_id (lp w)) cs (w\<lparr>pc := Batch fs, called := called w @ [f]\<rparr>))"
| finish: "pc w = Batch [] \<Longrightarrow> idle w \<Longrightarrow>
    loop_step fb hb w (w\<lparr>lp := (lp w)\<lparr>calling_pending := False\<rparr>, pc := AtTest\<rparr>)"
| own_exec: "\<not> idle w \<Longrightarrow> loop_step fb hb w (exec_next (thread_id (lp w)) w)"

text \<open>
  All steps: those, the entry into \<open>loop()\<close>, calls of \<open>queueInLoop\<close> and \<open>quit\<close> by the loop's thread
  outside the loop, and by any other thread, which executes its statements one at a time.
\<close>

definition entered :: "('f, 'h) world \<Rightarrow> ('f, 'h) world" where
  "entered w = w\<lparr>lp := (lp w)\<lparr>looping := True, quit_flag := False\<rparr>, pc := AtTest\<rparr>"

inductive el_step :: "('f \<Rightarrow> 'f call list \<Rightarrow> bool) \<Rightarrow> ('h \<Rightarrow> 'f call list \<Rightarrow> bool) \<Rightarrow> ('f, 'h) world \<Rightarrow> ('f, 'h) world \<Rightarrow> bool"
  for fb :: "'f \<Rightarrow> 'f call list \<Rightarrow> bool" and hb :: "'h \<Rightarrow> 'f call list \<Rightarrow> bool" where
  loop: "loop_step fb hb w w' \<Longrightarrow> el_step fb hb w w'"
| enter: "pc w = Outside \<Longrightarrow> idle w \<Longrightarrow> el_step fb hb w (entered w)"
| own_call: "pc w = Outside \<Longrightarrow> idle w \<Longrightarrow> c \<noteq> HandleRead \<Longrightarrow> el_step fb hb w (start_calls (thread_id (lp w)) [c] w)"
| other_call: "t \<noteq> thread_id (lp w) \<Longrightarrow> code w t = [] \<Longrightarrow> c \<noteq> HandleRead \<Longrightarrow> el_step fb hb w (start_calls t [c] w)"
| other_exec: "t \<noteq> thread_id (lp w) \<Longrightarrow> code w t \<noteq> [] \<Longrightarrow> el_step fb hb w (exec_next t w)"

definition el_init :: "('f, 'h) world \<Rightarrow> bool" where
  "el_init w \<longleftrightarrow> EventLoop_new (thread_id (lp w)) False = Inr (lp w) \<and> pc w = Outside \<and> code w = (\<lambda>_. []) \<and>
     \<not> quiet w \<and> queued w = [] \<and> called w = [] \<and> handled w = []"

section \<open>Executing calls\<close>

lemma wakeup_frame [simp]:
  "looping (wakeup l) = looping l" "quit_flag (wakeup l) = quit_flag l" "thread_id (wakeup l) = thread_id l"
  "calling_pending (wakeup l) = calling_pending l" "pending (wakeup l) = pending l"
  by (simp_all add: wakeup_def)

lemma wakeup_positive [simp]: "0 < wakeup_count (wakeup l)"
  by (auto simp: wakeup_def)

lemma push_frame [simp]:
  "looping (push_pending cb l) = looping l" "quit_flag (push_pending cb l) = quit_flag l"
  "thread_id (push_pending cb l) = thread_id l" "calling_pending (push_pending cb l) = calling_pending l"
  "wakeup_count (push_pending cb l) = wakeup_count l" "pending (push_pending cb l) = pending l @ [cb]"
  by (simp_all add: push_pending_def)

lemma exec_stmt_frame [simp]:
  "looping (exec_stmt t s l) = looping l" "thread_id (exec_stmt t s l) = thread_id l"
  "calling_pending (exec_stmt t s l) = calling_pending l" "pending (exec_stmt t s l) = pending l @ pushed s"
  by (cases s; simp add: exec_stmt_def pushed_def el_handleRead_def)+

lemma exec_all_frame [simp]:
  "looping (exec_all t ss l) = looping l" "thread_id (exec_all t ss l) = thread_id l"
  "calling_pending (exec_all t ss l) = calling_pending l"
  by (induction ss arbitrary: l; simp)+

lemma exec_all_append: "exec_all t (xs @ ys) l = exec_all t ys (exec_all t xs l)"
  by (induction xs arbitrary: l) simp_all

text \<open>The two functions in one piece.\<close>

lemma queueInLoop_eq:
  "queueInLoop self cb l = (let l = push_pending cb l in if \<not> isInLoopThread self l \<or> calling_pending l then wakeup l else l)"
  by (simp add: queueInLoop_def call_code_def exec_stmt_def Let_def)

lemma el_quit_eq:
  "el_quit self l = (let l = l\<lparr>quit_flag := True\<rparr> in if \<not> isInLoopThread self l then wakeup l else l)"
  by (simp add: el_quit_def call_code_def exec_stmt_def Let_def)

lemma own_queue_eq:
  "queueInLoop (thread_id l) cb l = (if calling_pending l then wakeup (push_pending cb l) else push_pending cb l)"
  by (simp add: queueInLoop_eq isInLoopThread_def Let_def)

lemma own_quit_eq: "el_quit (thread_id l) l = l\<lparr>quit_flag := True\<rparr>"
  by (simp add: el_quit_eq isInLoopThread_def)

text \<open>
  In the code that a thread has still to execute, an insertion is followed by the test that wakes
  the loop; in another thread there is at most one call.
\<close>

fun paired :: "'f stmt list \<Rightarrow> bool" where
  "paired [] = True"
| "paired (PushBack cb # ss) = (ss \<noteq> [] \<and> hd ss = WakeAfterQueue \<and> paired ss)"
| "paired (_ # ss) = paired ss"

definition one_call :: "'f stmt list \<Rightarrow> bool" where
  "one_call ss \<longleftrightarrow> (\<exists>c. c \<noteq> HandleRead \<and> (ss = call_code c \<or> ss = tl (call_code c))) \<or> ss = []"

lemma codes_Nil [simp]: "codes [] = []"
  by (simp add: codes_def)

lemma codes_Cons: "codes (c # cs) = call_code c @ codes cs"
  by (simp add: codes_def)

lemma paired_codes: "paired (codes cs)"
  by (induction cs) (auto simp: codes_Cons call_code_def split: call.split)

lemma no_read_codes: "HandleRead \<notin> set cs \<Longrightarrow> ReadEventfd \<notin> set (codes cs)"
  by (induction cs) (auto simp: codes_Cons call_code_def split: call.split)

lemma paired_tl: "paired (s # ss) \<Longrightarrow> paired ss"
  by (cases s) auto

lemma one_call_cases:
  assumes "one_call ss"
  obtains "ss = []" | cb where "ss = [PushBack cb, WakeAfterQueue]" | "ss = [WakeAfterQueue]"
    | "ss = [SetQuit, WakeAfterQuit]" | "ss = [WakeAfterQuit]"
proof (cases "ss = []")
  case False
  with assms obtain c where "c \<noteq> HandleRead" "ss = call_code c \<or> ss = tl (call_code c)" by (auto simp: one_call_def)
  then show thesis by (cases c) (auto simp: call_code_def intro: that)
qed (rule that)

lemma one_callI [simp]: "c \<noteq> HandleRead \<Longrightarrow> one_call (codes [c])"
  by (auto simp: one_call_def codes_def)

lemma one_call_simps [simp]: "one_call []" "one_call [WakeAfterQueue]" "one_call [WakeAfterQuit]"
  by (auto simp: one_call_def call_code_def intro: exI [of _ "QueueInLoop undefined"] exI [of _ Quit])

section \<open>Invariant\<close>

definition batch_left :: "('f, 'h) place \<Rightarrow> 'f list" where
  "batch_left p = (case p of Batch fs \<Rightarrow> fs | _ \<Rightarrow> [])"

lemma batch_left_simps [simp]:
  "batch_left Outside = []" "batch_left AtTest = []" "batch_left InPoll = []" "batch_left (Handling hs) = []"
  "batch_left BeforeSwap = []" "batch_left (Batch fs) = fs"
  by (simp_all add: batch_left_def)

text \<open>
  The loop will be woken: the eventfd is readable, or there is another thread whose next statement
  makes it readable.
\<close>

definition woken :: "('f, 'h) world \<Rightarrow> bool" where
  "woken w \<longleftrightarrow> 0 < wakeup_count (lp w) \<or>
     (\<exists>t. t \<noteq> thread_id (lp w) \<and> code w t \<noteq> [] \<and> 0 < wakeup_count (lp (exec_next t w)))"

definition waker :: "('f, 'h) world \<Rightarrow> bool" where
  "waker w \<longleftrightarrow> (\<exists>t. t \<noteq> thread_id (lp w) \<and> (code w t = [WakeAfterQueue] \<or> code w t = [WakeAfterQuit]))"

definition rings :: "('f, 'h) world \<Rightarrow> bool" where
  "rings w \<longleftrightarrow> 0 < wakeup_count (lp w) \<or> waker w"

definition handling :: "('f, 'h) place \<Rightarrow> bool" where
  "handling p \<longleftrightarrow> (\<exists>hs. p = Handling hs)"

definition about_to_ring :: "('f, 'h) world \<Rightarrow> bool" where
  "about_to_ring w \<longleftrightarrow> (\<exists>ss. code w (thread_id (lp w)) = WakeAfterQueue # ss) \<and> calling_pending (lp w)"

definition el_inv :: "('f, 'h) world \<Rightarrow> bool" where
  "el_inv w \<longleftrightarrow>
     (looping (lp w) \<longleftrightarrow> pc w \<noteq> Outside) \<and>
     (calling_pending (lp w) \<longleftrightarrow> pc w = BeforeSwap \<or> (\<exists>fs. pc w = Batch fs)) \<and>
     queued w = called w @ batch_left (pc w) @ pending (lp w) \<and>
     (\<forall>t. t \<noteq> thread_id (lp w) \<longrightarrow> one_call (code w t)) \<and> paired (code w (thread_id (lp w))) \<and>
     (pc w \<in> {AtTest, InPoll, BeforeSwap} \<longrightarrow> idle w) \<and>
     (\<not> handling (pc w) \<longrightarrow> ReadEventfd \<notin> set (code w (thread_id (lp w)))) \<and>
     (\<not> handling (pc w) \<longrightarrow> pc w \<noteq> BeforeSwap \<longrightarrow> pending (lp w) \<noteq> [] \<longrightarrow> rings w \<or> quiet w \<or> about_to_ring w) \<and>
     (pc w = InPoll \<longrightarrow> quit_flag (lp w) \<longrightarrow> rings w)"

lemma handling_simps [simp]:
  "\<not> handling Outside" "\<not> handling AtTest" "\<not> handling InPoll" "handling (Handling hs)" "\<not> handling BeforeSwap"
  "\<not> handling (Batch fs)"
  by (simp_all add: handling_def)

lemma waker_wakes: "waker w \<Longrightarrow> woken w"
proof -
  assume "waker w"
  then obtain t where t: "t \<noteq> thread_id (lp w)" "code w t = [WakeAfterQueue] \<or> code w t = [WakeAfterQuit]"
    by (auto simp: waker_def)
  then have "0 < wakeup_count (lp (exec_next t w))" by (auto simp: exec_next_def exec_stmt_def isInLoopThread_def)
  with t show ?thesis unfolding woken_def by (metis list.distinct(1))
qed

lemma rings_wakes: "rings w \<Longrightarrow> woken w"
  using waker_wakes by (auto simp: rings_def woken_def)

lemma exec_next_simps:
  assumes "code w t = s # ss"
  shows "lp (exec_next t w) = exec_stmt t s (lp w)" "code (exec_next t w) = (code w)(t := ss)" "pc (exec_next t w) = pc w"
    "queued (exec_next t w) = queued w @ pushed s" "called (exec_next t w) = called w" "handled (exec_next t w) = handled w"
    "quiet (exec_next t w) \<longleftrightarrow> quiet w \<or> pushed s \<noteq> [] \<and> t = thread_id (lp w) \<and> pc w = Outside"
  using assms by (simp_all add: exec_next_def)

lemma start_calls_simps [simp]:
  "lp (start_calls t cs w) = lp w" "code (start_calls t cs w) = (code w)(t := codes cs)" "pc (start_calls t cs w) = pc w"
  "queued (start_calls t cs w) = queued w" "called (start_calls t cs w) = called w" "handled (start_calls t cs w) = handled w"
  "quiet (start_calls t cs w) = quiet w"
  by (simp_all add: start_calls_def)

text \<open>A statement of another thread leaves the loop to be woken; one of its own thread at least keeps that.\<close>

lemma other_exec_rings:
  fixes w :: "('f, 'h) world"
  assumes t: "t \<noteq> thread_id (lp w)" and one: "one_call (code w t)" and "code w t \<noteq> []"
  shows "rings (exec_next t w) \<and> one_call (code (exec_next t w) t)"
proof -
  have "rings u" if "0 < wakeup_count (lp u)" for u :: "('f, 'h) world" using that by (simp add: rings_def)
  moreover have "rings u" if "thread_id (lp u) = thread_id (lp w)" "code u t = [WakeAfterQueue] \<or> code u t = [WakeAfterQuit]" for u :: "('f, 'h) world"
    using that t by (auto simp: rings_def waker_def)
  ultimately show ?thesis
    using assms(3) t by (cases rule: one_call_cases [OF one]) (simp_all add: exec_next_def exec_stmt_def isInLoopThread_def)
qed

lemma own_exec_rings:
  assumes "code w (thread_id (lp w)) = s # ss" and "s \<noteq> ReadEventfd" and "rings w"
  shows "rings (exec_next (thread_id (lp w)) w)"
proof -
  have "0 < wakeup_count (lp w) \<Longrightarrow> 0 < wakeup_count (exec_stmt (thread_id (lp w)) s (lp w))"
    using assms(2) by (cases s) (auto simp: exec_stmt_def)
  with assms(1,3) show ?thesis by (auto simp: rings_def waker_def exec_next_simps)
qed

lemma el_init_inv: "el_init w \<Longrightarrow> el_inv w"
  by (cases "lp w") (auto simp: el_init_def el_inv_def EventLoop_new_def idle_def)

lemma own_exec_inv:
  assumes inv: "el_inv w" and c: "code w (thread_id (lp w)) = s # ss"
  shows "el_inv (exec_next (thread_id (lp w)) w)"
proof -
  let ?t = "thread_id (lp w)" and ?w = "exec_next (thread_id (lp w)) w"
  note e = exec_next_simps [OF c]
  from inv c have "paired (s # ss)" by (simp add: el_inv_def)
  then have p: "paired ss" by (rule paired_tl)
  have nr: "\<not> handling (pc w) \<Longrightarrow> s \<noteq> ReadEventfd \<and> ReadEventfd \<notin> set ss" using inv c by (auto simp: el_inv_def)
  have np: "pc w \<notin> {AtTest, InPoll, BeforeSwap}" using inv c by (auto simp: el_inv_def idle_def)
  have ring: "rings ?w \<or> quiet ?w \<or> about_to_ring ?w"
    if h: "\<not> handling (pc w)" and pend: "pending (lp ?w) \<noteq> []"
  proof (cases "pushed s = []")
    case True
    with pend np h inv have "rings w \<or> quiet w \<or> about_to_ring w" by (auto simp: el_inv_def e)
    then show ?thesis
    proof (elim disjE)
      assume "rings w"
      with own_exec_rings [OF c] nr [OF h] show ?thesis by blast
    next
      assume "about_to_ring w"
      with c have "0 < wakeup_count (lp ?w)" by (auto simp: about_to_ring_def e exec_stmt_def)
      then show ?thesis by (simp add: rings_def)
    qed (simp add: e)
  next
    case False
    then obtain cb where s: "s = PushBack cb" by (cases s) (auto simp: pushed_def)
    with inv c obtain r where "ss = WakeAfterQueue # r" by (cases ss) (auto simp: el_inv_def)
    with s np h inv show ?thesis
      by (cases "pc w") (auto simp: e about_to_ring_def el_inv_def pushed_def)
  qed
  from inv np nr p ring show ?thesis unfolding el_inv_def e by (auto simp: idle_def)
qed

lemma other_exec_inv:
  assumes inv: "el_inv w" and t: "t \<noteq> thread_id (lp w)" "code w t \<noteq> []"
  shows "el_inv (exec_next t w)"
proof -
  from t(2) obtain s ss where c: "code w t = s # ss" by (cases "code w t") auto
  note e = exec_next_simps [OF c]
  from inv t have "one_call (code w t)" by (simp add: el_inv_def)
  from other_exec_rings [OF t(1) this t(2)] have o: "rings (exec_next t w)" "one_call (code (exec_next t w) t)" by simp_all
  from inv o t(1) show ?thesis unfolding el_inv_def by (auto simp: e idle_def)
qed

lemma loop_step_inv: "loop_step fb hb w w' \<Longrightarrow> el_inv w \<Longrightarrow> el_inv w'"
proof (induction rule: loop_step.induct)
  case (own_exec w)
  then show ?case by (auto simp: idle_def neq_Nil_conv intro: own_exec_inv)
qed (auto simp: el_inv_def idle_def swap_pending_def rings_def waker_def about_to_ring_def paired_codes no_read_codes)

lemma rings_start:
  assumes "code w t = []" and "rings w"
  shows "rings (start_calls t cs w)"
proof -
  have "waker w \<Longrightarrow> waker (start_calls t cs w)" using assms(1) unfolding waker_def by fastforce
  with assms(2) show ?thesis by (auto simp: rings_def)
qed

lemma el_step_inv: "el_step fb hb w w' \<Longrightarrow> el_inv w \<Longrightarrow> el_inv w'"
proof (induction rule: el_step.induct)
  case (loop w w')
  then show ?case by (blast intro: loop_step_inv)
next
  case (enter w)
  then show ?case by (auto simp: el_inv_def entered_def idle_def rings_def waker_def about_to_ring_def)
next
  case (own_call w c)
  then show ?case
    using paired_codes no_read_codes [of "[c]"] by (auto simp: el_inv_def idle_def rings_def waker_def about_to_ring_def)
next
  case (other_call t w c)
  from other_call.hyps(2) have "rings w \<Longrightarrow> rings (start_calls t [c] w)" by (rule rings_start)
  moreover have "idle (start_calls t [c] w) = idle w" "about_to_ring (start_calls t [c] w) = about_to_ring w"
    using other_call.hyps(1) by (auto simp: idle_def about_to_ring_def)
  ultimately show ?case
    using other_call.prems other_call.hyps one_callI unfolding el_inv_def start_calls_simps fun_upd_apply
    by (elim conjE, intro conjI; auto)
next
  case (other_exec t w)
  then show ?case by (blast intro: other_exec_inv)
qed

interpretation els: invariant_system el_init "el_step fb hb" el_inv for fb hb
  by unfold_locales (auto intro: el_init_inv el_step_inv)

section \<open>The functions take these steps\<close>

text \<open>
  What a functor and a handler, as functions on the loop, do to it: a list of calls that the step
  relation lets them make.
\<close>

definition functors_do ::
  "('f \<Rightarrow> 'f call list \<Rightarrow> bool) \<Rightarrow> ('f \<Rightarrow> 'f event_loop \<Rightarrow> 'f event_loop result) \<Rightarrow> bool" where
  "functors_do fb run \<longleftrightarrow> (\<forall>f l l'. run f l = Inr l' \<longrightarrow>
     (\<exists>cs. fb f cs \<and> HandleRead \<notin> set cs \<and> l' = exec_all (thread_id l) (codes cs) l))"

definition handlers_do ::
  "('h \<Rightarrow> 'f call list \<Rightarrow> bool) \<Rightarrow> ('h \<Rightarrow> 'f event_loop \<Rightarrow> 'f event_loop result) \<Rightarrow> bool" where
  "handlers_do hb handle \<longleftrightarrow> (\<forall>h l l'. handle h l = Inr l' \<longrightarrow> (\<exists>cs. hb h cs \<and> l' = exec_all (thread_id l) (codes cs) l))"

text \<open>The worlds before and after a run of the loop's thread that has completed its calls.\<close>

definition ran_to ::
  "('f \<Rightarrow> 'f call list \<Rightarrow> bool) \<Rightarrow> ('h \<Rightarrow> 'f call list \<Rightarrow> bool) \<Rightarrow> ('f, 'h) world \<Rightarrow> 'f event_loop \<Rightarrow> ('f, 'h) place \<Rightarrow>
   'f list \<Rightarrow> 'h list \<Rightarrow> ('f, 'h) world \<Rightarrow> bool" where
  "ran_to fb hb w l p fs hs w' \<longleftrightarrow> (loop_step fb hb)\<^sup>*\<^sup>* w w' \<and> lp w' = l \<and> pc w' = p \<and> thread_id l = thread_id (lp w) \<and>
     idle w' \<and> (\<forall>t. t \<noteq> thread_id (lp w) \<longrightarrow> code w' t = code w t) \<and> called w' = called w @ fs \<and> handled w' = handled w @ hs"

lemma ran_trans:
  assumes "ran_to fb hb w l p fs hs u" and "ran_to fb hb u l' p' gs hs' v"
  shows "ran_to fb hb w l' p' (fs @ gs) (hs @ hs') v"
  using assms unfolding ran_to_def by auto

lemma ran_step:
  assumes "loop_step fb hb w w'" and "lp w' = l" "pc w' = p" "thread_id l = thread_id (lp w)" "idle w'" "code w' = code w"
    "called w' = called w" "handled w' = handled w"
  shows "ran_to fb hb w l p [] [] w'"
  using assms by (auto simp: ran_to_def)

text \<open>The calls of the loop's thread, executed to their end.\<close>

lemma ran_code:
  "\<exists>w'. ran_to fb hb w (exec_all (thread_id (lp w)) (code w (thread_id (lp w))) (lp w)) (pc w) [] [] w'"
proof (induction "code w (thread_id (lp w))" arbitrary: w)
  case Nil
  then show ?case by (intro exI [of _ w]) (simp add: ran_to_def idle_def flip: Nil)
next
  case (Cons s ss)
  let ?t = "thread_id (lp w)"
  let ?v = "exec_next ?t w"
  note e = exec_next_simps [OF Cons.hyps(2) [symmetric]]
  from Cons.hyps(1) [of ?v] obtain w' where
    w': "ran_to fb hb ?v (exec_all ?t ss (lp ?v)) (pc w) [] [] w'" by (auto simp: e)
  have "loop_step fb hb w ?v" by (rule own_exec) (simp add: idle_def flip: Cons.hyps(2))
  with w' show ?case
    by (intro exI [of _ w']) (auto simp: ran_to_def e simp flip: Cons.hyps(2) intro: converse_rtranclp_into_rtranclp)
qed

lemma ran_calls:
  assumes "loop_step fb hb w (start_calls (thread_id (lp w)) cs u)" and "lp u = lp w" "code u = code w"
    "called u = called w @ fs" "handled u = handled w @ hs"
  shows "\<exists>w'. ran_to fb hb w (exec_all (thread_id (lp w)) (codes cs) (lp w)) (pc u) fs hs w'"
proof -
  let ?v = "start_calls (thread_id (lp w)) cs u"
  from ran_code [of fb hb ?v] assms(2) obtain w' where
    "ran_to fb hb ?v (exec_all (thread_id (lp w)) (codes cs) (lp w)) (pc u) [] [] w'" by auto
  with assms show ?thesis by (auto simp: ran_to_def intro!: exI [of _ w'] intro: converse_rtranclp_into_rtranclp)
qed

lemma batch_ran:
  assumes run: "functors_do fb run" and "rfold run fs (lp w) = Inr l'" and "pc w = Batch fs" and "idle w"
  shows "\<exists>w'. ran_to fb hb w l' (Batch []) fs [] w'"
  using assms(2-)
proof (induction fs arbitrary: w)
  case Nil
  then show ?case by (intro exI [of _ w]) (simp add: ran_to_def)
next
  case (Cons f fs)
  from Cons.prems(1) obtain m where m: "run f (lp w) = Inr m" "rfold run fs m = Inr l'" by (auto simp: result_simps)
  from run m(1) obtain cs where cs: "fb f cs" "HandleRead \<notin> set cs" "m = exec_all (thread_id (lp w)) (codes cs) (lp w)"
    unfolding functors_do_def by blast
  have "loop_step fb hb w (start_calls (thread_id (lp w)) cs (w\<lparr>pc := Batch fs, called := called w @ [f]\<rparr>))"
    by (rule call) (use Cons.prems(2,3) cs in auto)
  from ran_calls [OF this, of "[f]" "[]"] cs(3) obtain v where v: "ran_to fb hb w m (Batch fs) [f] [] v" by auto
  then have "lp v = m" "pc v = Batch fs" "idle v" by (simp_all add: ran_to_def)
  with Cons.IH [of v] m(2) obtain w' where "ran_to fb hb v l' (Batch []) fs [] w'" by blast
  with ran_trans [OF v this] show ?case by auto
qed

lemma doPending_ran:
  assumes run: "functors_do fb run" and d: "doPendingFunctors run (lp w) = Inr l'" and w: "pc w = Handling []" "idle w"
  shows "\<exists>w'. ran_to fb hb w l' AtTest (pending (lp w)) [] w'"
proof -
  let ?l1 = "(lp w)\<lparr>calling_pending := True\<rparr>" and ?l2 = "(lp w)\<lparr>calling_pending := True, pending := []\<rparr>"
  from d obtain m where m: "rfold run (pending (lp w)) ?l2 = Inr m" "l' = m\<lparr>calling_pending := False\<rparr>"
    by (auto simp: doPendingFunctors_def swap_pending_def Let_def result_simps)
  let ?w1 = "w\<lparr>lp := ?l1, pc := BeforeSwap\<rparr>"
  let ?w2 = "w\<lparr>lp := ?l2, pc := Batch (pending (lp w)), quiet := False\<rparr>"
  have 1: "ran_to fb hb w ?l1 BeforeSwap [] [] ?w1"
    by (rule ran_step [OF start_batch [OF w]]) (use w(2) in \<open>simp_all add: idle_def\<close>)
  have "loop_step fb hb ?w1 ?w2" using swap [of ?w1] by (simp add: swap_pending_def)
  then have 2: "ran_to fb hb ?w1 ?l2 (Batch (pending (lp w))) [] [] ?w2"
    by (rule ran_step) (use w(2) in \<open>simp_all add: idle_def\<close>)
  have "idle ?w2" using w(2) by (simp add: idle_def)
  with batch_ran [OF run, of "pending (lp w)" ?w2] m(1) obtain v where
    3: "ran_to fb hb ?w2 m (Batch []) (pending (lp w)) [] v" by auto
  then have v: "lp v = m" "pc v = Batch []" "idle v" by (simp_all add: ran_to_def)
  have 4: "ran_to fb hb v l' AtTest [] [] (v\<lparr>lp := (lp v)\<lparr>calling_pending := False\<rparr>, pc := AtTest\<rparr>)"
    by (rule ran_step [OF finish [OF v(2,3)]]) (use v m(2) in \<open>simp_all add: idle_def\<close>)
  from ran_trans [OF ran_trans [OF ran_trans [OF 1 2] 3] 4] show ?thesis by auto
qed

lemma handlers_ran:
  assumes h: "handlers_do hb handle" and "rfold handle hs (lp w) = Inr l'" and "pc w = Handling hs" and "idle w"
  shows "\<exists>w'. ran_to fb hb w l' (Handling []) [] hs w'"
  using assms(2-)
proof (induction hs arbitrary: w)
  case Nil
  then show ?case by (intro exI [of _ w]) (simp add: ran_to_def)
next
  case (Cons h0 hs)
  from Cons.prems(1) obtain m where m: "handle h0 (lp w) = Inr m" "rfold handle hs m = Inr l'" by (auto simp: result_simps)
  from h m(1) obtain cs where cs: "hb h0 cs" "m = exec_all (thread_id (lp w)) (codes cs) (lp w)"
    unfolding handlers_do_def by blast
  have "loop_step fb hb w (start_calls (thread_id (lp w)) cs (w\<lparr>pc := Handling hs, handled := handled w @ [h0]\<rparr>))"
    by (rule handle) (use Cons.prems(2,3) cs in auto)
  from ran_calls [OF this, of "[]" "[h0]"] cs(2) obtain v where v: "ran_to fb hb w m (Handling hs) [] [h0] v" by auto
  then have "lp v = m" "pc v = Handling hs" "idle v" by (simp_all add: ran_to_def)
  with Cons.IH [of v] m(2) obtain w' where "ran_to fb hb v l' (Handling []) [] hs w'" by blast
  with ran_trans [OF v this] show ?case by auto
qed

text \<open>One turn of the while loop, for one answer of \<open>poll\<close>.\<close>

lemma turn_ran:
  assumes run: "functors_do fb run" and h: "handlers_do hb handle" and w: "pc w = AtTest" "idle w" "\<not> quit_flag (lp w)"
    and m: "rfold handle active (lp w) = Inr m" and n: "doPendingFunctors run m = Inr n"
  shows "\<exists>w'. ran_to fb hb w n AtTest (pending m) active w'"
proof -
  let ?w1 = "w\<lparr>pc := InPoll\<rparr>" and ?w2 = "w\<lparr>pc := Handling active\<rparr>"
  have 1: "ran_to fb hb w (lp w) InPoll [] [] ?w1"
    by (rule ran_step [OF stay [OF w(1,3)]]) (use w(2) in \<open>simp_all add: idle_def\<close>)
  have "loop_step fb hb ?w1 ?w2" using polled [of ?w1 fb hb active] by simp
  then have 2: "ran_to fb hb ?w1 (lp w) (Handling active) [] [] ?w2"
    by (rule ran_step) (use w(2) in \<open>simp_all add: idle_def\<close>)
  have "idle ?w2" using w(2) by (simp add: idle_def)
  with handlers_ran [OF h, of active ?w2] m obtain v where 3: "ran_to fb hb ?w2 m (Handling []) [] active v" by auto
  then have v: "lp v = m" "pc v = Handling []" "idle v" by (simp_all add: ran_to_def)
  from doPending_ran [OF run _ v(2,3)] n v(1) obtain u where 4: "ran_to fb hb v n AtTest (pending m) [] u" by auto
  from ran_trans [OF ran_trans [OF ran_trans [OF 1 2] 3] 4] show ?thesis by auto
qed

lemma while_ran:
  assumes run: "functors_do fb run" and h: "handlers_do hb handle"
    and "loop_while run handle polls (lp w) = Inr (b, l')" and "pc w = AtTest" and "idle w"
  shows "\<exists>w' fs n. ran_to fb hb w l' (if b then Outside else InPoll) fs (concat (take n polls)) w' \<and>
    n \<le> length polls \<and> (b \<or> n = length polls) \<and> loop_while run handle (take n polls) (lp w) = Inr (b, l') \<and>
    (\<forall>k < n. \<exists>l. loop_while run handle (take k polls) (lp w) = Inr (False, l))"
  using assms(3-)
proof (induction polls arbitrary: w)
  case Nil
  then show ?case
    using ran_step [OF leave [OF Nil.prems(2)], of l' Outside fb hb] ran_step [OF stay [OF Nil.prems(2)], of l' InPoll fb hb]
    by (cases "quit_flag (lp w)") (fastforce simp: idle_def)+
next
  case (Cons active polls)
  show ?case
  proof (cases "quit_flag (lp w)")
    case True
    with Cons.prems(1) have "b \<and> l' = (lp w)\<lparr>looping := False\<rparr>" by auto
    with ran_step [OF leave [OF Cons.prems(2) True], of l' Outside fb hb] Cons.prems(3) show ?thesis
      by (intro exI [of _ "w\<lparr>lp := (lp w)\<lparr>looping := False\<rparr>, pc := Outside\<rparr>"] exI [of _ "[]"] exI [of _ 0]) (simp add: idle_def True)
  next
    case False
    with Cons.prems(1) obtain m k where m: "rfold handle active (lp w) = Inr m" "doPendingFunctors run m = Inr k"
      "loop_while run handle polls k = Inr (b, l')" by (auto simp: result_simps)
    from turn_ran [OF run h Cons.prems(2,3) False m(1,2)] obtain v where v: "ran_to fb hb w k AtTest (pending m) active v" by blast
    then have "lp v = k" "pc v = AtTest" "idle v" by (simp_all add: ran_to_def)
    with Cons.IH [of v] m(3) obtain w' fs n where
      w': "ran_to fb hb v l' (if b then Outside else InPoll) fs (concat (take n polls)) w'" "n \<le> length polls" "b \<or> n = length polls"
        "loop_while run handle (take n polls) k = Inr (b, l')" "\<forall>i < n. \<exists>l. loop_while run handle (take i polls) k = Inr (False, l)"
      by blast
    have "\<exists>l. loop_while run handle (take i (active # polls)) (lp w) = Inr (False, l)" if "i < Suc n" for i
      using that w'(5) m(1,2) False by (cases i) auto
    with ran_trans [OF v w'(1)] w'(2-4) m(1,2) False show ?thesis
      by (intro exI [of _ w'] exI [of _ "pending m @ fs"] exI [of _ "Suc n"]) simp
  qed
qed

text \<open>What is queued during a batch leaves the eventfd readable.\<close>

lemma exec_calls_wake:
  assumes "calling_pending l" and "pending l \<noteq> [] \<longrightarrow> 0 < wakeup_count l" and "HandleRead \<notin> set cs"
  shows "calling_pending (exec_all t (codes cs) l) \<and>
    (pending (exec_all t (codes cs) l) \<noteq> [] \<longrightarrow> 0 < wakeup_count (exec_all t (codes cs) l))"
  using assms
proof (induction cs arbitrary: l)
  case (Cons c cs)
  have "calling_pending (exec_all t (call_code c) l) \<and>
    (pending (exec_all t (call_code c) l) \<noteq> [] \<longrightarrow> 0 < wakeup_count (exec_all t (call_code c) l))"
    using Cons.prems by (cases c) (simp_all add: call_code_def exec_stmt_def)
  with Cons.IH [of "exec_all t (call_code c) l"] Cons.prems(3) show ?case by (simp add: codes_Cons exec_all_append)
qed simp

lemma doPending_wakes:
  assumes run: "functors_do fb run" and "doPendingFunctors run l = Inr l'" and "pending l' \<noteq> []"
  shows "0 < wakeup_count l'"
proof -
  let ?P = "\<lambda>l :: 'a event_loop. calling_pending l \<and> (pending l \<noteq> [] \<longrightarrow> 0 < wakeup_count l)"
  let ?l2 = "l\<lparr>calling_pending := True\<rparr>\<lparr>pending := []\<rparr>"
  from assms(2) obtain m where m: "rfold run (pending l) ?l2 = Inr m" "l' = m\<lparr>calling_pending := False\<rparr>"
    by (auto simp: doPendingFunctors_def swap_pending_def Let_def result_simps)
  have "?P m"
  proof (rule rfold_inv [OF _ _ m(1), of ?P])
    show "?P u'" if u: "?P u" "run f u = Inr u'" for f u u'
    proof -
      from run u(2) obtain cs where "HandleRead \<notin> set cs" "u' = exec_all (thread_id u) (codes cs) u"
        unfolding functors_do_def by blast
      with exec_calls_wake [of u cs "thread_id u"] u(1) show ?thesis by simp
    qed
  qed simp
  with m(2) assms(3) show ?thesis by simp
qed

section \<open>Properties\<close>

text \<open>
  A loop that waits in \<open>poll\<close> while the thread 2 has inserted the functor 7 and not yet written the
  eventfd, for the examples.
\<close>

definition sample_start :: "(nat, unit) world" where
  "sample_start = \<lparr>lp = \<lparr>looping = False, quit_flag = False, calling_pending = False, thread_id = 1,
     wakeup_count = 0, pending = []\<rparr>, pc = Outside, code = (\<lambda>_. []), quiet = False, queued = [], called = [], handled = []\<rparr>"

definition sample_world :: "(nat, unit) world" where
  "sample_world = \<lparr>lp = \<lparr>looping = True, quit_flag = False, calling_pending = False, thread_id = 1,
     wakeup_count = 0, pending = [7]\<rparr>, pc = InPoll, code = (\<lambda>_. [])(2 := [WakeAfterQueue]), quiet = False,
     queued = [7], called = [], handled = []\<rparr>"

lemma sample_start_reach: "reach el_init (el_step fb hb) sample_start"
  by (rule reach_init) (simp add: el_init_def sample_start_def EventLoop_new_def)

lemma sample_world_reach: "reach el_init (el_step fb hb) sample_world"
proof -
  let ?w1 = "entered sample_start"
  let ?w2 = "?w1\<lparr>pc := InPoll\<rparr>" and ?w3 = "start_calls 2 [QueueInLoop 7] (?w1\<lparr>pc := InPoll\<rparr>)"
  have "el_step fb hb sample_start ?w1" by (rule enter) (simp_all add: sample_start_def idle_def)
  moreover have "el_step fb hb ?w1 ?w2" by (intro loop stay) (simp_all add: sample_start_def entered_def)
  moreover have "el_step fb hb ?w2 ?w3" by (rule other_call) (simp_all add: sample_start_def entered_def)
  moreover have "el_step fb hb ?w3 (exec_next 2 ?w3)"
    by (rule other_exec) (simp_all add: sample_start_def entered_def codes_def call_code_def)
  moreover have "exec_next 2 ?w3 = sample_world"
    by (simp add: exec_next_def codes_def call_code_def exec_stmt_def push_pending_def pushed_def sample_start_def sample_world_def
        start_calls_def entered_def)
  ultimately show ?thesis using sample_start_reach by (metis reach_step)
qed

text \<open>A loop that records the functors it calls.\<close>

record 'f logged_loop = "'f event_loop" +
  call_log :: "'f list"

lemma rfold_log:
  assumes "\<forall>f l l'. run f l = Inr l' \<longrightarrow> call_log l' = call_log l @ [f]"
  shows "rfold run fs l = Inr l' \<Longrightarrow> call_log l' = call_log l @ fs"
proof (induction fs arbitrary: l)
  case (Cons f fs)
  then obtain m where "run f l = Inr m" "rfold run fs m = Inr l'" by (auto simp: result_simps)
  with assms Cons.IH [of m] show ?case by simp
qed simp

text \<open>
  C10. Functors run in the order in which they were queued. In every interleaving of the loop with
  other threads, what was queued is what was called, then the rest of the current batch, then what
  is pending, so that none is lost, called twice or overtaken. And the function
  \<open>doPendingFunctors\<close> calls the functors that are pending when it starts, each once and in their
  order, and no other: for functors that record their call, the record grows by exactly that list.
\<close>

theorem functors_fifo:
  assumes "reach el_init (el_step fb hb) w" and "\<forall>f l l'. run f l = Inr l' \<longrightarrow> call_log l' = call_log l @ [f]"
  shows "queued w = called w @ batch_left (pc w) @ pending (lp w) \<and>
    (calling_pending (lp w) \<longleftrightarrow> pc w = BeforeSwap \<or> (\<exists>fs. pc w = Batch fs)) \<and> (looping (lp w) \<longleftrightarrow> pc w \<noteq> Outside) \<and>
    (\<forall>l l'. doPendingFunctors run l = Inr l' \<longrightarrow> call_log l' = call_log l @ pending l \<and> \<not> calling_pending l')"
proof -
  have "call_log l' = call_log l @ pending l \<and> \<not> calling_pending l'" if d: "doPendingFunctors run l = Inr l'" for l l'
  proof -
    from d obtain m where "rfold run (pending l) (l\<lparr>calling_pending := True, pending := []\<rparr>) = Inr m"
      "l' = m\<lparr>calling_pending := False\<rparr>"
      by (auto simp: doPendingFunctors_def swap_pending_def Let_def result_simps)
    with rfold_log [OF assms(2), of "pending l"] show ?thesis by fastforce
  qed
  with els.reach_inv [OF assms(1)] show ?thesis by (auto simp: el_inv_def)
qed

theorem functors_fifo_witness:
  "queued sample_world = called sample_world @ pending (lp sample_world) \<and>
   (\<exists>l'. doPendingFunctors (\<lambda>f l. Inr (l\<lparr>call_log := call_log l @ [f]\<rparr>))
      \<lparr>looping = True, quit_flag = False, calling_pending = False, thread_id = 1, wakeup_count = 0, pending = [7, 8 :: nat],
       call_log = []\<rparr> = Inr l' \<and> call_log l' = [7, 8])"
proof -
  let ?run = "\<lambda>f l. Inr (l\<lparr>call_log := call_log l @ [f]\<rparr>) :: nat logged_loop result"
  have run: "\<forall>f l l'. ?run f l = Inr l' \<longrightarrow> call_log l' = call_log l @ [f]" by auto
  note fifo = functors_fifo [OF sample_world_reach [of "\<lambda>_ _. True" "\<lambda>_ _. True"] run]
  let ?l = "\<lparr>looping = True, quit_flag = False, calling_pending = False, thread_id = 1, wakeup_count = 0, pending = [7, 8],
       call_log = []\<rparr> :: nat logged_loop"
  have "\<exists>l'. doPendingFunctors ?run ?l = Inr l'" by (simp add: doPendingFunctors_def swap_pending_def Let_def)
  with fifo show ?thesis by (fastforce simp: sample_world_def)
qed

text \<open>
  C5. No wakeup is lost: when the loop waits in \<open>poll\<close> although a functor is pending or \<open>quit_\<close> is set,
  the eventfd is readable or another thread's next statement makes it readable, whatever the
  interleaving. The one exception is a functor that the loop's own thread queued before it entered
  \<open>loop()\<close>, for which nobody writes the eventfd. And a whole call of \<open>queueInLoop\<close> or \<open>quit\<close> in
  another thread leaves the eventfd readable in any state of the loop.
\<close>

theorem no_lost_wakeup:
  fixes w :: "('f, 'h) world"
  assumes "reach el_init (el_step fb hb) w" and "pc w = InPoll"
  shows "(quit_flag (lp w) \<longrightarrow> woken w) \<and> (pending (lp w) \<noteq> [] \<longrightarrow> \<not> quiet w \<longrightarrow> woken w) \<and>
    (\<forall>t cb. \<forall>l :: 'f event_loop. t \<noteq> thread_id l \<longrightarrow> 0 < wakeup_count (queueInLoop t cb l) \<and> 0 < wakeup_count (el_quit t l))"
proof -
  have "el_inv w" by (rule els.reach_inv [OF assms(1)])
  with assms(2) have "idle w" "quit_flag (lp w) \<longrightarrow> rings w" "pending (lp w) \<noteq> [] \<longrightarrow> rings w \<or> quiet w \<or> about_to_ring w"
    by (auto simp: el_inv_def)
  then show ?thesis
    by (auto simp: about_to_ring_def idle_def queueInLoop_eq el_quit_eq isInLoopThread_def Let_def intro: rings_wakes)
qed

theorem no_lost_wakeup_witness:
  "pending (lp sample_world) \<noteq> [] \<and> woken sample_world \<and> 0 < wakeup_count (queueInLoop 2 9 (lp sample_world))"
proof -
  have "pc sample_world = InPoll" "pending (lp sample_world) \<noteq> []" "\<not> quiet sample_world" "2 \<noteq> thread_id (lp sample_world)"
    by (simp_all add: sample_world_def)
  note s = this
  from no_lost_wakeup [OF sample_world_reach [of "\<lambda>_ _. True" "\<lambda>_ _. True"] s(1)] have
    "pending (lp sample_world) \<noteq> [] \<longrightarrow> \<not> quiet sample_world \<longrightarrow> woken sample_world"
    "2 \<noteq> thread_id (lp sample_world) \<longrightarrow> 0 < wakeup_count (queueInLoop 2 9 (lp sample_world))" by blast+
  with s(2-4) show ?thesis by blast
qed

text \<open>
  C9. \<open>loop()\<close> as written refines the interleaving. Take a functor or a handler to be a function on
  the loop that makes some list of calls of \<open>queueInLoop\<close> and \<open>quit\<close> which the relation \<open>fb\<close> or \<open>hb\<close>
  allows it (a handler also of \<open>handleRead\<close>). For every list of answers of \<open>poll\<close> and every reachable
  state outside the loop, a run of the function is a run of steps of the loop's thread alone, from
  the entry on, with the same end state:
  outside the loop if the function has returned and in \<open>poll\<close> otherwise. The run calls exactly the
  handlers of the answers that were taken, in order: all answers if the function has not returned,
  and otherwise those up to the first after which it has; and for each functor that is called the calls that \<open>fb\<close> allows it; every functor ever queued has
  been called, in order, or is still pending at the end; and no other thread has moved.
\<close>

theorem loop_refines_steps:
  assumes "functors_do fb run" and "handlers_do hb handle" and "reach el_init (el_step fb hb) w"
    and "pc w = Outside" and "idle w" and "el_loop self run handle polls (lp w) = Inr (b, l')"
  shows "self = thread_id (lp w) \<and> (\<exists>w' n. (loop_step fb hb)\<^sup>*\<^sup>* (entered w) w' \<and> lp w' = l' \<and> pc w' = (if b then Outside else InPoll) \<and>
    idle w' \<and> (\<forall>t. t \<noteq> self \<longrightarrow> code w' t = code w t) \<and>
    handled w' = handled w @ concat (take n polls) \<and> n \<le> length polls \<and> (b \<or> n = length polls) \<and>
    el_loop self run handle (take n polls) (lp w) = Inr (b, l') \<and>
    (\<forall>k < n. \<exists>l. el_loop self run handle (take k polls) (lp w) = Inr (False, l)) \<and>
    (\<exists>fs. called w' = called w @ fs) \<and> queued w' = called w' @ pending l')"
proof -
  from assms(6) have self: "self = thread_id (lp w)"
    and l: "loop_while run handle polls ((lp w)\<lparr>looping := True, quit_flag := False\<rparr>) = Inr (b, l')" and out: "\<not> looping (lp w)"
    by (auto simp: el_loop_def result_simps isInLoopThread_def split: if_splits)
  let ?w = "entered w"
  have w: "lp ?w = (lp w)\<lparr>looping := True, quit_flag := False\<rparr>" "pc ?w = AtTest" "idle ?w" "handled ?w = handled w"
    "called ?w = called w" "code ?w = code w" using assms(5) by (simp_all add: entered_def idle_def)
  from while_ran [OF assms(1,2) _ w(2,3), of polls] l w(1) obtain w' fs n where
    w': "ran_to fb hb ?w l' (if b then Outside else InPoll) fs (concat (take n polls)) w'" and n: "n \<le> length polls" "b \<or> n = length polls"
      "loop_while run handle (take n polls) (lp ?w) = Inr (b, l')"
      "\<forall>k < n. \<exists>l. loop_while run handle (take k polls) (lp ?w) = Inr (False, l)" by auto
  have el: "el_loop self run handle ps (lp w) = loop_while run handle ps (lp ?w)" for ps
    using self out w(1) by (simp add: el_loop_def isInLoopThread_def)
  from w' have steps: "(loop_step fb hb)\<^sup>*\<^sup>* ?w w'" by (simp add: ran_to_def)
  then have all: "(el_step fb hb)\<^sup>*\<^sup>* ?w w'" by (rule rtranclp_mono [THEN predicate2D, rotated]) (blast intro: loop)
  have "el_inv ?w" by (rule els.step_inv [OF els.reach_inv [OF assms(3)] enter [OF assms(4,5)]])
  from els.steps_inv [OF all this] have "queued w' = called w' @ pending l'"
    using w' by (auto simp: el_inv_def ran_to_def split: if_splits)
  moreover have "el_loop self run handle (take n polls) (lp w) = Inr (b, l')"
    "\<forall>k < n. \<exists>l. el_loop self run handle (take k polls) (lp w) = Inr (False, l)"
    using n(3,4) unfolding el by blast+
  moreover have "lp w' = l'" "pc w' = (if b then Outside else InPoll)" "idle w'" "\<forall>t. t \<noteq> self \<longrightarrow> code w' t = code w t"
    "called w' = called w @ fs" "handled w' = handled w @ concat (take n polls)" using w' self w by (simp_all add: ran_to_def)
  ultimately show ?thesis using steps n(1,2) self by (intro conjI exI [of _ w'] exI [of _ n] exI [of _ fs])
qed

theorem loop_refines_steps_witness:
  "\<exists>w'. (loop_step (\<lambda>f cs. cs = [QueueInLoop (f + 1)]) (\<lambda>h cs. cs = [QueueInLoop 5, Quit]))\<^sup>*\<^sup>* (entered sample_start) w' \<and> pc w' = Outside \<and>
     handled w' = [()] \<and> queued w' = called w' @ [6]"
proof -
  let ?fb = "\<lambda>f cs. cs = [QueueInLoop (f + 1)]" and ?hb = "\<lambda>h cs. cs = [QueueInLoop 5, Quit]"
  let ?run = "\<lambda>f l. Inr (exec_all (thread_id l) (codes [QueueInLoop (f + 1)]) l) :: nat event_loop result"
  let ?handle = "\<lambda>h l. Inr (exec_all (thread_id l) (codes [QueueInLoop 5, Quit]) l) :: nat event_loop result"
  let ?l' = "\<lparr>looping = False, quit_flag = True, calling_pending = False, thread_id = 1, wakeup_count = 1, pending = [6]\<rparr> :: nat event_loop"
  have own: "functors_do ?fb ?run" "handlers_do ?hb ?handle" by (auto simp: functors_do_def handlers_do_def)
  have at: "pc sample_start = Outside" "idle sample_start" by (simp_all add: sample_start_def idle_def)
  note eval = el_loop_def isInLoopThread_def sample_start_def doPendingFunctors_def swap_pending_def codes_def call_code_def
    exec_stmt_def push_pending_def wakeup_def
  have el: "el_loop 1 ?run ?handle [[()], [()]] (lp sample_start) = Inr (True, ?l')"
    "el_loop 1 ?run ?handle [[()]] (lp sample_start) = Inr (True, ?l')"
    "fst (projr (el_loop 1 ?run ?handle ([] :: unit list list) (lp sample_start))) = False" by (simp_all add: eval Let_def)
  from loop_refines_steps [OF own sample_start_reach at el(1)] obtain w' n where
    w': "(loop_step ?fb ?hb)\<^sup>*\<^sup>* (entered sample_start) w'" "pc w' = Outside" "handled w' = handled sample_start @ concat (take n [[()], [()]])"
      "queued w' = called w' @ [6]" and n: "n \<le> 2"
      "el_loop 1 ?run ?handle (take n [[()], [()]]) (lp sample_start) = Inr (True, ?l')"
      "\<forall>k < n. \<exists>l. el_loop 1 ?run ?handle (take k [[()], [()]]) (lp sample_start) = Inr (False, l)" by auto
  have "n \<noteq> 0" by (rule notI) (use n(2) el(3) in simp)
  moreover have "\<not> 1 < n" using n(3) [rule_format, of 1] el(2) by auto
  ultimately have "n = 1" by simp
  with w' show ?thesis by (intro exI [of _ w']) (simp add: sample_start_def)
qed

text \<open>
  A \<open>quit()\<close> that comes before \<open>loop()\<close> is lost: entering the loop clears the flag, and from then
  on the loop is not left, whatever the threads do, unless somebody calls \<open>quit()\<close> again.
\<close>

theorem early_quit_is_lost:
  assumes "pc w = Outside" and "el_step fb hb w w1" and "pc w1 = AtTest"
    and later: "(\<lambda>v v'. el_step fb hb v v' \<and> (quit_flag (lp v') \<longrightarrow> quit_flag (lp v)))\<^sup>*\<^sup>* w1 w'"
  shows "pc w' \<noteq> Outside \<and> \<not> quit_flag (lp w')"
proof -
  have exec: "pc (exec_next t v) = pc v" for t and v :: "('a, 'b) world"
    by (simp add: exec_next_def split: list.split)
  have "\<not> quit_flag (lp w1)"
    using assms(2)
  proof cases
    case loop
    then show ?thesis by cases (use assms(1,3) exec in auto)
  qed (use assms(1,3) exec in \<open>auto simp: entered_def\<close>)
  with later assms(3) show ?thesis
  proof (induction rule: rtranclp_induct)
    case base
    then show ?case by simp
  next
    case (step v v')
    then have v: "el_step fb hb v v'" "pc v \<noteq> Outside" "\<not> quit_flag (lp v)" "\<not> quit_flag (lp v')" by auto
    from v(1) have "pc v' \<noteq> Outside"
    proof cases
      case loop
      then show ?thesis by cases (use v(2,3) exec in auto)
    qed (use v(2,3) exec in auto)
    with v(4) show ?case by blast
  qed
qed

theorem early_quit_is_lost_witness:
  "\<exists>w w1. quit_flag (lp (w :: (nat, unit) world)) \<and> el_step (\<lambda>_ _. True) (\<lambda>_ _. True) w w1 \<and> \<not> quit_flag (lp w1) \<and> pc w1 \<noteq> Outside"
proof -
  let ?w = "sample_start\<lparr>lp := (lp sample_start)\<lparr>quit_flag := True\<rparr>\<rparr>"
  let ?w1 = "entered ?w"
  have pc: "pc ?w = Outside" "idle ?w" by (simp_all add: sample_start_def idle_def)
  have s: "el_step (\<lambda>_ _. True) (\<lambda>_ _. True) ?w ?w1" by (rule enter [OF pc])
  have "pc ?w1 = AtTest" by (simp add: entered_def)
  from early_quit_is_lost [OF pc(1) s this rtranclp.rtrancl_refl] s show ?thesis
    by - (rule exI [of _ ?w], rule exI [of _ ?w1], simp add: entered_def)
qed

end
