(* ===== verification/Tcp_Connection.thy ===== *)
theory Tcp_Connection
  imports Byte_Buffer Sockets Pollers
begin

text \<open>
  TcpConnection (src/net/TcpConnection.h, TcpConnection.cpp): one connection with its channel, its
  socket and its two buffers, for clients and servers.

  A \<open>conn_world\<close> is the connection, the poller of its loop with the channel in it, what the kernel
  was asked to do (\<open>io\<close>, in order) and the functors that were queued in the loop (\<open>tasks\<close>). The
  results of \<open>write\<close> and \<open>readv\<close> and the calling thread are arguments. The four callbacks of the user
  are functions of the world; an empty \<open>std::function\<close> is \<open>None\<close>, and calling it is a fault.
\<close>

section \<open>State\<close>

datatype conn_state = Connecting | Connected | Disconnecting | Disconnected

datatype conn_handler = ConnRead | ConnWrite | ConnClose | ConnError

record tcp_conn =
  cname :: string
  cstate :: conn_state
  csocket :: socket
  cref :: chref
  local_addr :: sockaddr_in
  peer_addr :: sockaddr_in
  inbuf :: byte_buffer
  outbuf :: byte_buffer

datatype io_event = Wrote int "byte list" | Sys sys_event

datatype conn_task = TSend "byte list" | TShutdown | TWriteComplete

record conn_world =
  conn :: tcp_conn
  rx :: "conn_handler reactor"
  io :: "io_event list"
  tasks :: "conn_task list"

record conn_callbacks =
  on_connection :: "(conn_world \<Rightarrow> conn_world result) option"
  on_message :: "(timestamp \<Rightarrow> conn_world \<Rightarrow> conn_world result) option"
  on_write_complete :: "(conn_world \<Rightarrow> conn_world result) option"
  on_close :: "(conn_world \<Rightarrow> conn_world result) option"

definition call_cb :: "('a \<Rightarrow> 'b result) option \<Rightarrow> 'a \<Rightarrow> 'b result" where
  "call_cb f a = (case f of None \<Rightarrow> Inl BadCall | Some g \<Rightarrow> g a)"

definition conn_fd :: "conn_world \<Rightarrow> int" where
  "conn_fd w = sockfd (csocket (conn w))"

text \<open>The channel, through the \<open>unique_ptr\<close> of the connection.\<close>

definition on_chan :: "(conn_handler channel \<Rightarrow> 'b result) \<Rightarrow> conn_world \<Rightarrow> 'b result" where
  "on_chan f w = deref (cref (conn w)) f (rx w)"

definition on_poller :: "(conn_handler reactor \<Rightarrow> conn_handler reactor result) \<Rightarrow> conn_world \<Rightarrow> conn_world result" where
  "on_poller f w = rbind (f (rx w)) (\<lambda>r. Inr (w\<lparr>rx := r\<rparr>))"

definition conn_assertInLoop :: "tid \<Rightarrow> conn_world \<Rightarrow> 'b result \<Rightarrow> 'b result" where
  "conn_assertInLoop self w k = assertInLoopThread self (rx w) k"

definition set_state :: "conn_state \<Rightarrow> conn_world \<Rightarrow> conn_world" where
  "set_state s w = w\<lparr>conn := (conn w)\<lparr>cstate := s\<rparr>\<rparr>"

definition set_outbuf :: "byte_buffer \<Rightarrow> conn_world \<Rightarrow> conn_world" where
  "set_outbuf b w = w\<lparr>conn := (conn w)\<lparr>outbuf := b\<rparr>\<rparr>"

definition set_inbuf :: "byte_buffer \<Rightarrow> conn_world \<Rightarrow> conn_world" where
  "set_inbuf b w = w\<lparr>conn := (conn w)\<lparr>inbuf := b\<rparr>\<rparr>"

definition queue_task :: "conn_task \<Rightarrow> conn_world \<Rightarrow> conn_world" where
  "queue_task t w = w\<lparr>tasks := tasks w @ [t]\<rparr>"

definition log_io :: "io_event list \<Rightarrow> conn_world \<Rightarrow> conn_world" where
  "log_io es w = w\<lparr>io := io w @ es\<rparr>"

section \<open>Construction and destruction\<close>

definition TcpConnection_new ::
  "string \<Rightarrow> int \<Rightarrow> sockaddr_in \<Rightarrow> sockaddr_in \<Rightarrow> chref \<Rightarrow> conn_handler reactor \<Rightarrow> conn_world result" where
  "TcpConnection_new name fd localAddr peerAddr ref r =
     rbind Buffer_new (\<lambda>b.
     Inr \<lparr>conn = \<lparr>cname = name, cstate = Connecting, csocket = Socket_new fd, cref = ref,
                   local_addr = localAddr, peer_addr = peerAddr, inbuf = b, outbuf = b\<rparr>,
          rx = new_chan ref (setErrorCallback ConnError (setCloseCallback ConnClose
                 (setWriteCallback ConnWrite (setReadCallback ConnRead (Channel_new fd))))) r,
          io = [], tasks = []\<rparr>)"

text \<open>Members are destroyed in reverse order: the channel, then the socket, which closes.\<close>

definition TcpConnection_dtor :: "conn_world \<Rightarrow> conn_world result" where
  "TcpConnection_dtor w =
     rbind (on_poller (delete_chan (cref (conn w))) w) (\<lambda>w.
     Inr (log_io (map Sys (Socket_dtor (csocket (conn w)))) w))"

section \<open>Sending\<close>

definition sendInLoop ::
  "conn_callbacks \<Rightarrow> tid \<Rightarrow> byte list \<Rightarrow> nat syscall \<Rightarrow> conn_world \<Rightarrow> conn_world result" where
  "sendInLoop cbs self message wr w = conn_assertInLoop self w (on_chan (\<lambda>c.
     let (nwrote, w) =
       (if \<not> isWriting c \<and> readableBytes (outbuf (conn w)) = 0
        then (case wr of
                Ret n \<Rightarrow> (n, let w = log_io [Wrote (chan_fd c) (take n message)] w in
                           if n < length message then w
                           else if on_write_complete cbs \<noteq> None then queue_task TWriteComplete w else w)
              | Err _ \<Rightarrow> (0, w))
        else (0, w))
     in if nwrote < length message
        then rbind (buffer_append (drop nwrote message) (outbuf (conn w))) (\<lambda>b.
             let w = set_outbuf b w in
             if \<not> isWriting c then on_poller (enableWriting self (cref (conn w))) w else Inr w)
        else Inr w) w)"

definition connected :: "conn_world \<Rightarrow> bool" where
  "connected w \<longleftrightarrow> cstate (conn w) = Connected"

definition conn_setCloseCallback :: "(conn_world \<Rightarrow> conn_world result) option \<Rightarrow> conn_callbacks \<Rightarrow> conn_callbacks" where
  "conn_setCloseCallback cb cbs = cbs\<lparr>on_close := cb\<rparr>"

declare connected_def [simp]

definition conn_send ::
  "conn_callbacks \<Rightarrow> tid \<Rightarrow> byte list \<Rightarrow> nat syscall \<Rightarrow> conn_world \<Rightarrow> conn_world result" where
  "conn_send cbs self message wr w =
     (if cstate (conn w) = Connected
      then (if self = loop_tid (rx w) then sendInLoop cbs self message wr w
            else Inr (queue_task (TSend message) w))
      else Inr w)"

definition shutdownInLoop :: "tid \<Rightarrow> conn_world \<Rightarrow> conn_world result" where
  "shutdownInLoop self w = conn_assertInLoop self w (on_chan (\<lambda>c.
     if \<not> isWriting c then Inr (log_io (map Sys (Socket_shutdownWrite (csocket (conn w)))) w) else Inr w) w)"

definition conn_shutdown :: "tid \<Rightarrow> conn_world \<Rightarrow> conn_world result" where
  "conn_shutdown self w =
     (if cstate (conn w) = Connected
      then (let w = set_state Disconnecting w in
            if self = loop_tid (rx w) then shutdownInLoop self w else Inr (queue_task TShutdown w))
      else Inr w)"

definition conn_setTcpNoDelay :: "bool \<Rightarrow> conn_world \<Rightarrow> conn_world" where
  "conn_setTcpNoDelay on w = log_io (map Sys (Socket_setTcpNoDelay (csocket (conn w)) on)) w"

section \<open>Events of the channel\<close>

definition conn_handleError :: "int syscall \<Rightarrow> conn_world \<Rightarrow> conn_world result" where
  "conn_handleError so w = (let err = getSocketError so in Inr w)"

definition conn_handleClose :: "conn_callbacks \<Rightarrow> tid \<Rightarrow> conn_world \<Rightarrow> conn_world result" where
  "conn_handleClose cbs self w = conn_assertInLoop self w
     (assertC (cstate (conn w) = Connected \<or> cstate (conn w) = Disconnecting)
     (rbind (on_poller (disableAll self (cref (conn w))) w) (call_cb (on_close cbs))))"

definition conn_handleRead ::
  "conn_callbacks \<Rightarrow> tid \<Rightarrow> timestamp \<Rightarrow> read_outcome \<Rightarrow> int syscall \<Rightarrow> conn_world \<Rightarrow> conn_world result" where
  "conn_handleRead cbs self receive rd so w =
     rbind (readFd rd 0 (inbuf (conn w))) (\<lambda>(n, savedErrno, b).
     let w = set_inbuf b w in
     if 0 < n then (case on_message cbs of None \<Rightarrow> Inl BadCall | Some f \<Rightarrow> f (Timestamp n) w)
     else if n = 0 then conn_handleClose cbs self w
     else conn_handleError so w)"

definition conn_handleWrite :: "conn_callbacks \<Rightarrow> tid \<Rightarrow> nat syscall \<Rightarrow> conn_world \<Rightarrow> conn_world result" where
  "conn_handleWrite cbs self wr w = conn_assertInLoop self w (on_chan (\<lambda>c.
     if isWriting c
     then (case wr of
         Ret n \<Rightarrow>
           if 0 < n
           then rbind (retrieve (of_nat n) (outbuf (conn w))) (\<lambda>b.
             let w = set_outbuf b (log_io [Wrote (chan_fd c) (take n (contents (outbuf (conn w))))] w) in
             if readableBytes b = 0
             then rbind (on_poller (disableWriting self (cref (conn w))) w) (\<lambda>w.
                  let w = (if on_write_complete cbs \<noteq> None then queue_task TWriteComplete w else w) in
                  if cstate (conn w) = Disconnecting then shutdownInLoop self w else Inr w)
             else Inr w)
           else Inl Aborted
       | Err _ \<Rightarrow> Inl Aborted)
     else Inr w) w)"

definition connectEstablished :: "conn_callbacks \<Rightarrow> tid \<Rightarrow> conn_world \<Rightarrow> conn_world result" where
  "connectEstablished cbs self w = conn_assertInLoop self w
     (assertC (cstate (conn w) = Connecting)
     (rbind (on_poller (enableReading self (cref (conn w))) (set_state Connected w)) (call_cb (on_connection cbs))))"

definition connectDestroyed :: "conn_callbacks \<Rightarrow> tid \<Rightarrow> conn_world \<Rightarrow> conn_world result" where
  "connectDestroyed cbs self w = conn_assertInLoop self w
     (assertC (cstate (conn w) = Connected \<or> cstate (conn w) = Disconnecting)
     (rbind (on_poller (disableAll self (cref (conn w))) (set_state Disconnected w)) (\<lambda>w.
      rbind (call_cb (on_connection cbs) w) (\<lambda>w.
      on_poller (removeChannel self (cref (conn w))) w))))"

text \<open>The functions that the constructor puts into the channel.\<close>

record conn_inputs =
  in_read :: read_outcome
  in_write :: "nat syscall"
  in_error :: "int syscall"

definition conn_dispatch ::
  "conn_callbacks \<Rightarrow> tid \<Rightarrow> conn_inputs \<Rightarrow> conn_handler \<Rightarrow> event_call \<Rightarrow> conn_world \<Rightarrow> conn_world result" where
  "conn_dispatch cbs self os h call w =
     (case h of
        ConnRead \<Rightarrow> (case call of ReadCall t \<Rightarrow> conn_handleRead cbs self t (in_read os) (in_error os) w | _ \<Rightarrow> Inl BadCall)
      | ConnWrite \<Rightarrow> conn_handleWrite cbs self (in_write os) w
      | ConnClose \<Rightarrow> conn_handleClose cbs self w
      | ConnError \<Rightarrow> conn_handleError (in_error os) w)"

text \<open>A channel with the four callbacks that the constructor sets.\<close>

definition wired :: "conn_handler channel \<Rightarrow> bool" where
  "wired c \<longleftrightarrow> readCallback c = Some ConnRead \<and> writeCallback c = Some ConnWrite \<and>
     closeCallback c = Some ConnClose \<and> errorCallback c = Some ConnError"

text \<open>The functors of the loop; they hold a pointer to the connection.\<close>

definition run_task :: "conn_callbacks \<Rightarrow> tid \<Rightarrow> nat syscall \<Rightarrow> conn_task \<Rightarrow> conn_world \<Rightarrow> conn_world result" where
  "run_task cbs self wr t w =
     (case t of
        TSend message \<Rightarrow> sendInLoop cbs self message wr w
      | TShutdown \<Rightarrow> shutdownInLoop self w
      | TWriteComplete \<Rightarrow> call_cb (on_write_complete cbs) w)"

section \<open>The channel of a connection\<close>

lemma conj_distrib: "(a OR b) AND (m :: event_bits) = 0 \<longleftrightarrow> a AND m = 0 \<and> b AND m = 0"
  by (simp add: bit.conj_disj_distrib2 or_eq_0_iff)

lemma writing_bits:
  "isWriting (c\<lparr>events := events c OR kWriteEvent\<rparr>)" "\<not> isWriting (c\<lparr>events := events c AND NOT kWriteEvent\<rparr>)"
  "isWriting (c\<lparr>events := events c OR kReadEvent\<rparr>) = isWriting c" "\<not> isWriting (c\<lparr>events := kNoneEvent\<rparr>)"
  by (simp_all add: isWriting_def has_bits_def conj_distrib kNoneEvent_def and.assoc)

section \<open>Invariant\<close>

text \<open>
  The channel asks for write events only while there is output, and always then unless all events
  are off because the connection has been closed. While the connection is up the channel is
  registered.
\<close>

definition chan_agrees :: "conn_world \<Rightarrow> conn_handler channel \<Rightarrow> bool" where
  "chan_agrees w c \<longleftrightarrow> chan_fd c = conn_fd w \<and>
     (cstate (conn w) \<in> {Connected, Disconnecting} \<longrightarrow> channel_map (rx w) (conn_fd w) = Some (cref (conn w))) \<and>
     (isWriting c \<longrightarrow> contents (outbuf (conn w)) \<noteq> []) \<and>
     (contents (outbuf (conn w)) \<noteq> [] \<longrightarrow> isWriting c \<or> isNoneEvent c \<and> cstate (conn w) \<noteq> Connecting)"

definition conn_inv :: "conn_world \<Rightarrow> bool" where
  "conn_inv w \<longleftrightarrow> reactor_inv (rx w) \<and> buf_inv (inbuf (conn w)) \<and> buf_inv (outbuf (conn w)) \<and>
     (\<exists>c. chans (rx w) (cref (conn w)) = Some c \<and> chan_agrees w c)"

lemma conn_invD:
  assumes "conn_inv w"
  obtains c where "reactor_inv (rx w)" "buf_inv (inbuf (conn w))" "buf_inv (outbuf (conn w))"
    "chans (rx w) (cref (conn w)) = Some c" "chan_agrees w c"
  using assms unfolding conn_inv_def by blast

lemma conn_invI:
  assumes "reactor_inv (rx w)" "buf_inv (inbuf (conn w))" "buf_inv (outbuf (conn w))"
    "chans (rx w) (cref (conn w)) = Some c" "chan_agrees w c"
  shows "conn_inv w"
  using assms unfolding conn_inv_def by blast

named_theorems conn_simps

lemma world_frames [conn_simps]:
  "conn (set_state s w) = (conn w)\<lparr>cstate := s\<rparr>" "rx (set_state s w) = rx w" "io (set_state s w) = io w"
  "conn (set_outbuf b w) = (conn w)\<lparr>outbuf := b\<rparr>" "rx (set_outbuf b w) = rx w" "io (set_outbuf b w) = io w"
  "conn (set_inbuf b w) = (conn w)\<lparr>inbuf := b\<rparr>" "rx (set_inbuf b w) = rx w" "io (set_inbuf b w) = io w"
  "conn (queue_task t w) = conn w" "rx (queue_task t w) = rx w" "io (queue_task t w) = io w"
  "conn (log_io es w) = conn w" "rx (log_io es w) = rx w" "io (log_io es w) = io w @ es"
  "tasks (set_state s w) = tasks w" "tasks (set_outbuf b w) = tasks w" "tasks (set_inbuf b w) = tasks w"
  "tasks (queue_task t w) = tasks w @ [t]" "tasks (log_io es w) = tasks w"
  by (simp_all add: set_state_def set_outbuf_def set_inbuf_def queue_task_def log_io_def)

lemma conn_assert_self: "conn_assertInLoop self w k = Inr x \<Longrightarrow> self = loop_tid (rx w) \<and> k = Inr x"
  by (simp add: conn_assertInLoop_def assertInLoopThread_def split: if_splits)

lemma conn_assert_ok [simp]: "self = loop_tid (rx w) \<Longrightarrow> conn_assertInLoop self w k = k"
  by (simp add: conn_assertInLoop_def assertInLoopThread_def)

lemma on_chan_eq: "chans (rx w) (cref (conn w)) = Some c \<Longrightarrow> on_chan f w = f c"
  by (simp add: on_chan_def deref_def)

lemma readable_zero: "buf_inv b \<Longrightarrow> readableBytes b = 0 \<longleftrightarrow> contents b = []"
  using length_contents [of b] by (metis length_0_conv unat_eq_zero)

text \<open>Changing the events of the channel while the connection is registered.\<close>

lemma change_total:
  assumes inv: "conn_inv w" and up: "cstate (conn w) \<in> {Connected, Disconnecting}" and self: "self = loop_tid (rx w)"
    and c: "chans (rx w) (cref (conn w)) = Some c"
  shows "\<exists>r. change_events f self (cref (conn w)) (rx w) = Inr r \<and> reactor_inv r \<and> loop_tid r = loop_tid (rx w) \<and>
    chans r (cref (conn w)) = Some (c\<lparr>events := f (events c)\<rparr>) \<and> channel_map r = channel_map (rx w)"
proof -
  from inv obtain d where d: "reactor_inv (rx w)" "chans (rx w) (cref (conn w)) = Some d" "chan_agrees w d"
    unfolding conn_inv_def by blast
  with c have "chan_agrees w c" by simp
  with up d(1) have i: "reactor_inv (rx w)" "chan_fd c = conn_fd w"
    "channel_map (rx w) (chan_fd c) = Some (cref (conn w))"
    by (simp_all add: chan_agrees_def)
  note op = change_events_known [OF i(1) c i(3) self, of f]
  have "loop_tid (updated ref d q) = loop_tid q" "channel_map (updated ref d q) = channel_map q"
    "chans (updated ref d q) ref = Some d" for ref d and q :: "conn_handler reactor"
    by (simp_all add: updated_def)
  with op reg.change_ok [OF i(1) op] show ?thesis by blast
qed

section \<open>The stream to the peer\<close>

definition written :: "conn_world \<Rightarrow> byte list" where
  "written w = concat (map (\<lambda>e. case e of Wrote _ d \<Rightarrow> d | Sys _ \<Rightarrow> []) (io w))"

definition stream :: "conn_world \<Rightarrow> byte list" where
  "stream w = written w @ contents (outbuf (conn w))"

text \<open>What no operation on the stream changes.\<close>

definition same_conn :: "conn_world \<Rightarrow> conn_world \<Rightarrow> bool" where
  "same_conn w w' \<longleftrightarrow> cref (conn w') = cref (conn w) \<and> csocket (conn w') = csocket (conn w) \<and>
     loop_tid (rx w') = loop_tid (rx w) \<and> cname (conn w') = cname (conn w)"

lemma same_conn_refl [simp]: "same_conn w w"
  by (simp add: same_conn_def)

lemma same_conn_trans: "same_conn u v \<Longrightarrow> same_conn v w \<Longrightarrow> same_conn u w"
  by (simp add: same_conn_def)

lemma written_log [conn_simps]:
  "written (log_io [Wrote fd d] w) = written w @ d" "written (log_io (map Sys es) w) = written w"
  "written (set_outbuf b w) = written w" "written (set_inbuf b w) = written w" "written (queue_task t w) = written w"
  "written (set_state st w) = written w" "written (w\<lparr>rx := r\<rparr>) = written w"
  by (simp_all add: written_def conn_simps comp_def)

lemma conn_fd_frames [conn_simps]:
  "conn_fd (log_io es w) = conn_fd w" "conn_fd (set_outbuf b w) = conn_fd w" "conn_fd (set_inbuf b w) = conn_fd w"
  "conn_fd (queue_task t w) = conn_fd w" "conn_fd (set_state st w) = conn_fd w" "conn_fd (w\<lparr>rx := r\<rparr>) = conn_fd w"
  by (simp_all add: conn_fd_def conn_simps)

text \<open>The attempt of \<open>sendInLoop\<close> to write directly.\<close>

definition direct_write ::
  "conn_callbacks \<Rightarrow> byte list \<Rightarrow> nat syscall \<Rightarrow> conn_handler channel \<Rightarrow> conn_world \<Rightarrow> nat \<times> conn_world" where
  "direct_write cbs message wr c w =
     (if \<not> isWriting c \<and> readableBytes (outbuf (conn w)) = 0
      then (case wr of
              Ret n \<Rightarrow> (n, let w = log_io [Wrote (chan_fd c) (take n message)] w in
                         if n < length message then w
                         else if on_write_complete cbs \<noteq> None then queue_task TWriteComplete w else w)
            | Err _ \<Rightarrow> (0, w))
      else (0, w))"

lemma direct_write_ok:
  assumes "buf_inv (outbuf (conn w))" and "\<And>n. wr = Ret n \<Longrightarrow> n \<le> length message"
    and "direct_write cbs message wr c w = (k, w1)"
  shows "conn w1 = conn w \<and> rx w1 = rx w \<and> k \<le> length message \<and> written w1 = written w @ take k message \<and>
    (0 < k \<longrightarrow> contents (outbuf (conn w)) = [])"
  using assms readable_zero [OF assms(1)]
  by (cases wr) (auto simp: direct_write_def Let_def conn_simps split: if_splits)

lemma sendInLoop_alt:
  "sendInLoop cbs self message wr w = conn_assertInLoop self w (on_chan (\<lambda>c.
     case direct_write cbs message wr c w of (k, w1) \<Rightarrow>
       if k < length message
       then rbind (buffer_append (drop k message) (outbuf (conn w1))) (\<lambda>b.
            if \<not> isWriting c then on_poller (enableWriting self (cref (conn w1))) (set_outbuf b w1) else Inr (set_outbuf b w1))
       else Inr w1) w)"
  by (simp add: sendInLoop_def direct_write_def Let_def conn_simps cong: if_cong)

lemma sendInLoop_ok:
  assumes inv: "conn_inv w" and doc: "\<And>n. wr = Ret n \<Longrightarrow> n \<le> length message"
    and room: "room (outbuf (conn w)) (length message)"
    and op: "sendInLoop cbs self message wr w = Inr w'"
  shows "conn_inv w' \<and> stream w' = stream w @ message \<and> same_conn w w' \<and> cstate (conn w') = cstate (conn w)"
proof -
  from inv obtain c where i: "reactor_inv (rx w)" "buf_inv (inbuf (conn w))" "buf_inv (outbuf (conn w))"
    "chans (rx w) (cref (conn w)) = Some c" "chan_agrees w c" by (rule conn_invD) blast
  obtain k w1 where d: "direct_write cbs message wr c w = (k, w1)" by fastforce
  from direct_write_ok [OF i(3) doc d] have
    w1: "conn w1 = conn w" "rx w1 = rx w" "k \<le> length message" "written w1 = written w @ take k message"
      "0 < k \<longrightarrow> contents (outbuf (conn w)) = []" by blast+
  from op have self: "self = loop_tid (rx w)" and op1:
    "(if k < length message
       then rbind (buffer_append (drop k message) (outbuf (conn w))) (\<lambda>b.
            if \<not> isWriting c then on_poller (enableWriting self (cref (conn w))) (set_outbuf b w1) else Inr (set_outbuf b w1))
       else Inr w1) = Inr w'"
    unfolding sendInLoop_alt by (auto dest!: conn_assert_self simp: on_chan_eq [of w c] i(4) d w1(1) cong: if_cong)
  show ?thesis
  proof (cases "k < length message")
    case False
    then have "k = length message" and w': "w' = w1" using op1 w1(3) by auto
    then have "stream w' = stream w @ message" using w1 by (cases "k = 0") (auto simp: stream_def)
    moreover have "conn_inv w'"
      using i by (intro conn_invI [of w' c]) (simp_all add: w' w1 chan_agrees_def conn_fd_def)
    ultimately show ?thesis by (simp add: w' w1 same_conn_def)
  next
    case True
    from bb.queue_rest [OF i(3) room, of k] obtain b where
      b: "buffer_append (drop k message) (outbuf (conn w)) = Inr b" "buf_inv b"
        "contents b = contents (outbuf (conn w)) @ drop k message" by blast
    have ne: "contents b \<noteq> []" using b(3) True by simp
    let ?w2 = "set_outbuf b w1"
    have st: "written w1 @ contents b = stream w @ message" using w1(3,4,5) b(3) by (cases "k = 0") (auto simp: stream_def)
    show ?thesis
    proof (cases "isWriting c")
      case yes: True
      with op1 True b(1) have w': "w' = ?w2" by simp
      have "conn_inv w'"
        using i b(2) ne yes by (intro conn_invI [of w' c]) (simp_all add: w' conn_simps w1 chan_agrees_def conn_fd_def)
      with st show ?thesis by (simp add: w' conn_simps w1 same_conn_def stream_def)
    next
      case no: False
      with op1 True b(1) obtain r where r: "enableWriting self (cref (conn w)) (rx w) = Inr r" "w' = ?w2\<lparr>rx := r\<rparr>"
        by (auto simp: on_poller_def result_simps conn_simps w1)
      from change_events_chan [OF i(1,4) r(1) [unfolded enableWriting_def]] obtain j where
        j: "reactor_inv r" "loop_tid r = loop_tid (rx w)" "channel_map r (chan_fd c) = Some (cref (conn w))"
          "chans r (cref (conn w)) = Some (c\<lparr>events := events c OR kWriteEvent, index := j\<rparr>)" by blast
      let ?c = "c\<lparr>events := events c OR kWriteEvent, index := j\<rparr>"
      have wr_c: "isWriting ?c" using writing_bits(1) [of c] by (simp add: isWriting_def)
      have "conn_inv w'"
        using i(2,5) b(2) ne j wr_c
        by (intro conn_invI [of w' ?c]) (simp_all add: r(2) conn_simps w1 chan_agrees_def conn_fd_def)
      with st j(2) show ?thesis by (simp add: r(2) conn_simps w1 same_conn_def stream_def)
    qed
  qed
qed

lemma sendInLoop_total:
  assumes inv: "conn_inv w" and doc: "\<And>n. wr = Ret n \<Longrightarrow> n \<le> length message"
    and room: "room (outbuf (conn w)) (length message)" and self: "self = loop_tid (rx w)"
    and up: "cstate (conn w) \<in> {Connected, Disconnecting}"
  shows "\<exists>w'. sendInLoop cbs self message wr w = Inr w'"
proof -
  from inv obtain c where i: "buf_inv (outbuf (conn w))"
    "chans (rx w) (cref (conn w)) = Some c" by (rule conn_invD) blast
  obtain k w1 where d: "direct_write cbs message wr c w = (k, w1)" by fastforce
  from direct_write_ok [OF i(1) doc d] have w1: "conn w1 = conn w" "rx w1 = rx w" by blast+
  from bb.queue_rest [OF i(1) room, of k] obtain b where
    b: "buffer_append (drop k message) (outbuf (conn w)) = Inr b" by blast
  from change_total [OF inv up self i(2), of "\<lambda>e. e OR kWriteEvent"] obtain r where
    "enableWriting self (cref (conn w)) (rx w) = Inr r" unfolding enableWriting_def by blast
  then show ?thesis
    by (simp add: sendInLoop_alt self [symmetric] on_chan_eq i(2) d b w1 on_poller_def conn_simps)
qed
section \<open>The other operations keep the stream\<close>

lemma isWriting_index [simp]: "isWriting (c\<lparr>index := k\<rparr>) = isWriting c" "isNoneEvent (c\<lparr>index := k\<rparr>) = isNoneEvent c"
  by (simp_all add: isWriting_def isNoneEvent_def)

lemma change_inv:
  assumes i: "reactor_inv (rx w)" "buf_inv (inbuf (conn w))" "buf_inv (outbuf (conn w))"
    and c: "chans (rx w) (cref (conn w)) = Some c" "chan_fd c = conn_fd w"
    and op: "change_events f self (cref (conn w)) (rx w) = Inr r"
    and ok: "isWriting (c\<lparr>events := f (events c)\<rparr>) \<Longrightarrow> contents (outbuf (conn w)) \<noteq> []"
      "contents (outbuf (conn w)) \<noteq> [] \<Longrightarrow> isWriting (c\<lparr>events := f (events c)\<rparr>) \<or>
        isNoneEvent (c\<lparr>events := f (events c)\<rparr>) \<and> cstate (conn w) \<noteq> Connecting"
  shows "conn_inv (w\<lparr>rx := r\<rparr>)" "same_conn w (w\<lparr>rx := r\<rparr>)"
proof -
  from change_events_chan [OF i(1) c(1) op] obtain k where
    r: "reactor_inv r" "loop_tid r = loop_tid (rx w)" "channel_map r (chan_fd c) = Some (cref (conn w))"
      "chans r (cref (conn w)) = Some (c\<lparr>events := f (events c), index := k\<rparr>)" by blast
  let ?c = "c\<lparr>events := f (events c), index := k\<rparr>"
  have "isWriting ?c = isWriting (c\<lparr>events := f (events c)\<rparr>)" "isNoneEvent ?c = isNoneEvent (c\<lparr>events := f (events c)\<rparr>)"
    by (simp_all add: isWriting_def isNoneEvent_def)
  then show "conn_inv (w\<lparr>rx := r\<rparr>)"
    using r i c(2) ok by (intro conn_invI [of _ ?c]) (simp_all add: chan_agrees_def conn_fd_def)
  show "same_conn w (w\<lparr>rx := r\<rparr>)" using r(2) by (simp add: same_conn_def)
qed

lemma log_inv [simp]: "conn_inv (log_io es w) = conn_inv w" "conn_inv (queue_task t w) = conn_inv w"
  by (simp_all add: conn_inv_def chan_agrees_def conn_simps)

lemma same_conn_log [simp]: "same_conn w (log_io es w)" "same_conn w (queue_task t w)" "same_conn w (set_state st w)"
  "same_conn w (set_outbuf b w)" "same_conn w (set_inbuf b w)"
  by (simp_all add: same_conn_def conn_simps)

lemma stream_frames [simp]:
  "stream (log_io (map Sys es) w) = stream w" "stream (queue_task t w) = stream w" "stream (set_inbuf b w) = stream w"
  "stream (set_state st w) = stream w" "stream (w\<lparr>rx := r\<rparr>) = stream w"
  by (simp_all add: stream_def conn_simps)

lemma shutdownInLoop_ok:
  assumes "conn_inv w" and "shutdownInLoop self w = Inr w'"
  shows "conn_inv w' \<and> stream w' = stream w \<and> same_conn w w' \<and> conn w' = conn w"
  using assms by (auto dest!: conn_assert_self simp: shutdownInLoop_def on_chan_def deref_def conn_simps
      split: option.splits if_splits)

lemma handleWrite_ok:
  assumes inv: "conn_inv w" and doc: "\<And>n. wr = Ret n \<Longrightarrow> n \<le> length (contents (outbuf (conn w)))"
    and op: "conn_handleWrite cbs self wr w = Inr w'"
  shows "conn_inv w' \<and> stream w' = stream w \<and> same_conn w w' \<and> cstate (conn w') = cstate (conn w)"
proof -
  from inv obtain c where i: "reactor_inv (rx w)" "buf_inv (inbuf (conn w))" "buf_inv (outbuf (conn w))"
    "chans (rx w) (cref (conn w)) = Some c" "chan_agrees w c" by (rule conn_invD) blast
  show ?thesis
  proof (cases "isWriting c")
    case False
    with op have "w' = w" by (auto dest!: conn_assert_self simp: conn_handleWrite_def on_chan_eq [OF i(4)])
    with inv show ?thesis by simp
  next
    case True
    with op obtain n where n: "wr = Ret n" "0 < n" and self: "self = loop_tid (rx w)"
      by (auto dest!: conn_assert_self simp: conn_handleWrite_def on_chan_eq [OF i(4)] split: syscall.splits if_splits)
    from doc [OF n(1)] have le: "n \<le> length (contents (outbuf (conn w)))" .
    then have un: "unat (of_nat n :: size_t) = n"
      using i(3) by (intro unat_of_length) (auto simp: contents_def buf_inv_def)
    from bb.write_some [OF i(3), of "of_nat n"] le un obtain b where
      b: "retrieve (of_nat n) (outbuf (conn w)) = Inr b" "buf_inv b"
        "take n (contents (outbuf (conn w))) @ contents b = contents (outbuf (conn w))" by auto
    let ?w1 = "set_outbuf b (log_io [Wrote (chan_fd c) (take n (contents (outbuf (conn w))))] w)"
    have st: "stream ?w1 = stream w" using b(3) by (simp add: stream_def conn_simps)
    have op1: "(if readableBytes b = 0
             then rbind (on_poller (disableWriting self (cref (conn w))) ?w1) (\<lambda>w.
                  let w = (if on_write_complete cbs \<noteq> None then queue_task TWriteComplete w else w) in
                  if cstate (conn w) = Disconnecting then shutdownInLoop self w else Inr w)
             else Inr ?w1) = Inr w'"
      using op n b(1) True self by (simp add: conn_handleWrite_def on_chan_eq [OF i(4)] Let_def conn_simps cong: if_cong)
    show ?thesis
    proof (cases "contents b = []")
      case False
      with op1 b(2) have w': "w' = ?w1" by (simp add: readable_zero)
      have "conn_inv w'"
        using i b(2) False True by (intro conn_invI [of w' c]) (simp_all add: w' conn_simps chan_agrees_def conn_fd_def)
      with st show ?thesis by (simp add: w' conn_simps same_conn_def)
    next
      case empty: True
      with op1 b(2) obtain r where r: "disableWriting self (cref (conn w)) (rx w) = Inr r"
        and op2: "(let w = (if on_write_complete cbs \<noteq> None then queue_task TWriteComplete (?w1\<lparr>rx := r\<rparr>) else ?w1\<lparr>rx := r\<rparr>) in
           if cstate (conn w) = Disconnecting then shutdownInLoop self w else Inr w) = Inr w'"
        by (auto simp: readable_zero on_poller_def result_simps conn_simps)
      have "conn_inv (?w1\<lparr>rx := r\<rparr>) \<and> same_conn ?w1 (?w1\<lparr>rx := r\<rparr>)"
        using change_inv [of ?w1 c "\<lambda>e. e AND NOT kWriteEvent" self r] i b(2) empty r writing_bits(2) [of c]
        by (simp add: conn_simps disableWriting_def chan_agrees_def)
      then have "conn_inv (if on_write_complete cbs \<noteq> None then queue_task TWriteComplete (?w1\<lparr>rx := r\<rparr>) else ?w1\<lparr>rx := r\<rparr>)"
        "same_conn w (if on_write_complete cbs \<noteq> None then queue_task TWriteComplete (?w1\<lparr>rx := r\<rparr>) else ?w1\<lparr>rx := r\<rparr>)"
        by (auto simp: same_conn_def conn_simps)
      moreover have "stream (if on_write_complete cbs \<noteq> None then queue_task TWriteComplete (?w1\<lparr>rx := r\<rparr>) else ?w1\<lparr>rx := r\<rparr>) = stream w"
        "cstate (conn (if on_write_complete cbs \<noteq> None then queue_task TWriteComplete (?w1\<lparr>rx := r\<rparr>) else ?w1\<lparr>rx := r\<rparr>)) = cstate (conn w)"
        using st by (auto simp: conn_simps)
      ultimately show ?thesis
        using op2 shutdownInLoop_ok [of _ self w'] same_conn_trans unfolding Let_def
        by (smt (verit) Inr_inject)
    qed
  qed
qed

lemma disableAll_inv:
  assumes inv: "conn_inv w" and op: "disableAll self (cref (conn w)) (rx w) = Inr r"
    and up: "cstate (conn w) \<noteq> Connecting"
  shows "conn_inv (w\<lparr>rx := r\<rparr>)" "same_conn w (w\<lparr>rx := r\<rparr>)"
proof -
  from inv obtain c where i: "reactor_inv (rx w)" "buf_inv (inbuf (conn w))" "buf_inv (outbuf (conn w))"
    "chans (rx w) (cref (conn w)) = Some c" "chan_agrees w c" by (rule conn_invD) blast
  have "chan_fd c = conn_fd w" using i(5) by (simp add: chan_agrees_def)
  from change_inv [OF i(1-4) this op [unfolded disableAll_def]] writing_bits(4) [of c] up
  show "conn_inv (w\<lparr>rx := r\<rparr>)" "same_conn w (w\<lparr>rx := r\<rparr>)" by (simp_all add: isNoneEvent_def)
qed

lemma set_state_inv:
  "conn_inv w \<Longrightarrow> cstate (conn w) \<in> {Connected, Disconnecting} \<Longrightarrow> st \<noteq> Connecting \<Longrightarrow> conn_inv (set_state st w)"
  by (auto simp: conn_inv_def chan_agrees_def conn_simps)

section \<open>Runs of a connection\<close>

text \<open>
  Everything that happens to a connection: the user's calls (in the loop's thread or another one),
  the functors of the loop, the events of the channel with what the kernel answers, the two calls
  of the server or client, and the user taking bytes from the input buffer. What a user callback
  does is a sequence of these operations, so the callbacks of the run do nothing themselves.
\<close>

datatype conn_op =
    OpSend tid "byte list" "nat syscall"
  | OpShutdown tid
  | OpTask conn_task "nat syscall"
  | OpRead timestamp read_outcome "int syscall"
  | OpWrite "nat syscall"
  | OpClose
  | OpEstablish
  | OpDestroy
  | OpTake size_t
  | OpTakeAll

definition quiet_cbs :: "bool \<Rightarrow> conn_callbacks" where
  "quiet_cbs wc = \<lparr>on_connection = Some Inr, on_message = Some (\<lambda>_. Inr),
     on_write_complete = (if wc then Some Inr else None), on_close = Some Inr\<rparr>"

definition conn_do :: "bool \<Rightarrow> conn_op \<Rightarrow> conn_world \<Rightarrow> conn_world result" where
  "conn_do wc op w = (let self = loop_tid (rx w); cbs = quiet_cbs wc in
     case op of
       OpSend t message wr \<Rightarrow> conn_send cbs t message wr w
     | OpShutdown t \<Rightarrow> conn_shutdown t w
     | OpTask t wr \<Rightarrow> run_task cbs self wr t w
     | OpRead t rd so \<Rightarrow> conn_handleRead cbs self t rd so w
     | OpWrite wr \<Rightarrow> conn_handleWrite cbs self wr w
     | OpClose \<Rightarrow> conn_handleClose cbs self w
     | OpEstablish \<Rightarrow> connectEstablished cbs self w
     | OpDestroy \<Rightarrow> connectDestroyed cbs self w
     | OpTake n \<Rightarrow> rbind (retrieve n (inbuf (conn w))) (\<lambda>b. Inr (set_inbuf b w))
     | OpTakeAll \<Rightarrow> rbind (retrieveAsString (inbuf (conn w))) (\<lambda>(_, b). Inr (set_inbuf b w)))"

text \<open>The bytes that an operation hands to the connection.\<close>

definition handed :: "conn_op \<Rightarrow> conn_world \<Rightarrow> byte list" where
  "handed op w = (case op of
       OpSend t message _ \<Rightarrow> if cstate (conn w) = Connected \<and> t = loop_tid (rx w) then message else []
     | OpTask (TSend message) _ \<Rightarrow> message
     | _ \<Rightarrow> [])"

text \<open>The kernel writes no more than it is given, and the buffers stay below the size of a vector.\<close>

definition write_doc :: "nat syscall \<Rightarrow> byte list \<Rightarrow> bool" where
  "write_doc wr d \<longleftrightarrow> (case wr of Ret n \<Rightarrow> n \<le> length d | Err _ \<Rightarrow> True)"

definition op_doc :: "conn_op \<Rightarrow> conn_world \<Rightarrow> bool" where
  "op_doc op w = (case op of
       OpSend _ message wr \<Rightarrow> write_doc wr message \<and> room (outbuf (conn w)) (length message)
     | OpTask (TSend message) wr \<Rightarrow> write_doc wr message \<and> room (outbuf (conn w)) (length message)
     | OpRead _ (ReadBytes d) _ \<Rightarrow> room (inbuf (conn w)) (length d)
     | OpWrite wr \<Rightarrow> write_doc wr (contents (outbuf (conn w)))
     | _ \<Rightarrow> True)"

inductive conn_run :: "bool \<Rightarrow> conn_world \<Rightarrow> byte list \<Rightarrow> conn_world \<Rightarrow> bool" for wc :: bool where
  run_nil: "conn_run wc w [] w"
| run_op: "conn_run wc w m v \<Longrightarrow> op_doc op v \<Longrightarrow> conn_do wc op v = Inr u \<Longrightarrow> conn_run wc w (m @ handed op v) u"

lemma quiet_on_message: "on_message (quiet_cbs wc) = Some (\<lambda>_. Inr)"
  by (simp add: quiet_cbs_def)

lemma sendInLoop_doc:
  assumes "conn_inv w" and "write_doc wr message" and "room (outbuf (conn w)) (length message)"
    and "sendInLoop cbs self message wr w = Inr w'"
  shows "conn_inv w' \<and> stream w' = stream w @ message \<and> same_conn w w'"
proof -
  have "n \<le> length message" if "wr = Ret n" for n using assms(2) that by (simp add: write_doc_def)
  from sendInLoop_ok [OF assms(1) this assms(3,4)] show ?thesis by blast
qed

lemma handleWrite_doc:
  assumes "conn_inv w" and "write_doc wr (contents (outbuf (conn w)))" and "conn_handleWrite cbs self wr w = Inr w'"
  shows "conn_inv w' \<and> stream w' = stream w \<and> same_conn w w'"
proof -
  have "n \<le> length (contents (outbuf (conn w)))" if "wr = Ret n" for n
    using assms(2) that by (simp add: write_doc_def)
  from handleWrite_ok [OF assms(1) this assms(3)] show ?thesis by blast
qed

lemma handleClose_ok:
  assumes "conn_inv w" and "conn_handleClose (quiet_cbs wc) self w = Inr w'"
  shows "conn_inv w' \<and> stream w' = stream w \<and> same_conn w w'"
proof -
  from assms(2) obtain r where "disableAll self (cref (conn w)) (rx w) = Inr r" "w' = w\<lparr>rx := r\<rparr>"
    "cstate (conn w) \<noteq> Connecting"
    by (auto dest!: conn_assert_self simp: conn_handleClose_def call_cb_def quiet_cbs_def on_poller_def result_simps)
  with disableAll_inv [OF assms(1)] show ?thesis by simp
qed

lemma handleRead_ok:
  assumes inv: "conn_inv w" and doc: "\<And>d. rd = ReadBytes d \<Longrightarrow> room (inbuf (conn w)) (length d)"
    and op: "conn_handleRead (quiet_cbs wc) self t rd so w = Inr w'"
  shows "conn_inv w' \<and> stream w' = stream w \<and> same_conn w w'"
proof -
  from inv obtain c where i: "reactor_inv (rx w)" "buf_inv (inbuf (conn w))" "buf_inv (outbuf (conn w))"
    "chans (rx w) (cref (conn w)) = Some c" "chan_agrees w c" by (rule conn_invD) blast
  have keep: "conn_inv (set_inbuf b w)" if "buf_inv b" for b
    using i that by (intro conn_invI [of _ c]) (simp_all add: conn_simps chan_agrees_def)
  show ?thesis
  proof (cases rd)
    case (ReadError e)
    with op have "w' = set_inbuf (inbuf (conn w)) w"
      by (simp add: conn_handleRead_def readFd_error conn_handleError_def)
    with keep [OF i(2)] show ?thesis by simp
  next
    case (ReadBytes d)
    from readFd_ok [OF i(2) doc [OF ReadBytes], of 0] obtain b where
      b: "readFd rd 0 (inbuf (conn w)) = Inr (int (length d), 0, b)" "buf_inv b" unfolding ReadBytes by blast
    from op b(1) have "(if 0 < length d then Inr (set_inbuf b w) else conn_handleClose (quiet_cbs wc) self (set_inbuf b w)) = Inr w'"
      by (simp add: conn_handleRead_def quiet_on_message Let_def split: if_splits)
    with keep [OF b(2)] handleClose_ok [OF keep [OF b(2)]] same_conn_trans show ?thesis
      by (cases "0 < length d") (auto simp: same_conn_def conn_simps)
  qed
qed

lemma established_ok:
  assumes inv: "conn_inv w" and op: "connectEstablished (quiet_cbs wc) self w = Inr w'"
  shows "conn_inv w' \<and> stream w' = stream w \<and> same_conn w w' \<and> cstate (conn w') = Connected"
proof -
  from inv obtain c where i: "reactor_inv (rx w)" "buf_inv (inbuf (conn w))" "buf_inv (outbuf (conn w))"
    "chans (rx w) (cref (conn w)) = Some c" "chan_agrees w c" by (rule conn_invD) blast
  from op obtain r where r: "enableReading self (cref (conn w)) (rx w) = Inr r" "w' = (set_state Connected w)\<lparr>rx := r\<rparr>"
    by (auto dest!: conn_assert_self simp: connectEstablished_def call_cb_def quiet_cbs_def on_poller_def result_simps conn_simps)
  have "chan_fd c = conn_fd (set_state Connected w)" using i(5) by (simp add: chan_agrees_def conn_simps)
  moreover from op have "cstate (conn w) = Connecting"
    by (auto dest!: conn_assert_self simp: connectEstablished_def result_simps)
  ultimately show ?thesis
    using change_inv [of "set_state Connected w" c "\<lambda>e. e OR kReadEvent" self r] i r writing_bits(3) [of c]
    by (simp add: conn_simps enableReading_def chan_agrees_def same_conn_def)
qed

lemma destroyed_ok:
  assumes inv: "conn_inv w" and op: "connectDestroyed (quiet_cbs wc) self w = Inr w'"
  shows "conn_inv w' \<and> stream w' = stream w \<and> same_conn w w' \<and> cstate (conn w') = Disconnected"
proof -
  let ?w = "set_state Disconnected w"
  from op have up: "cstate (conn w) \<in> {Connected, Disconnecting}"
    by (auto dest!: conn_assert_self simp: connectDestroyed_def result_simps)
  from op obtain r r' where r: "disableAll self (cref (conn w)) (rx w) = Inr r"
      "removeChannel self (cref (conn w)) r = Inr r'" "w' = ?w\<lparr>rx := r'\<rparr>"
    by (auto dest!: conn_assert_self simp: connectDestroyed_def call_cb_def quiet_cbs_def on_poller_def result_simps conn_simps)
  have "conn_inv ?w" using set_state_inv [OF inv up] by blast
  then have d: "conn_inv (?w\<lparr>rx := r\<rparr>)" "same_conn ?w (?w\<lparr>rx := r\<rparr>)"
    using disableAll_inv [of ?w self r] r(1) by (simp_all add: conn_simps)
  from d(1) obtain c where i: "reactor_inv r" "buf_inv (inbuf (conn w))" "buf_inv (outbuf (conn w))"
    "chans r (cref (conn w)) = Some c" "chan_agrees (?w\<lparr>rx := r\<rparr>) c" by (rule conn_invD) (simp add: conn_simps)
  from removeChannel_chan [OF i(1) r(2) i(4)] obtain k where
    k: "reactor_inv r'" "loop_tid r' = loop_tid r" "chans r' (cref (conn w)) = Some (c\<lparr>index := k\<rparr>)" by blast
  have "conn_inv w'"
    using k i by (intro conn_invI [of w' "c\<lparr>index := k\<rparr>"]) (simp_all add: r(3) conn_simps chan_agrees_def)
  with d(2) k(2) show ?thesis by (simp add: r(3) conn_simps same_conn_def)
qed

lemma conn_do_ok:
  assumes inv: "conn_inv w" and doc: "op_doc op w" and op: "conn_do wc op w = Inr w'"
  shows "conn_inv w' \<and> stream w' = stream w @ handed op w \<and> same_conn w w'"
proof (cases op)
  case (OpSend t message wr)
  show ?thesis
  proof (cases "cstate (conn w) = Connected \<and> t = loop_tid (rx w)")
    case True
    with assms OpSend sendInLoop_doc [OF inv] show ?thesis
      by (auto simp: conn_do_def op_doc_def conn_send_def handed_def)
  next
    case False
    with assms OpSend show ?thesis
      by (auto simp: conn_do_def conn_send_def handed_def split: if_splits)
  qed
next
  case (OpShutdown t)
  with assms shutdownInLoop_ok [of "set_state Disconnecting w" t w'] set_state_inv [OF inv, of Disconnecting] show ?thesis
    by (auto simp: conn_do_def conn_shutdown_def handed_def same_conn_def conn_simps Let_def split: if_splits)
next
  case (OpTask t wr)
  show ?thesis
  proof (cases t)
    case (TSend message)
    with assms OpTask sendInLoop_doc [OF inv] show ?thesis
      by (auto simp: conn_do_def op_doc_def run_task_def handed_def)
  next
    case TShutdown
    with assms OpTask shutdownInLoop_ok [OF inv] show ?thesis by (auto simp: conn_do_def run_task_def handed_def)
  next
    case TWriteComplete
    with assms OpTask show ?thesis
      by (auto simp: conn_do_def run_task_def handed_def call_cb_def quiet_cbs_def split: if_splits)
  qed
next
  case (OpRead t rd so)
  have fits: "room (inbuf (conn w)) (length d)" if "rd = ReadBytes d" for d
    using doc that by (simp add: op_doc_def OpRead)
  have h: "conn_handleRead (quiet_cbs wc) (loop_tid (rx w)) t rd so w = Inr w'"
    using op OpRead by (simp add: conn_do_def Let_def)
  from handleRead_ok [OF inv fits h] show ?thesis by (simp add: OpRead handed_def)
next
  case (OpWrite wr)
  with assms handleWrite_doc [OF inv] show ?thesis
    by (auto simp: conn_do_def op_doc_def handed_def)
next
  case OpClose
  with assms handleClose_ok [OF inv] show ?thesis by (auto simp: conn_do_def handed_def)
next
  case OpEstablish
  with assms established_ok [OF inv] show ?thesis by (auto simp: conn_do_def handed_def)
next
  case OpDestroy
  with assms destroyed_ok [OF inv] show ?thesis by (auto simp: conn_do_def handed_def)
next
  case (OpTake n)
  from inv obtain c where i: "reactor_inv (rx w)" "buf_inv (inbuf (conn w))" "buf_inv (outbuf (conn w))"
    "chans (rx w) (cref (conn w)) = Some c" "chan_agrees w c" by (rule conn_invD) blast
  from OpTake op obtain b where b: "retrieve n (inbuf (conn w)) = Inr b" "w' = set_inbuf b w"
    by (auto simp: conn_do_def result_simps)
  have "unat n \<le> length (contents (inbuf (conn w)))" using bb.deq_Inr_iff [OF i(2)] b(1) by blast
  from bb.deq_view [OF i(2) this] b(1) have "buf_inv b" by auto
  with i have "conn_inv w'" by (intro conn_invI [of w' c]) (simp_all add: b(2) conn_simps chan_agrees_def)
  with OpTake show ?thesis by (simp add: b(2) handed_def)
next
  case OpTakeAll
  from inv obtain c where i: "reactor_inv (rx w)" "buf_inv (inbuf (conn w))" "buf_inv (outbuf (conn w))"
    "chans (rx w) (cref (conn w)) = Some c" "chan_agrees w c" by (rule conn_invD) blast
  from OpTakeAll op have w': "w' = set_inbuf (retrieveAll (inbuf (conn w))) w"
    by (simp add: conn_do_def retrieveAsString_ok [OF i(2)])
  have "conn_inv w'"
    using i retrieveAll_ok [OF i(2)] by (intro conn_invI [of w' c]) (simp_all add: w' conn_simps chan_agrees_def)
  with OpTakeAll show ?thesis by (simp add: w' handed_def)
qed

lemma conn_run_ok:
  assumes "conn_run wc w m w'" and "conn_inv w"
  shows "conn_inv w' \<and> stream w' = stream w @ m \<and> same_conn w w'"
  using assms
proof induction
  case run_nil
  then show ?case by simp
next
  case (run_op w m v op u)
  with conn_do_ok [of v op wc u] show ?case by (auto intro: same_conn_trans)
qed

section \<open>New connections\<close>

lemma new_conn_ok:
  assumes "reactor_inv r" and "chans r ref = None" and "0 \<le> fd"
  shows "\<exists>w. TcpConnection_new name fd la pa ref r = Inr w \<and> conn_inv w \<and> stream w = [] \<and> cstate (conn w) = Connecting \<and>
    cref (conn w) = ref \<and> conn_fd w = fd \<and> loop_tid (rx w) = loop_tid r \<and> io w = [] \<and> contents (outbuf (conn w)) = [] \<and>
    (\<exists>c. chans (rx w) ref = Some c \<and> \<not> eventHandling c \<and> isNoneEvent c \<and> index c < 0) \<and> channel_map (rx w) = channel_map r"
proof -
  obtain b where b: "Buffer_new = Inr b" "buf_inv b" "contents b = []" using Buffer_new_ok by blast
  let ?c = "setErrorCallback ConnError (setCloseCallback ConnClose (setWriteCallback ConnWrite
    (setReadCallback ConnRead (Channel_new fd))))"
  have c: "chan_fd ?c = fd" "events ?c = 0" "index ?c < 0" "\<not> eventHandling ?c"
    by (simp_all add: setErrorCallback_def setCloseCallback_def setWriteCallback_def setReadCallback_def Channel_new_def)
  let ?w = "\<lparr>conn = \<lparr>cname = name, cstate = Connecting, csocket = \<lparr>sockfd = fd\<rparr>, cref = ref,
    local_addr = la, peer_addr = pa, inbuf = b, outbuf = b\<rparr>, rx = new_chan ref ?c r, io = [], tasks = []\<rparr>"
  have new: "TcpConnection_new name fd la pa ref r = Inr ?w" by (simp add: TcpConnection_new_def b)
  have rx: "reactor_inv (new_chan ref ?c r)" using new_chan_inv [OF assms(1,2), of ?c] c(1) assms(3) by simp
  have ch: "chans (new_chan ref ?c r) ref = Some ?c" "loop_tid (new_chan ref ?c r) = loop_tid r"
    "channel_map (new_chan ref ?c r) = channel_map r"
    by (simp_all add: new_chan_def put_chan_def)
  have none: "isNoneEvent ?c" "\<not> isWriting ?c" by (simp_all add: c(2) isNoneEvent_def kNoneEvent_def isWriting_def)
  have "conn_inv ?w"
    using rx ch(1) b c(1) none by (intro conn_invI [of ?w ?c]) (simp_all add: chan_agrees_def conn_fd_def)
  with new ch none c b show ?thesis by (intro exI [of _ ?w]) (simp add: stream_def written_def conn_fd_def)
qed

section \<open>Closing\<close>

lemma contents_of_nat:
  "buf_inv b \<Longrightarrow> n \<le> length (contents b) \<Longrightarrow> unat (of_nat n :: size_t) = n"
  by (intro unat_of_length) (auto simp: contents_def buf_inv_def)

text \<open>What \<open>handleWrite\<close> asks of the kernel.\<close>

lemma handleWrite_io:
  assumes inv: "conn_inv w" and up: "cstate (conn w) \<in> {Connected, Disconnecting}" and self: "self = loop_tid (rx w)"
    and c: "chans (rx w) (cref (conn w)) = Some c" "isWriting c"
    and n: "0 < n" "n \<le> length (contents (outbuf (conn w)))"
  shows "\<exists>w'. conn_handleWrite cbs self (Ret n) w = Inr w' \<and>
    io w' = io w @ Wrote (conn_fd w) (take n (contents (outbuf (conn w)))) #
      (if n = length (contents (outbuf (conn w))) \<and> cstate (conn w) = Disconnecting then [Sys (SysShutdownWr (conn_fd w))] else [])"
proof -
  from inv c(1) have i: "reactor_inv (rx w)" "buf_inv (outbuf (conn w))" "chan_fd c = conn_fd w"
    by (auto simp: conn_inv_def chan_agrees_def)
  note un = contents_of_nat [OF i(2) n(2)]
  from bb.write_some [OF i(2), of "of_nat n"] n(2) un obtain b where
    b: "retrieve (of_nat n) (outbuf (conn w)) = Inr b" "buf_inv b" "contents b = [] \<longleftrightarrow> n = length (contents (outbuf (conn w)))" by auto
  from change_total [OF inv up self c(1), of "\<lambda>e. e AND NOT kWriteEvent"] obtain r where
    r: "disableWriting self (cref (conn w)) (rx w) = Inr r" "loop_tid r = loop_tid (rx w)"
      "chans r (cref (conn w)) = Some (c\<lparr>events := events c AND NOT kWriteEvent\<rparr>)"
    unfolding disableWriting_def by blast
  let ?w1 = "set_outbuf b (log_io [Wrote (chan_fd c) (take n (contents (outbuf (conn w))))] w)"
  let ?w2 = "if on_write_complete cbs \<noteq> None then queue_task TWriteComplete (?w1\<lparr>rx := r\<rparr>) else ?w1\<lparr>rx := r\<rparr>"
  have "conn_handleWrite cbs self (Ret n) w =
    (if contents b = [] then if cstate (conn w) = Disconnecting then shutdownInLoop self ?w2 else Inr ?w2 else Inr ?w1)"
    using n(1) b(1,2) c(2) self r(1)
    by (simp add: conn_handleWrite_def on_chan_eq [OF c(1)] Let_def conn_simps readable_zero on_poller_def cong: if_cong)
  moreover have "shutdownInLoop self ?w2 = Inr (log_io [Sys (SysShutdownWr (conn_fd w))] ?w2)"
    using r(2,3) self writing_bits(2) [of c]
    by (simp add: shutdownInLoop_def on_chan_def deref_def conn_simps Socket_shutdownWrite_def sock_shutdownWrite_def conn_fd_def)
  ultimately show ?thesis using b(3) i(3) by (auto simp: conn_simps)
qed

lemma conn_down:
  assumes inv: "conn_inv w" and up: "cstate (conn w) \<in> {Connected, Disconnecting}"
    and c: "chans (rx w) (cref (conn w)) = Some c" "\<not> eventHandling c"
  shows "\<exists>w1 w2 w3. conn_handleClose (quiet_cbs wc) (loop_tid (rx w)) w = Inr w1 \<and>
    connectDestroyed (quiet_cbs wc) (loop_tid (rx w)) w1 = Inr w2 \<and> TcpConnection_dtor w2 = Inr w3 \<and>
    loop_tid (rx w3) = loop_tid (rx w) \<and> cref (conn w3) = cref (conn w) \<and>
    reactor_inv (rx w3) \<and> chans (rx w3) (cref (conn w)) = None \<and> (\<forall>fd. channel_map (rx w3) fd \<noteq> Some (cref (conn w))) \<and>
    (\<forall>d. d \<noteq> cref (conn w) \<longrightarrow> interest (rx w3) d = interest (rx w) d) \<and>
    cstate (conn w2) = Disconnected \<and> io w3 = io w @ [Sys (SysClose (conn_fd w))]"
proof -
  let ?ref = "cref (conn w)" and ?t = "loop_tid (rx w)"
  from change_total [OF inv up refl c(1), of "\<lambda>_. kNoneEvent"] obtain r1 where
    r1: "disableAll ?t ?ref (rx w) = Inr r1" "reactor_inv r1" "loop_tid r1 = ?t"
      "chans r1 ?ref = Some (c\<lparr>events := kNoneEvent\<rparr>)" "channel_map r1 = channel_map (rx w)"
    unfolding disableAll_def by blast
  from inv c(1) up have i: "reactor_inv (rx w)" "chan_fd c = conn_fd w" "channel_map (rx w) (conn_fd w) = Some ?ref"
    by (auto simp: conn_inv_def chan_agrees_def)
  let ?w1 = "w\<lparr>rx := r1\<rparr>"
  have close: "conn_handleClose (quiet_cbs wc) ?t w = Inr ?w1"
    using up r1(1) by (auto simp: conn_handleClose_def on_poller_def call_cb_def quiet_cbs_def)
  from deregister [OF r1(2,4), of ?t] i(2,3) r1(3,5) obtain r2 r3 where
    r: "disableAll ?t ?ref r1 = Inr r2" "removeChannel ?t ?ref r2 = Inr r3" "reactor_inv r3"
      "channel_map r3 = (channel_map r1)(conn_fd w := None)" "\<forall>d. d \<noteq> ?ref \<longrightarrow> interest r3 d = interest r1 d" by auto
  let ?w2 = "(set_state Disconnected ?w1)\<lparr>rx := r3\<rparr>"
  have destroy: "connectDestroyed (quiet_cbs wc) ?t ?w1 = Inr ?w2"
    using up r1(3) r(1,2) by (auto simp: connectDestroyed_def on_poller_def call_cb_def quiet_cbs_def conn_simps)
  from change_events_chan [OF r1(2,4) r(1) [unfolded disableAll_def]] obtain j where
    j0: "reactor_inv r2" "loop_tid r2 = loop_tid r1"
      "chans r2 ?ref = Some ((c\<lparr>events := kNoneEvent\<rparr>)\<lparr>events := kNoneEvent, index := j\<rparr>)" by blast
  then have j: "reactor_inv r2" "loop_tid r2 = ?t" "chans r2 ?ref = Some (c\<lparr>events := kNoneEvent, index := j\<rparr>)"
    using r1(3) by simp_all
  from removeChannel_chan [OF j(1) r(2) j(3)] obtain k where
    k0: "loop_tid r3 = loop_tid r2" "chans r3 ?ref = Some ((c\<lparr>events := kNoneEvent, index := j\<rparr>)\<lparr>index := k\<rparr>)" by blast
  then have k: "loop_tid r3 = ?t" "chans r3 ?ref = Some (c\<lparr>events := kNoneEvent, index := k\<rparr>)"
    using j(2) by simp_all
  let ?r4 = "r3\<lparr>chans := (chans r3)(?ref := None)\<rparr>"
  have del: "delete_chan ?ref r3 = Inr ?r4" using k(2) c(2) by (simp add: delete_chan_def deref_def Channel_dtor_def)
  let ?w3 = "log_io [Sys (SysClose (conn_fd w))] (?w2\<lparr>rx := ?r4\<rparr>)"
  have dtor: "TcpConnection_dtor ?w2 = Inr ?w3"
    using del by (simp add: TcpConnection_dtor_def on_poller_def conn_simps Socket_dtor_def sock_close_def conn_fd_def)
  have free: "channel_map r3 fd \<noteq> Some ?ref" for fd
  proof
    assume m: "channel_map r3 fd = Some ?ref"
    obtain d where d: "chans r3 ?ref = Some d" "chan_fd d = fd" by (rule inv_mapped [OF r(3) m]) blast
    with k(2) i(2) have "fd = conn_fd w" by auto
    with m r(4) show False by simp
  qed
  then have "?ref \<notin> ran (channel_map r3)" by (auto simp: ran_def)
  from delete_inv [OF r(3) del this] have inv4: "reactor_inv ?r4" .
  have "interest ?r4 d = interest (rx w) d" if "d \<noteq> ?ref" for d
  proof -
    have "interest ?r4 d = interest r3 d" using that by (auto simp: interest_def split: option.splits)
    also have "\<dots> = interest (rx w) d"
      using r(5) that reg.change_frame [OF i(1) r1(1) [unfolded disableAll_def]] by simp
    finally show ?thesis .
  qed
  with close destroy dtor inv4 free k(1) show ?thesis
    by (intro exI [of _ ?w1] exI [of _ ?w2] exI [of _ ?w3]) (simp add: conn_simps)
qed

section \<open>Properties\<close>

text \<open>A connection on descriptor 5 whose peer takes three of five bytes, for the examples.\<close>

lemma sample_established:
  obtains w0 w :: conn_world and c where "TcpConnection_new ''c'' 5 zero_addr zero_addr 0 (Poller_new 1) = Inr w0"
    "conn_inv w0" "loop_tid (rx w0) = 1" "connectEstablished (quiet_cbs False) 1 w0 = Inr w"
    "conn_inv w" "conn_run False w [] w" "cstate (conn w) = Connected" "conn_fd w = 5"
    "loop_tid (rx w) = 1" "contents (outbuf (conn w)) = []" "chans (rx w) (cref (conn w)) = Some c" "\<not> eventHandling c"
    "\<not> isNoneEvent c" "\<not> isWriting c" "io w = []" "tasks w = []" "room (outbuf (conn w)) 5" "room (inbuf (conn w)) 5"
    "closeCallback c = Some ConnClose" "readCallback c = Some ConnRead" "cname (conn w) = ''c''" "index c = 0" "cref (conn w) = 0"
    "pollfds (rx w) = [\<lparr>pfd_fd = 5, pfd_events = 3, pfd_revents = 0\<rparr>]" "channel_map (rx w) = [5 \<mapsto> 0]"
proof -
  let ?la = "zero_addr"
  obtain b where b: "Buffer_new = Inr b" "buf_inv b" "contents b = []" "readerIndex b = 8" "writerIndex b = 8"
    using Buffer_new_ok by blast
  let ?c = "setErrorCallback ConnError (setCloseCallback ConnClose (setWriteCallback ConnWrite
    (setReadCallback ConnRead (Channel_new 5))))"
  let ?r = "new_chan 0 ?c (Poller_new 1)"
  let ?w = "\<lparr>conn = \<lparr>cname = ''c'', cstate = Connecting, csocket = \<lparr>sockfd = 5\<rparr>, cref = 0,
    local_addr = ?la, peer_addr = ?la, inbuf = b, outbuf = b\<rparr>, rx = ?r, io = [], tasks = []\<rparr>"
  have "TcpConnection_new ''c'' 5 ?la ?la 0 (Poller_new 1) = Inr ?w" by (simp add: TcpConnection_new_def b)
  note new = this
  with new_conn_ok [OF Poller_new_inv [of 1], of 0 5 "''c''" ?la ?la] have inv: "conn_inv ?w"
    by (simp add: Poller_new_def)
  have c: "chans ?r 0 = Some ?c" "index ?c < 0" "1 = loop_tid ?r" "channel_map ?r (chan_fd ?c) = None" "\<not> eventHandling ?c"
    "events ?c = 0"
    by (simp_all add: new_chan_def put_chan_def Poller_new_def setErrorCallback_def setCloseCallback_def
        setWriteCallback_def setReadCallback_def Channel_new_def)
  have cb: "closeCallback ?c = Some ConnClose" "readCallback ?c = Some ConnRead"
    by (simp_all add: setErrorCallback_def setCloseCallback_def setWriteCallback_def setReadCallback_def)
  let ?r1 = "added 0 (?c\<lparr>events := events ?c OR kReadEvent\<rparr>) ?r"
  let ?w1 = "(set_state Connected ?w)\<lparr>rx := ?r1\<rparr>"
  have "enableReading 1 0 ?r = Inr ?r1"
    using change_events_new [OF c(1-3), of "\<lambda>e. e OR kReadEvent"] c(4) unfolding enableReading_def by simp
  then have est: "connectEstablished (quiet_cbs False) 1 ?w = Inr ?w1"
    using c(3) by (simp add: connectEstablished_def on_poller_def quiet_cbs_def call_cb_def conn_simps)
  from established_ok [OF inv this] have inv1: "conn_inv ?w1" by blast
  have chan: "chans ?r1 0 = Some (?c\<lparr>events := events ?c OR kReadEvent, index := 0\<rparr>)"
    by (simp add: added_def new_chan_def put_chan_def Poller_new_def)
  have bits: "\<not> isNoneEvent (?c\<lparr>events := events ?c OR kReadEvent, index := 0\<rparr>)"
    "\<not> isWriting (?c\<lparr>events := events ?c OR kReadEvent, index := 0\<rparr>)"
    by (simp_all add: c(6) isNoneEvent_def kNoneEvent_def isWriting_def has_bits_def)
  show thesis
    by (rule that [OF new inv _ est inv1 run_nil, of "?c\<lparr>events := events ?c OR kReadEvent, index := 0\<rparr>"])
      (use chan bits c(3,5,6) b cb in \<open>simp_all add: conn_simps conn_fd_def added_def room_def\<close>,
        simp_all add: new_chan_def put_chan_def Poller_new_def setErrorCallback_def setCloseCallback_def
          setWriteCallback_def setReadCallback_def Channel_new_def)
qed

lemma sample_conn_full:
  obtains w :: conn_world and c where "conn_inv w" "conn_run False w [] w" "cstate (conn w) = Connected" "conn_fd w = 5"
    "loop_tid (rx w) = 1" "contents (outbuf (conn w)) = []" "chans (rx w) (cref (conn w)) = Some c" "\<not> eventHandling c"
    "\<not> isNoneEvent c" "\<not> isWriting c" "io w = []" "tasks w = []" "room (outbuf (conn w)) 5" "room (inbuf (conn w)) 5"
    "closeCallback c = Some ConnClose" "readCallback c = Some ConnRead" "cname (conn w) = ''c''" "index c = 0" "cref (conn w) = 0"
  by (rule sample_established) blast

lemma sample_conn:
  obtains w :: conn_world and c where "conn_inv w" "conn_run False w [] w" "cstate (conn w) = Connected" "conn_fd w = 5"
    "loop_tid (rx w) = 1" "contents (outbuf (conn w)) = []" "chans (rx w) (cref (conn w)) = Some c" "\<not> eventHandling c"
    "\<not> isNoneEvent c" "\<not> isWriting c" "io w = []" "tasks w = []" "room (outbuf (conn w)) 5" "room (inbuf (conn w)) 5"
  by (rule sample_conn_full)

text \<open>
  The stream of a connection is intact. From its construction on, whatever the user, the loop and
  the kernel do, the bytes written to the socket followed by the output buffer are the messages
  accepted by \<open>sendInLoop\<close>, in order, each byte once; and the channel asks for write events exactly
  while there is something left to write, unless the connection has been closed.
\<close>

theorem stream_intact:
  assumes "reactor_inv r" and "chans r ref = None" and "0 \<le> fd"
    and new: "TcpConnection_new name fd la pa ref r = Inr w0" and run: "conn_run wc w0 m w"
  shows "written w @ contents (outbuf (conn w)) = m \<and> reactor_inv (rx w) \<and>
    (\<exists>c. chans (rx w) ref = Some c \<and> chan_fd c = fd \<and> (isWriting c \<longrightarrow> contents (outbuf (conn w)) \<noteq> []) \<and>
      (contents (outbuf (conn w)) \<noteq> [] \<longrightarrow> isWriting c \<or> isNoneEvent c))"
proof -
  from new_conn_ok [OF assms(1-3), of name la pa] new have w0: "conn_inv w0" "stream w0 = []" "cref (conn w0) = ref" "conn_fd w0 = fd"
    by auto
  from conn_run_ok [OF run w0(1)] w0 have w: "conn_inv w" "stream w = m" "cref (conn w) = ref" "conn_fd w = fd"
    by (auto simp: same_conn_def conn_fd_def)
  from w(1) obtain c where "reactor_inv (rx w)" "chans (rx w) ref = Some c" "chan_agrees w c"
    by (rule conn_invD) (simp add: w(3))
  with w show ?thesis by (auto simp: stream_def chan_agrees_def)
qed

theorem stream_intact_witness:
  "\<exists>w0 w. TcpConnection_new ''c'' 5 zero_addr zero_addr 0 (Poller_new 1) = Inr w0 \<and>
     conn_run False w0 [1, 2, 3] w \<and> written w @ contents (outbuf (conn w)) = [1, 2, 3]"
proof -
  have pre: "reactor_inv (Poller_new 1 :: conn_handler reactor)" "chans (Poller_new 1 :: conn_handler reactor) 0 = None" "0 \<le> (5 :: int)"
    by (simp_all add: Poller_new_inv) (simp add: Poller_new_def)
  from new_conn_ok [OF pre, of "''c''" zero_addr zero_addr] obtain w0 where
    w0: "TcpConnection_new ''c'' 5 zero_addr zero_addr 0 (Poller_new 1) = Inr w0" "conn_inv w0" "cref (conn w0) = 0"
      "conn_fd w0 = 5" "loop_tid (rx w0) = 1" by (auto simp: Poller_new_def)
  from new_conn_ok [OF pre, of "''c''" zero_addr zero_addr] w0 obtain c where
    c: "chans (rx w0) 0 = Some c" "isNoneEvent c" "contents (outbuf (conn w0)) = []" by auto
  have "\<not> isWriting c" using c(2) by (simp add: isNoneEvent_def isWriting_def has_bits_def kNoneEvent_def)
  moreover have "buf_inv (outbuf (conn w0))" using w0(2) by (simp add: conn_inv_def)
  moreover obtain b where "Buffer_new = Inr b" "writerIndex b = 8" using Buffer_new_ok by blast
  ultimately have "sendInLoop (quiet_cbs False) 1 [1, 2, 3] (Ret 3) w0 = Inr (log_io [Wrote (chan_fd c) [1, 2, 3]] w0)"
    using w0(5,3) c by (simp add: sendInLoop_alt on_chan_eq direct_write_def readable_zero quiet_cbs_def)
  then have do: "conn_do False (OpTask (TSend [1, 2, 3]) (Ret 3)) w0 = Inr (log_io [Wrote (chan_fd c) [1, 2, 3]] w0)"
    by (simp add: conn_do_def run_task_def w0(5))
  have "room (outbuf (conn w0)) 3"
    using w0(1) \<open>writerIndex b = 8\<close> by (auto simp: TcpConnection_new_def room_def \<open>Buffer_new = Inr b\<close>)
  then have "op_doc (OpTask (TSend [1, 2, 3]) (Ret 3)) w0" by (simp add: op_doc_def write_doc_def numeral_3_eq_3)
  from run_op [OF run_nil this do] have "conn_run False w0 [1, 2, 3] (log_io [Wrote (chan_fd c) [1, 2, 3]] w0)"
    by (simp add: handed_def)
  with stream_intact [OF pre w0(1) this] w0(1) show ?thesis by blast
qed

text \<open>
  C20. Half-close after the last byte: \<open>shutdown\<close> on a connected, open connection shuts the socket down
  at once if there is no output; otherwise only the \<open>handleWrite\<close> that writes the last byte does so,
  after that byte, and the earlier ones do not.
\<close>

theorem shutdown_after_last_byte:
  assumes "conn_inv w" and "cstate (conn w) = Connected" and "self = loop_tid (rx w)"
    and "chans (rx w) (cref (conn w)) = Some c" and "\<not> isNoneEvent c"
  shows "\<exists>w1. conn_shutdown self w = Inr w1 \<and> cstate (conn w1) = Disconnecting \<and> outbuf (conn w1) = outbuf (conn w) \<and>
    io w1 = io w @ (if contents (outbuf (conn w)) = [] then [Sys (SysShutdownWr (conn_fd w))] else []) \<and>
    (\<forall>n. 0 < n \<longrightarrow> n \<le> length (contents (outbuf (conn w))) \<longrightarrow>
      (\<exists>w2. conn_handleWrite cbs self (Ret n) w1 = Inr w2 \<and>
        io w2 = io w1 @ Wrote (conn_fd w) (take n (contents (outbuf (conn w)))) #
          (if n = length (contents (outbuf (conn w))) then [Sys (SysShutdownWr (conn_fd w))] else [])))"
proof -
  let ?w0 = "set_state Disconnecting w"
  have inv0: "conn_inv ?w0" using set_state_inv [OF assms(1)] assms(2) by simp
  from assms(1,4) have agree: "chan_agrees w c" by (auto simp: conn_inv_def)
  let ?w1 = "if contents (outbuf (conn w)) = [] then log_io [Sys (SysShutdownWr (conn_fd w))] ?w0 else ?w0"
  have "isWriting c \<longleftrightarrow> contents (outbuf (conn w)) \<noteq> []" using agree assms(5) by (auto simp: chan_agrees_def)
  then have "shutdownInLoop self ?w0 = Inr ?w1"
    using assms(3,4) by (simp add: shutdownInLoop_def on_chan_def deref_def conn_simps Socket_shutdownWrite_def
        sock_shutdownWrite_def conn_fd_def)
  then have op: "conn_shutdown self w = Inr ?w1"
    using assms(2,3) by (simp add: conn_shutdown_def Let_def conn_simps)
  have "\<exists>w2. conn_handleWrite cbs self (Ret n) ?w1 = Inr w2 \<and>
        io w2 = io ?w1 @ Wrote (conn_fd w) (take n (contents (outbuf (conn w)))) #
          (if n = length (contents (outbuf (conn w))) then [Sys (SysShutdownWr (conn_fd w))] else [])"
    if n: "0 < n" "n \<le> length (contents (outbuf (conn w)))" for n
  proof -
    have ne: "contents (outbuf (conn w)) \<noteq> []" using n by auto
    then have "isWriting c" using agree assms(5) by (auto simp: chan_agrees_def)
    have "\<exists>w2. conn_handleWrite cbs self (Ret n) ?w0 = Inr w2 \<and>
        io w2 = io w @ Wrote (conn_fd w) (take n (contents (outbuf (conn w)))) #
          (if n = length (contents (outbuf (conn w))) then [Sys (SysShutdownWr (conn_fd w))] else [])"
      using handleWrite_io [OF inv0, of self c n cbs] \<open>isWriting c\<close> assms(3,4) n by (simp add: conn_simps cong: if_cong)
    with ne show ?thesis by (simp add: conn_simps cong: if_cong)
  qed
  with op show ?thesis by (intro exI [of _ ?w1]) (simp add: conn_simps)
qed

theorem shutdown_after_last_byte_witness:
  "\<exists>w w1. conn_fd w = 5 \<and> conn_shutdown 1 w = Inr w1 \<and> io w1 = [Sys (SysShutdownWr 5)]"
proof -
  obtain w :: conn_world and c :: "conn_handler channel" where w: "conn_inv w" "cstate (conn w) = Connected" "conn_fd w = 5"
    "loop_tid (rx w) = 1" "contents (outbuf (conn w)) = []" "chans (rx w) (cref (conn w)) = Some c"
    "\<not> isNoneEvent c" "io w = []" by (rule sample_conn) blast
  from shutdown_after_last_byte [OF w(1,2) w(4) [symmetric] w(6,7)] w show ?thesis
    by - (rule exI [of _ w], auto)
qed

text \<open>
  C21. The end of a connection: \<open>handleClose\<close>, \<open>connectDestroyed\<close> and the destructor all return; then the
  poller knows nothing of the connection (no dangling channel), every other channel is registered
  as before, and the descriptor has been closed once.
\<close>

theorem connection_teardown:
  assumes "conn_inv w" and "cstate (conn w) \<in> {Connected, Disconnecting}"
    and "chans (rx w) (cref (conn w)) = Some c" and "\<not> eventHandling c"
  shows "\<exists>w1 w2 w3. conn_handleClose (quiet_cbs wc) (loop_tid (rx w)) w = Inr w1 \<and>
    connectDestroyed (quiet_cbs wc) (loop_tid (rx w)) w1 = Inr w2 \<and> TcpConnection_dtor w2 = Inr w3 \<and>
    reactor_inv (rx w3) \<and> chans (rx w3) (cref (conn w)) = None \<and> (\<forall>fd. channel_map (rx w3) fd \<noteq> Some (cref (conn w))) \<and>
    (\<forall>d. d \<noteq> cref (conn w) \<longrightarrow> interest (rx w3) d = interest (rx w) d) \<and>
    cstate (conn w2) = Disconnected \<and> io w3 = io w @ [Sys (SysClose (conn_fd w))]"
  using conn_down [OF assms] by blast

theorem connection_teardown_witness:
  "\<exists>w w1 w2 w3. conn_handleClose (quiet_cbs False) 1 w = Inr w1 \<and> connectDestroyed (quiet_cbs False) 1 w1 = Inr w2 \<and>
     TcpConnection_dtor w2 = Inr w3 \<and> io w3 = [Sys (SysClose 5)]"
proof -
  obtain w :: conn_world and c :: "conn_handler channel" where w: "conn_inv w" "cstate (conn w) = Connected" "conn_fd w = 5"
    "loop_tid (rx w) = 1" "chans (rx w) (cref (conn w)) = Some c" "\<not> eventHandling c" "io w = []"
    by (rule sample_conn) blast
  then have "cstate (conn w) \<in> {Connected, Disconnecting}" by simp
  from connection_teardown [OF w(1) this w(5,6), of False] w show ?thesis
    by - (rule exI [of _ w], auto)
qed

text \<open>
  A message sent from another thread is sent through a bare pointer: if the connection is closed
  and destroyed before the loop runs the functor, the functor uses a dead object.
\<close>

theorem late_send_dangles:
  assumes "conn_inv w" and "cstate (conn w) = Connected" and "other \<noteq> loop_tid (rx w)"
    and "chans (rx w) (cref (conn w)) = Some c" and "\<not> eventHandling c"
  shows "\<exists>w0 w1 w2 w3. conn_send (quiet_cbs wc) other message wr w = Inr w0 \<and> TSend message \<in> set (tasks w0) \<and>
    conn_handleClose (quiet_cbs wc) (loop_tid (rx w)) w0 = Inr w1 \<and>
    connectDestroyed (quiet_cbs wc) (loop_tid (rx w)) w1 = Inr w2 \<and> TcpConnection_dtor w2 = Inr w3 \<and>
    run_task (quiet_cbs wc) (loop_tid (rx w)) wr (TSend message) w3 = Inl Dangling"
proof -
  let ?w0 = "queue_task (TSend message) w"
  have send: "conn_send (quiet_cbs wc) other message wr w = Inr ?w0" using assms(2,3) by (simp add: conn_send_def)
  have inv0: "conn_inv ?w0" "cstate (conn ?w0) \<in> {Connected, Disconnecting}" "chans (rx ?w0) (cref (conn ?w0)) = Some c"
    "rx ?w0 = rx w" "cref (conn ?w0) = cref (conn w)"
    using assms(1,2,4) by (simp_all add: conn_simps)
  from conn_down [OF inv0(1-3) assms(5), of wc] obtain w1 w2 w3 where
    d: "conn_handleClose (quiet_cbs wc) (loop_tid (rx w)) ?w0 = Inr w1"
    "connectDestroyed (quiet_cbs wc) (loop_tid (rx w)) w1 = Inr w2" "TcpConnection_dtor w2 = Inr w3"
    "loop_tid (rx w3) = loop_tid (rx w)" "cref (conn w3) = cref (conn w)" "chans (rx w3) (cref (conn w)) = None"
    unfolding inv0(4,5) by blast
  then have "run_task (quiet_cbs wc) (loop_tid (rx w)) wr (TSend message) w3 = Inl Dangling"
    by (simp add: run_task_def sendInLoop_def on_chan_def deref_def)
  with send d show ?thesis by (intro exI [of _ ?w0] exI [of _ w1] exI [of _ w2] exI [of _ w3]) (simp add: conn_simps)
qed

theorem late_send_dangles_witness:
  "\<exists>w w0. conn_send (quiet_cbs False) 2 [9] (Ret 1) w = Inr w0 \<and> TSend [9] \<in> set (tasks w0)"
proof -
  obtain w :: conn_world and c :: "conn_handler channel" where w: "conn_inv w" "cstate (conn w) = Connected"
    "loop_tid (rx w) = 1" "chans (rx w) (cref (conn w)) = Some c" "\<not> eventHandling c"
    by (rule sample_conn) blast
  then have "2 \<noteq> loop_tid (rx w)" by simp
  from late_send_dangles [OF w(1,2) this w(4,5), of False "[9]" "Ret 1"] show ?thesis by blast
qed

text \<open>
  An error of \<open>write\<close> takes the process down: \<open>sendInLoop\<close> treats every failure like a full socket,
  so after a broken connection (say EPIPE) it keeps the message and asks for write events, and the
  next \<open>handleWrite\<close> whose \<open>write\<close> fails, or writes nothing, calls \<open>abort\<close>.
\<close>

theorem write_error_aborts:
  assumes "conn_inv w" and "cstate (conn w) \<in> {Connected, Disconnecting}" and "self = loop_tid (rx w)"
    and "message \<noteq> []" and "room (outbuf (conn w)) (length message)" and "contents (outbuf (conn w)) = []"
  shows "\<exists>w1. sendInLoop cbs self message (Err e) w = Inr w1 \<and> contents (outbuf (conn w1)) = message \<and> io w1 = io w \<and>
    (\<exists>c. chans (rx w1) (cref (conn w1)) = Some c \<and> isWriting c) \<and>
    (\<forall>e'. conn_handleWrite cbs self (Err e') w1 = Inl Aborted) \<and> conn_handleWrite cbs self (Ret 0) w1 = Inl Aborted"
proof -
  from assms(1) obtain c where c: "buf_inv (outbuf (conn w))" "chans (rx w) (cref (conn w)) = Some c" "chan_agrees w c"
    by (rule conn_invD) blast
  from change_total [OF assms(1-3) c(2), of "\<lambda>e. e OR kWriteEvent"] obtain r where
    r: "enableWriting self (cref (conn w)) (rx w) = Inr r" "loop_tid r = loop_tid (rx w)"
      "chans r (cref (conn w)) = Some (c\<lparr>events := events c OR kWriteEvent\<rparr>)"
    unfolding enableWriting_def by blast
  from bb.enq_view [OF c(1) assms(5)] obtain b where
    b: "buffer_append message (outbuf (conn w)) = Inr b" "contents b = message" using assms(6) by auto
  let ?w1 = "(set_outbuf b w)\<lparr>rx := r\<rparr>"
  have "\<not> isWriting c" using c(3) assms(6) by (simp add: chan_agrees_def)
  then have "sendInLoop cbs self message (Err e) w = Inr ?w1"
    using assms(4) b(1) r(1)
    by (simp add: sendInLoop_alt assms(3) [symmetric] on_chan_eq [OF c(2)] direct_write_def on_poller_def conn_simps)
  moreover have "conn_handleWrite cbs self wr ?w1 = Inl Aborted" if "wr = Ret 0 \<or> (\<exists>e'. wr = Err e')" for wr
    using that r(2,3) assms(3) writing_bits(1) [of c] by (auto simp: conn_handleWrite_def on_chan_def deref_def conn_simps)
  ultimately show ?thesis using b(2) r(3) writing_bits(1) [of c] by (intro exI [of _ ?w1]) (simp add: conn_simps)
qed

theorem write_error_aborts_witness:
  "\<exists>w w1. conn_fd w = 5 \<and> sendInLoop (quiet_cbs False) 1 [1, 2, 3, 4, 5] (Err EAGAIN) w = Inr w1 \<and>
     contents (outbuf (conn w1)) = [1, 2, 3, 4, 5]"
proof -
  obtain w :: conn_world and c :: "conn_handler channel" where w: "conn_inv w" "cstate (conn w) = Connected" "conn_fd w = 5"
    "loop_tid (rx w) = 1" "contents (outbuf (conn w)) = []" "room (outbuf (conn w)) 5"
    by (rule sample_conn) blast
  have pre: "cstate (conn w) \<in> {Connected, Disconnecting}" "1 = loop_tid (rx w)" "[1, 2, 3, 4, 5 :: byte] \<noteq> []"
    "room (outbuf (conn w)) (length [1, 2, 3, 4, 5 :: byte])"
    using w by (simp_all add: numeral_eq_Suc)
  from write_error_aborts [OF w(1) pre w(5), of "quiet_cbs False" EAGAIN] w(3) show ?thesis by blast
qed

text \<open>
  C22. A send that a shutdown overtakes takes the process down. \<open>send\<close> in another thread queues the
  message for the loop; if the loop's thread calls \<open>shutdown\<close> before it runs its functors, the socket is shut at
  once, as there is no output yet. The queued \<open>sendInLoop\<close> then fails to write (EPIPE), keeps the
  message and asks for write events, none of it is written, and the next \<open>handleWrite\<close> calls \<open>abort\<close>.
\<close>

theorem overtaken_send_aborts:
  assumes "conn_inv w" and "cstate (conn w) = Connected" and "t \<noteq> loop_tid (rx w)"
    and "message \<noteq> []" and "room (outbuf (conn w)) (length message)" and "contents (outbuf (conn w)) = []"
  shows "\<exists>w1 w2. conn_send cbs t message wr w = Inr w1 \<and> TSend message \<in> set (tasks w1) \<and>
    conn_shutdown (loop_tid (rx w)) w1 = Inr w2 \<and> io w2 = io w @ [Sys (SysShutdownWr (conn_fd w))] \<and>
    (\<forall>e. \<exists>w3. run_task cbs (loop_tid (rx w)) (Err e) (TSend message) w2 = Inr w3 \<and> written w3 = written w \<and>
      contents (outbuf (conn w3)) = message \<and> (\<forall>e'. conn_handleWrite cbs (loop_tid (rx w)) (Err e') w3 = Inl Aborted))"
proof -
  let ?w1 = "queue_task (TSend message) w"
  let ?w2 = "log_io [Sys (SysShutdownWr (conn_fd w))] (set_state Disconnecting ?w1)"
  have send: "conn_send cbs t message wr w = Inr ?w1" using assms(2,3) by (simp add: conn_send_def)
  from assms(1) obtain c where c: "chans (rx w) (cref (conn w)) = Some c" "chan_agrees w c" by (rule conn_invD) blast
  then have "\<not> isWriting c" using assms(6) by (simp add: chan_agrees_def)
  then have shut: "conn_shutdown (loop_tid (rx w)) ?w1 = Inr ?w2"
    using assms(2) c(1) by (simp add: conn_shutdown_def Let_def shutdownInLoop_def on_chan_def deref_def conn_simps
        Socket_shutdownWrite_def sock_shutdownWrite_def conn_fd_def)
  have inv2: "conn_inv ?w2" using set_state_inv [of ?w1 Disconnecting] assms(1,2) by (simp add: conn_simps)
  have pre: "cstate (conn ?w2) \<in> {Connected, Disconnecting}" "loop_tid (rx w) = loop_tid (rx ?w2)"
    "room (outbuf (conn ?w2)) (length message)" "contents (outbuf (conn ?w2)) = []"
    using assms(5,6) by (simp_all add: conn_simps)
  have "\<exists>w3. run_task cbs (loop_tid (rx w)) (Err e) (TSend message) ?w2 = Inr w3 \<and> written w3 = written w \<and>
      contents (outbuf (conn w3)) = message \<and> (\<forall>e'. conn_handleWrite cbs (loop_tid (rx w)) (Err e') w3 = Inl Aborted)" for e
    using write_error_aborts [OF inv2 pre(1,2) assms(4) pre(3,4), of cbs e] by (auto simp: run_task_def written_def conn_simps)
  with send shut show ?thesis by (intro exI [of _ ?w1] exI [of _ ?w2]) (simp add: conn_simps)
qed

theorem overtaken_send_aborts_witness:
  "\<exists>w w1 w2 w3. cstate (conn w) = Connected \<and> conn_send (quiet_cbs False) 2 [7, 8, 9] (Ret 3) w = Inr w1 \<and> conn_shutdown 1 w1 = Inr w2 \<and>
     run_task (quiet_cbs False) 1 (Err EPIPE) (TSend [7, 8, 9]) w2 = Inr w3 \<and>
     conn_handleWrite (quiet_cbs False) 1 (Err EPIPE) w3 = Inl Aborted"
proof -
  obtain w :: conn_world and c :: "conn_handler channel" where w: "conn_inv w" "cstate (conn w) = Connected"
    "loop_tid (rx w) = 1" "contents (outbuf (conn w)) = []" "room (outbuf (conn w)) 5"
    by (rule sample_conn) blast
  have pre: "2 \<noteq> loop_tid (rx w)" "[7, 8, 9 :: byte] \<noteq> []" "room (outbuf (conn w)) (length [7, 8, 9 :: byte])"
    using w(3) room_less [OF w(5), of 3] by (simp_all add: numeral_3_eq_3)
  from overtaken_send_aborts [OF w(1,2) pre w(4), of "quiet_cbs False" "Ret 3"] w(2,3) show ?thesis by fastforce
qed

text \<open>
  The message callback is given the number of bytes read where its signature has the time at
  which \<open>poll\<close> returned: that time is not passed on at all.
\<close>

theorem message_time_is_byte_count:
  assumes "buf_inv (inbuf (conn w))" and "room (inbuf (conn w)) (length d)" and "d \<noteq> []" and "on_message cbs = Some f"
  shows "\<exists>b. contents b = contents (inbuf (conn w)) @ d \<and> buf_inv b \<and>
    (\<forall>receive. conn_handleRead cbs self receive (ReadBytes d) so w = f (Timestamp (int (length d))) (set_inbuf b w))"
proof -
  from readFd_ok [OF assms(1,2), of 0] obtain b where
    "readFd (ReadBytes d) 0 (inbuf (conn w)) = Inr (int (length d), 0, b)" "buf_inv b" "contents b = contents (inbuf (conn w)) @ d"
    by blast
  with assms(3,4) show ?thesis by (intro exI [of _ b]) (simp add: conn_handleRead_def Let_def)
qed

theorem message_time_is_byte_count_witness:
  "\<exists>w b. conn_fd w = 5 \<and> conn_handleRead (quiet_cbs False) 1 (Timestamp 1234567) (ReadBytes [7, 8]) (Ret 0) w = Inr (set_inbuf b w)"
proof -
  obtain w :: conn_world and c :: "conn_handler channel" where w: "conn_inv w" "conn_fd w = 5" "room (inbuf (conn w)) 5"
    by (rule sample_conn) blast
  have i: "buf_inv (inbuf (conn w))" using w(1) by (simp add: conn_inv_def)
  have room: "room (inbuf (conn w)) (length [7, 8 :: byte])" by (rule room_less [OF w(3)]) simp
  from message_time_is_byte_count [OF i room _ quiet_on_message, of False 1 "Ret 0"] w(2) show ?thesis by auto
qed

end
