(* ===== verification/Conn_Frame.thy ===== *)
theory Conn_Frame
  imports Tcp_Connection
begin

text \<open>
  What an operation of a TcpConnection leaves alone (src/net/TcpConnection.cpp with Poller.cpp): the
  channels of everybody else in the same poller, its own log and, but for reads, its input buffer; and
  which bytes it moves. The bytes an operation reads and takes, and whether its writes fail, are
  functions of the operation.
\<close>

section \<open>The other channels of a poller\<close>

text \<open>
  Outside \<open>K\<close>, channels stay as they are up to \<open>R\<close> and the map of descriptors is the same. Operations leave
  a channel alone but for its position in the array handed to poll(2); polling also sets the reported
  events, and the dispatch of an event its flag.
\<close>

definition chan_same :: "'h channel \<Rightarrow> 'h channel \<Rightarrow> bool" where
  "chan_same c c' \<longleftrightarrow> (\<exists>i. c' = c\<lparr>index := i\<rparr>)"

definition chan_like :: "'h channel \<Rightarrow> 'h channel \<Rightarrow> bool" where
  "chan_like c c' \<longleftrightarrow> (\<exists>i v b. c' = c\<lparr>index := i, revents := v, eventHandling := b\<rparr>)"

definition others_kept :: "('h channel \<Rightarrow> 'h channel \<Rightarrow> bool) \<Rightarrow> chref set \<Rightarrow> 'h reactor \<Rightarrow> 'h reactor \<Rightarrow> bool" where
  "others_kept R K r r' \<longleftrightarrow> loop_tid r' = loop_tid r \<and>
     (\<forall>d. d \<notin> K \<longrightarrow> rel_option R (chans r d) (chans r' d)) \<and>
     (\<forall>fd d. d \<notin> K \<longrightarrow> channel_map r' fd = Some d \<longleftrightarrow> channel_map r fd = Some d)"

text \<open>The channel of the operation keeps its callbacks, its descriptor and what was reported for it.\<close>

definition own_kept :: "chref \<Rightarrow> 'h reactor \<Rightarrow> 'h reactor \<Rightarrow> bool" where
  "own_kept ref r r' \<longleftrightarrow> (\<forall>c. chans r ref = Some c \<longrightarrow> (\<exists>e i. chans r' ref = Some (c\<lparr>events := e, index := i\<rparr>)))"

lemma chan_same_refl [simp]: "chan_same c c"
  unfolding chan_same_def by (rule exI [of _ "index c"]) simp

lemma chan_same_trans: "chan_same a b \<Longrightarrow> chan_same b c \<Longrightarrow> chan_same a c"
  by (auto simp: chan_same_def)

lemma chan_same_like: "chan_same c c' \<Longrightarrow> chan_like c c'"
  unfolding chan_same_def chan_like_def
  by (elim exE) (intro exI [of _ "index c'"] exI [of _ "revents c'"] exI [of _ "eventHandling c'"], simp)

lemma chan_likeD: "chan_like c c' \<Longrightarrow> chan_fd c' = chan_fd c \<and> events c' = events c \<and>
    readCallback c' = readCallback c \<and> writeCallback c' = writeCallback c \<and> errorCallback c' = errorCallback c \<and>
    closeCallback c' = closeCallback c"
  by (auto simp: chan_like_def)

lemma rel_chan_refl [simp]: "rel_option chan_same x x"
  by (cases x) simp_all

lemma others_kept_refl [simp]: "others_kept chan_same K r r"
  by (simp add: others_kept_def)

lemma others_kept_trans:
  assumes "others_kept chan_same K a b" and "others_kept chan_same K b c"
  shows "others_kept chan_same K a c"
proof -
  have "rel_option chan_same x z" if "rel_option chan_same x y" "rel_option chan_same y z" for x y z :: "'h channel option"
    using that by (cases x; cases y; cases z) (auto intro: chan_same_trans)
  with assms show ?thesis unfolding others_kept_def by metis
qed

lemma others_kept_like:
  assumes "others_kept chan_same K r r'"
  shows "others_kept chan_like K r r'"
  using assms unfolding others_kept_def by (auto intro: option.rel_mono_strong chan_same_like)

lemma own_kept_refl [simp]: "own_kept ref r r"
proof -
  have "\<exists>e i. chans r ref = Some (c\<lparr>events := e, index := i\<rparr>)" if "chans r ref = Some c" for c
    using that by (intro exI [of _ "events c"] exI [of _ "index c"]) simp
  then show ?thesis by (simp add: own_kept_def)
qed

lemma own_kept_trans: "own_kept ref a b \<Longrightarrow> own_kept ref b c \<Longrightarrow> own_kept ref a c"
  unfolding own_kept_def by fastforce

lemma others_kept_change:
  assumes inv: "reactor_inv r" and op: "change_events f self ref r = Inr r'"
  shows "others_kept chan_same {ref} r r'"
  by (cases rule: change_events_Inr [OF inv op]) (auto simp: others_kept_def added_def updated_def)

lemma own_kept_change:
  assumes inv: "reactor_inv r" and op: "change_events f self ref r = Inr r'"
  shows "own_kept ref r r'"
  unfolding own_kept_def using change_events_chan [OF inv _ op] by blast

lemma others_kept_remove:
  assumes inv: "reactor_inv r" and op: "removeChannel self ref r = Inr r'"
  shows "others_kept chan_same {ref} r r'"
proof -
  from removeChannel_Inr [OF inv op] obtain c where
    c: "chans r ref = Some c" "channel_map r (chan_fd c) = Some ref" "r' = removed c r" by metis
  have "rel_option chan_same (chans r d) (chans r' d)" for d
    using removed_chan [OF inv c(1,2), of d] by (cases "chans r d") (auto simp: c(3) chan_same_def)
  with c show ?thesis by (auto simp: others_kept_def removed_def Let_def)
qed

lemma own_kept_remove:
  assumes inv: "reactor_inv r" and op: "removeChannel self ref r = Inr r'"
  shows "own_kept ref r r'"
  unfolding own_kept_def
proof (intro allI impI)
  fix c assume "chans r ref = Some c"
  from removeChannel_chan [OF inv op this] obtain k where "chans r' ref = Some (c\<lparr>index := k\<rparr>)" by blast
  then show "\<exists>e i. chans r' ref = Some (c\<lparr>events := e, index := i\<rparr>)" by (intro exI [of _ "events c"] exI [of _ k]) simp
qed

lemma others_kept_new: "others_kept chan_same {ref} r (new_chan ref c r)"
  by (simp add: others_kept_def new_chan_def put_chan_def)

lemma others_kept_put: "others_kept chan_same {ref} r (put_chan ref c r)"
  by (simp add: others_kept_def put_chan_def)

lemma others_kept_flag:
  assumes "chans r ref = Some c"
  shows "others_kept chan_like K r (put_chan ref (c\<lparr>eventHandling := b\<rparr>) r)"
proof -
  have "chan_like c (c\<lparr>eventHandling := b\<rparr>)"
    unfolding chan_like_def by (rule exI [of _ "index c"], rule exI [of _ "revents c"], rule exI [of _ b]) simp
  moreover have "rel_option chan_like x x" for x :: "'a channel option"
    by (cases x) (simp_all add: chan_same_like)
  ultimately show ?thesis using assms by (simp add: others_kept_def put_chan_def)
qed

lemma others_kept_delete: "delete_chan ref r = Inr r' \<Longrightarrow> others_kept chan_same {ref} r r'"
  by (auto simp: delete_chan_def deref_def result_simps others_kept_def split: option.splits)

lemma others_kept_poll:
  assumes inv: "reactor_inv r" and doc: "poll_doc (pollfds r) revs" and op: "Poller_poll (PollReady revs) [] r = Inr (r', active)"
  shows "others_kept chan_like K r r'" and "reactor_inv r'" and "channel_map r' = channel_map r"
proof -
  from Poller_poll_ok [OF inv doc] op have same: "same_but_revents (set_kernel_revents revs r) r'" and "reactor_inv r'" by auto
  then show "reactor_inv r'" by simp
  have "rel_option chan_like (chans r d) (chans r' d)" for d
  proof -
    have like: "chan_like c c'" if "c' = c\<lparr>revents := revents c'\<rparr>" for c c' :: "'a channel"
      unfolding chan_like_def by (rule exI [of _ "index c"], rule exI [of _ "revents c'"], rule exI [of _ "eventHandling c"]) (subst that, simp)
    from same have "rel_option (\<lambda>c c'. c' = c\<lparr>revents := revents c'\<rparr>) (chans r d) (chans r' d)"
      by (simp add: same_but_revents_def set_kernel_revents_def)
    then show ?thesis by (rule option.rel_mono_strong) (rule like)
  qed
  with same show "others_kept chan_like K r r'" "channel_map r' = channel_map r"
    by (simp_all add: others_kept_def same_but_revents_def set_kernel_revents_def)
qed

text \<open>A connection does not notice what happens to the channels of others.\<close>

lemma conn_inv_kept:
  assumes inv: "conn_inv w" and kept: "others_kept chan_like K (rx w) r'" and own: "cref (conn w) \<notin> K" and r': "reactor_inv r'"
  shows "conn_inv (w\<lparr>rx := r'\<rparr>)"
proof -
  from inv obtain c where i: "buf_inv (inbuf (conn w))" "buf_inv (outbuf (conn w))"
    "chans (rx w) (cref (conn w)) = Some c" "chan_agrees w c" by (rule conn_invD) blast
  from kept own have "rel_option chan_like (chans (rx w) (cref (conn w))) (chans r' (cref (conn w)))"
    by (simp add: others_kept_def)
  with i(3) obtain c' where c': "chans r' (cref (conn w)) = Some c'" "chan_like c c'" by (auto simp: option_rel_Some1)
  from kept own have "channel_map r' fd = Some (cref (conn w)) \<longleftrightarrow> channel_map (rx w) fd = Some (cref (conn w))" for fd
    by (simp add: others_kept_def)
  with i(4) chan_likeD [OF c'(2)] have "chan_agrees (w\<lparr>rx := r'\<rparr>) c'"
    by (simp add: chan_agrees_def conn_fd_def isWriting_def isNoneEvent_def)
  with i r' c'(1) show ?thesis by (intro conn_invI [of _ c']) simp_all
qed

section \<open>Effects of the operations\<close>

definition read_bytes :: "conn_op \<Rightarrow> byte list" where
  "read_bytes op = (case op of OpRead _ (ReadBytes d) _ \<Rightarrow> d | _ \<Rightarrow> [])"

definition reads_end :: "conn_op \<Rightarrow> bool" where
  "reads_end op = (case op of OpRead _ (ReadBytes d) _ \<Rightarrow> d = [] | _ \<Rightarrow> False)"

definition taken_bytes :: "conn_op \<Rightarrow> conn_world \<Rightarrow> byte list" where
  "taken_bytes op w = (case op of
       OpTake n \<Rightarrow> take (unat n) (contents (inbuf (conn w)))
     | OpTakeAll \<Rightarrow> contents (inbuf (conn w))
     | _ \<Rightarrow> [])"

definition write_fails :: "conn_op \<Rightarrow> bool" where
  "write_fails op = (case op of
       OpSend _ _ wr \<Rightarrow> (\<exists>e. wr = Err e)
     | OpTask _ wr \<Rightarrow> (\<exists>e. wr = Err e)
     | OpWrite wr \<Rightarrow> (\<exists>e. wr = Err e)
     | _ \<Rightarrow> True)"

section \<open>Frames\<close>

text \<open>
  The log of the connection grows, its input buffer is the same, and so are the channels of others
  in its poller, which stays consistent.
\<close>

definition effect :: "conn_world \<Rightarrow> conn_world \<Rightarrow> bool" where
  "effect w w' \<longleftrightarrow> (\<exists>es. io w' = io w @ es) \<and> inbuf (conn w') = inbuf (conn w) \<and> cref (conn w') = cref (conn w) \<and>
     (reactor_inv (rx w) \<longrightarrow> reactor_inv (rx w') \<and> others_kept chan_same {cref (conn w)} (rx w) (rx w') \<and> own_kept (cref (conn w)) (rx w) (rx w'))"

lemma effect_refl [simp]: "effect w w"
  by (simp add: effect_def)

lemma effect_trans: "effect u v \<Longrightarrow> effect v w \<Longrightarrow> effect u w"
  unfolding effect_def by (fastforce intro: others_kept_trans own_kept_trans)

lemma effect_frames [simp]:
  "effect w (log_io es w)" "effect w (set_outbuf b w)" "effect w (queue_task t w)" "effect w (set_state st w)"
  by (auto simp: effect_def conn_simps)

lemma effect_skip:
  "effect (set_outbuf b w) w' \<Longrightarrow> effect w w'" "effect (set_state st w) w' \<Longrightarrow> effect w w'" "effect (log_io es w) w' \<Longrightarrow> effect w w'"
  by (blast intro: effect_trans effect_frames)+

lemma poller_effect:
  assumes "on_poller f w = Inr w'"
    and "\<And>r. reactor_inv (rx w) \<Longrightarrow> f (rx w) = Inr r \<Longrightarrow> reactor_inv r \<and> others_kept chan_same {cref (conn w)} (rx w) r \<and> own_kept (cref (conn w)) (rx w) r"
  shows "effect w w'"
  using assms by (auto simp: on_poller_def result_simps effect_def)

lemma on_poller_effect:
  "on_poller (enableReading self ref) w = Inr w' \<Longrightarrow> ref = cref (conn w) \<Longrightarrow> effect w w'"
  "on_poller (enableWriting self ref) w = Inr w' \<Longrightarrow> ref = cref (conn w) \<Longrightarrow> effect w w'"
  "on_poller (disableWriting self ref) w = Inr w' \<Longrightarrow> ref = cref (conn w) \<Longrightarrow> effect w w'"
  "on_poller (disableAll self ref) w = Inr w' \<Longrightarrow> ref = cref (conn w) \<Longrightarrow> effect w w'"
  "on_poller (removeChannel self ref) w = Inr w' \<Longrightarrow> ref = cref (conn w) \<Longrightarrow> effect w w'"
  unfolding enableReading_def enableWriting_def disableWriting_def disableAll_def
  by (erule poller_effect, blast dest: reg.change_ok others_kept_change own_kept_change removeChannel_inv others_kept_remove own_kept_remove)+

lemma direct_write_effect: "direct_write cbs message wr c w = (k, w1) \<Longrightarrow> effect w w1"
  by (auto simp: direct_write_def effect_def conn_simps Let_def split: syscall.splits if_splits)

lemma sendInLoop_effect:
  assumes "sendInLoop cbs self message wr w = Inr w'"
  shows "effect w w'"
proof -
  from assms obtain c k w1 where "direct_write cbs message wr c w = (k, w1)"
    and op: "(if k < length message
       then rbind (buffer_append (drop k message) (outbuf (conn w1))) (\<lambda>b.
            if \<not> isWriting c then on_poller (enableWriting self (cref (conn w1))) (set_outbuf b w1) else Inr (set_outbuf b w1))
       else Inr w1) = Inr w'"
    unfolding sendInLoop_alt on_chan_def deref_def
    by (auto dest!: conn_assert_self split: option.splits prod.splits)
  have "effect w1 w'"
  proof (cases "k < length message")
    case False
    with op show ?thesis by simp
  next
    case True
    with op obtain b where "on_poller (enableWriting self (cref (conn w1))) (set_outbuf b w1) = Inr w' \<or> w' = set_outbuf b w1"
      by (simp add: result_simps split: if_splits) blast+
    then have "effect (set_outbuf b w1) w'" by (auto intro: on_poller_effect(2) simp: conn_simps)
    then show ?thesis by (rule effect_skip)
  qed
  with direct_write_effect [OF \<open>direct_write cbs message wr c w = (k, w1)\<close>] show ?thesis by (rule effect_trans)
qed

lemma shutdownInLoop_effect: "shutdownInLoop self w = Inr w' \<Longrightarrow> effect w w'"
  by (auto dest!: conn_assert_self simp: shutdownInLoop_def on_chan_def deref_def split: option.splits if_splits)

lemma handleWrite_effect:
  assumes "conn_handleWrite cbs self wr w = Inr w'"
  shows "effect w w'"
proof -
  from assms obtain c where self: "self = loop_tid (rx w)" and c: "chans (rx w) (cref (conn w)) = Some c"
    by (auto dest!: conn_assert_self simp: conn_handleWrite_def on_chan_def deref_def split: option.splits)
  show ?thesis
  proof (cases "isWriting c")
    case False
    with assms self show ?thesis by (simp add: conn_handleWrite_def on_chan_eq [OF c])
  next
    case True
    with assms self obtain n b where n: "wr = Ret n" "retrieve (of_nat n) (outbuf (conn w)) = Inr b"
      by (auto simp: conn_handleWrite_def on_chan_eq [OF c] result_simps split: syscall.splits if_splits)
    let ?w1 = "set_outbuf b (log_io [Wrote (chan_fd c) (take n (contents (outbuf (conn w))))] w)"
    from True assms self n have "(if readableBytes b = 0
        then rbind (on_poller (disableWriting self (cref (conn w))) ?w1) (\<lambda>w.
             let w = (if on_write_complete cbs \<noteq> None then queue_task TWriteComplete w else w) in
             if cstate (conn w) = Disconnecting then shutdownInLoop self w else Inr w)
        else Inr ?w1) = Inr w'"
      by (simp add: conn_handleWrite_def on_chan_eq [OF c] Let_def conn_simps cong: if_cong split: if_splits)
    then consider "w' = ?w1" | v u where "on_poller (disableWriting self (cref (conn w))) ?w1 = Inr v"
        "u = (if on_write_complete cbs \<noteq> None then queue_task TWriteComplete v else v)"
        "w' = u \<or> shutdownInLoop self u = Inr w'"
      by (auto simp: result_simps Let_def split: if_splits)
    then show ?thesis
    proof cases
      case 1
      then have "effect ?w1 w'" by simp
      then show ?thesis by (rule effect_skip(3) [OF effect_skip(1)])
    next
      case 2
      from 2(1) have "effect ?w1 v" by (rule on_poller_effect) (simp add: conn_simps)
      then have "effect w v" by (rule effect_skip(3) [OF effect_skip(1)])
      moreover have "effect v u" by (simp add: 2(2))
      moreover have "effect u w'" using 2(3) shutdownInLoop_effect by auto
      ultimately show ?thesis using effect_trans by blast
    qed
  qed
qed

lemma handleClose_effect: "conn_handleClose (quiet_cbs wc) self w = Inr w' \<Longrightarrow> effect w w'"
  by (auto dest!: conn_assert_self intro: on_poller_effect(4) simp: conn_handleClose_def result_simps quiet_cbs_def call_cb_def)

lemma established_effect:
  assumes "connectEstablished (quiet_cbs wc) self w = Inr w'"
  shows "effect w w'"
proof -
  from assms have "on_poller (enableReading self (cref (conn w))) (set_state Connected w) = Inr w'"
    by (auto dest!: conn_assert_self simp: connectEstablished_def result_simps quiet_cbs_def call_cb_def conn_simps)
  then have "effect (set_state Connected w) w'" by (rule on_poller_effect) (simp add: conn_simps)
  then show ?thesis by (rule effect_skip)
qed

lemma destroyed_effect:
  assumes "connectDestroyed (quiet_cbs wc) self w = Inr w'"
  shows "effect w w'"
proof -
  from assms obtain v where v: "on_poller (disableAll self (cref (conn w))) (set_state Disconnected w) = Inr v"
    "on_poller (removeChannel self (cref (conn v))) v = Inr w'"
    by (auto dest!: conn_assert_self simp: connectDestroyed_def result_simps quiet_cbs_def call_cb_def conn_simps)
  from v(1) have "effect (set_state Disconnected w) v" by (rule on_poller_effect) (simp add: conn_simps)
  moreover from v(2) have "effect v w'" by (rule on_poller_effect) simp
  ultimately show ?thesis by (blast intro: effect_skip effect_trans)
qed

lemma handleRead_split:
  assumes inv: "conn_inv w" and doc: "op_doc (OpRead t rd so) w" and op: "conn_handleRead (quiet_cbs wc) self t rd so w = Inr w'"
  shows "\<exists>v. contents (inbuf (conn v)) = contents (inbuf (conn w)) @ read_bytes (OpRead t rd so) \<and> io v = io w \<and>
    rx v = rx w \<and> cref (conn v) = cref (conn w) \<and> effect v w' \<and> written w' = written w"
proof (cases rd)
  case (ReadError e)
  with op have "w' = set_inbuf (inbuf (conn w)) w" by (simp add: conn_handleRead_def readFd_error conn_handleError_def)
  then show ?thesis by (intro exI [of _ w']) (simp add: ReadError read_bytes_def conn_simps)
next
  case (ReadBytes d)
  have b_inv: "buf_inv (inbuf (conn w))" using inv by (simp add: conn_inv_def)
  have room: "room (inbuf (conn w)) (length d)" using doc by (simp add: op_doc_def ReadBytes)
  from readFd_ok [OF b_inv room, of 0] obtain b where
    b: "readFd rd 0 (inbuf (conn w)) = Inr (int (length d), 0, b)" "contents b = contents (inbuf (conn w)) @ d"
    unfolding ReadBytes by blast
  let ?v = "set_inbuf b w"
  from op b(1) have "(if 0 < length d then Inr ?v else conn_handleClose (quiet_cbs wc) self ?v) = Inr w'"
    by (simp add: conn_handleRead_def quiet_on_message Let_def split: if_splits)
  then have w': "w' = ?v \<or> conn_handleClose (quiet_cbs wc) self ?v = Inr w'" by (auto split: if_splits)
  then have "effect ?v w'" using handleClose_effect by auto
  moreover have "written w' = written ?v"
    using w' by (auto dest!: conn_assert_self simp: conn_handleClose_def on_poller_def result_simps quiet_cbs_def call_cb_def conn_simps)
  ultimately show ?thesis using b(2) by (intro exI [of _ ?v]) (simp add: ReadBytes read_bytes_def conn_simps)
qed

lemma conn_do_effect:
  assumes inv: "conn_inv w" and doc: "op_doc op w" and op: "conn_do wc op w = Inr w'"
  shows "(\<exists>es. io w' = io w @ es) \<and> taken_bytes op w @ contents (inbuf (conn w')) = contents (inbuf (conn w)) @ read_bytes op \<and>
    others_kept chan_same {cref (conn w)} (rx w) (rx w') \<and> own_kept (cref (conn w)) (rx w) (rx w')"
proof -
  have ri: "reactor_inv (rx w)" using inv by (simp add: conn_inv_def)
  show ?thesis
  proof (cases op)
    case (OpRead t rd so)
    with op have "conn_handleRead (quiet_cbs wc) (loop_tid (rx w)) t rd so w = Inr w'" by (simp add: conn_do_def Let_def)
    from handleRead_split [OF inv doc [unfolded OpRead] this] show ?thesis
      using ri by (auto simp: OpRead effect_def taken_bytes_def)
  next
    case (OpTake k)
    have b_inv: "buf_inv (inbuf (conn w))" using inv by (simp add: conn_inv_def)
    from op OpTake obtain b where b: "retrieve k (inbuf (conn w)) = Inr b" "w' = set_inbuf b w"
      by (auto simp: conn_do_def result_simps)
    from bb.deq_Inr_iff [OF b_inv, of k] b(1) have "unat k \<le> length (contents (inbuf (conn w)))" by blast
    from bb.deq_view [OF b_inv this] b show ?thesis
      by (auto simp: OpTake taken_bytes_def read_bytes_def conn_simps)
  next
    case OpTakeAll
    have b_inv: "buf_inv (inbuf (conn w))" using inv by (simp add: conn_inv_def)
    from op OpTakeAll retrieveAsString_ok [OF b_inv] have "w' = set_inbuf (retrieveAll (inbuf (conn w))) w"
      by (simp add: conn_do_def)
    with retrieveAll_ok [OF b_inv] show ?thesis by (simp add: OpTakeAll taken_bytes_def read_bytes_def conn_simps)
  next
    case (OpTask t wr)
    with op have "effect w w'"
      by (cases t) (auto simp: conn_do_def run_task_def call_cb_def quiet_cbs_def Let_def
          dest: sendInLoop_effect shutdownInLoop_effect split: if_splits)
    with ri show ?thesis by (auto simp: OpTask effect_def taken_bytes_def read_bytes_def)
  next
    case (OpShutdown t)
    with op have "effect w w'"
      by (auto simp: conn_do_def conn_shutdown_def Let_def conn_simps dest!: shutdownInLoop_effect
          intro: effect_trans [OF effect_frames(4)] split: if_splits)
        (simp add: effect_def conn_simps)
    with ri show ?thesis by (auto simp: OpShutdown effect_def taken_bytes_def read_bytes_def)
  qed (use op ri in \<open>auto simp: conn_do_def conn_send_def taken_bytes_def read_bytes_def Let_def effect_def split: if_splits
        dest!: sendInLoop_effect handleWrite_effect handleClose_effect established_effect destroyed_effect\<close>,
      auto simp: conn_simps)
qed

text \<open>An operation whose write fails writes nothing.\<close>

lemma conn_do_no_write:
  assumes inv: "conn_inv w" and doc: "op_doc op w" and op: "conn_do wc op w = Inr w'" and fails: "write_fails op"
  shows "written w' = written w"
proof -
  have send: "written v = written w" if "sendInLoop cbs self message (Err e) w = Inr v" for cbs self message e v
    using that unfolding sendInLoop_alt on_chan_def deref_def direct_write_def
    by (auto dest!: conn_assert_self simp: on_poller_def result_simps conn_simps split: option.splits if_splits)
  have shut: "written v = written u" if "shutdownInLoop self u = Inr v" for self u v
    using that by (auto dest!: conn_assert_self simp: shutdownInLoop_def on_chan_def deref_def conn_simps split: option.splits if_splits)
  show ?thesis
  proof (cases op)
    case (OpRead t rd so)
    with op have "conn_handleRead (quiet_cbs wc) (loop_tid (rx w)) t rd so w = Inr w'" by (simp add: conn_do_def Let_def)
    from handleRead_split [OF inv doc [unfolded OpRead] this] show ?thesis by blast
  next
    case (OpTask t wr)
    with op fails show ?thesis
      by (cases t) (auto simp: conn_do_def run_task_def call_cb_def quiet_cbs_def write_fails_def Let_def
          dest!: send shut split: if_splits)
  next
    case (OpShutdown t)
    with op show ?thesis
      by (auto simp: conn_do_def conn_shutdown_def Let_def conn_simps dest!: shut split: if_splits)
  next
    case (OpWrite wr)
    with op fails show ?thesis
      by (auto dest!: conn_assert_self simp: conn_do_def conn_handleWrite_def on_chan_def deref_def write_fails_def
          Let_def split: option.splits if_splits)
  next
    case (OpSend t message wr)
    with op fails show ?thesis
      by (auto simp: conn_do_def conn_send_def write_fails_def conn_simps dest!: send split: if_splits)
  qed (use op in \<open>auto dest!: conn_assert_self simp: conn_do_def conn_handleClose_def connectEstablished_def connectDestroyed_def
      on_poller_def result_simps quiet_cbs_def call_cb_def conn_simps Let_def\<close>)
qed

end
