(* ===== verification/Conn_Loop.thy ===== *)
theory Conn_Loop
  imports Conn_Frame
begin

text \<open>
  Any number of TcpConnections in one loop (src/net/TcpConnection.cpp with Channel.cpp, Poller.cpp): they share
  the poller, whose array and positions change whenever one of them is added, changed or removed.

  A member is a connection with its own log, its queued functors and the bytes it has been handed; its \<open>view\<close> in the
  loop is the \<open>conn_world\<close> that its operations work on. A step constructs a connection on a new
  channel, lets one connection do an operation, deletes one whose channel has been removed, polls, or sets
  the flag of a channel around the dispatch of its events.
\<close>

section \<open>State and steps\<close>

record member =
  m_conn :: tcp_conn
  m_io :: "io_event list"
  m_tasks :: "conn_task list"
  m_handed :: "byte list"

record conn_loop =
  cl_rx :: "conn_handler reactor"
  members :: "chref \<Rightarrow> member option"

definition member_view :: "conn_loop \<Rightarrow> member \<Rightarrow> conn_world" where
  "member_view l m = \<lparr>conn = m_conn m, rx = cl_rx l, io = m_io m, tasks = m_tasks m\<rparr>"

definition put_member :: "chref \<Rightarrow> byte list \<Rightarrow> conn_world \<Rightarrow> conn_loop \<Rightarrow> conn_loop" where
  "put_member ref d w l = \<lparr>cl_rx = rx w,
     members = (members l)(ref \<mapsto> \<lparr>m_conn = conn w, m_io = io w, m_tasks = tasks w, m_handed = d\<rparr>)\<rparr>"

definition up :: "tcp_conn \<Rightarrow> bool" where
  "up c \<longleftrightarrow> cstate c \<in> {Connected, Disconnecting}"

inductive cl_step :: "bool \<Rightarrow> conn_loop \<Rightarrow> conn_loop \<Rightarrow> bool" for wc :: bool where
  cl_new: "TcpConnection_new name fd la pa ref (cl_rx l) = Inr w \<Longrightarrow> chans (cl_rx l) ref = None \<Longrightarrow> 0 \<le> fd \<Longrightarrow>
    cl_step wc l (put_member ref [] w l)"
| cl_do: "members l ref = Some m \<Longrightarrow> op_doc op (member_view l m) \<Longrightarrow> conn_do wc op (member_view l m) = Inr w \<Longrightarrow>
    cl_step wc l (put_member ref (m_handed m @ handed op (member_view l m)) w l)"
| cl_dtor: "members l ref = Some m \<Longrightarrow> ref \<notin> ran (channel_map (cl_rx l)) \<Longrightarrow> TcpConnection_dtor (member_view l m) = Inr w \<Longrightarrow>
    cl_step wc l \<lparr>cl_rx = rx w, members = (members l)(ref := None)\<rparr>"
| cl_poll: "poll_doc (pollfds (cl_rx l)) revs \<Longrightarrow> Poller_poll (PollReady revs) [] (cl_rx l) = Inr (r, active) \<Longrightarrow>
    cl_step wc l (l\<lparr>cl_rx := r\<rparr>)"
| cl_flag: "chans (cl_rx l) ref = Some c \<Longrightarrow> cl_step wc l (l\<lparr>cl_rx := put_chan ref (c\<lparr>eventHandling := b\<rparr>) (cl_rx l)\<rparr>)"

definition cl_init :: "conn_loop \<Rightarrow> bool" where
  "cl_init l \<longleftrightarrow> (\<exists>t. l = \<lparr>cl_rx = Poller_new t, members = Map.empty\<rparr>)"

section \<open>Invariant\<close>

definition member_inv :: "conn_loop \<Rightarrow> chref \<Rightarrow> member \<Rightarrow> bool" where
  "member_inv l ref m \<longleftrightarrow> cref (m_conn m) = ref \<and> conn_inv (member_view l m) \<and> stream (member_view l m) = m_handed m \<and>
     (\<exists>c. chans (cl_rx l) ref = Some c \<and> wired c)"

definition cl_inv :: "conn_loop \<Rightarrow> bool" where
  "cl_inv l \<longleftrightarrow> reactor_inv (cl_rx l) \<and> (\<forall>ref m. members l ref = Some m \<longrightarrow> member_inv l ref m) \<and>
     (\<forall>fd ref. channel_map (cl_rx l) fd = Some ref \<longrightarrow> members l ref \<noteq> None)"

lemma member_view_put:
  "member_view (put_member ref d w l) \<lparr>m_conn = conn w, m_io = io w, m_tasks = tasks w, m_handed = d\<rparr> = w"
  by (simp add: member_view_def put_member_def)

text \<open>A change of the poller that concerns other channels only.\<close>

lemma member_kept:
  assumes inv: "member_inv l ref m" and kept: "others_kept chan_like K (cl_rx l) r" and own: "ref \<notin> K" and r: "reactor_inv r"
    and l': "cl_rx l' = r"
  shows "member_inv l' ref m"
proof -
  have v: "member_view l' m = (member_view l m)\<lparr>rx := r\<rparr>" by (simp add: member_view_def l')
  have "conn_inv ((member_view l m)\<lparr>rx := r\<rparr>)"
    using inv kept own r by (intro conn_inv_kept [of _ K]) (simp_all add: member_inv_def member_view_def)
  moreover obtain c where c: "chans (cl_rx l) ref = Some c" "wired c" using inv by (auto simp: member_inv_def)
  moreover from kept own have "rel_option chan_like (chans (cl_rx l) ref) (chans r ref)" by (simp add: others_kept_def)
  with c(1) obtain c' where c': "chans r ref = Some c'" "chan_like c c'" by (auto simp: option_rel_Some1)
  with c(2) chan_likeD [OF c'(2)] have "chans (cl_rx l') ref = Some c' \<and> wired c'" by (simp add: wired_def l')
  ultimately show ?thesis using inv unfolding member_inv_def v by (auto simp: stream_def conn_simps)
qed

lemma cl_inv_put:
  assumes inv: "cl_inv l" and kept: "others_kept chan_same {ref} (cl_rx l) (rx w)" and w: "conn_inv w" "cref (conn w) = ref" "stream w = d"
    and c: "chans (rx w) ref = Some c" "wired c"
  shows "cl_inv (put_member ref d w l)"
proof -
  have r: "reactor_inv (rx w)" using w(1) by (simp add: conn_inv_def)
  let ?l = "put_member ref d w l"
  have rx: "cl_rx ?l = rx w" by (simp add: put_member_def)
  have "member_inv ?l ref' m" if m: "members ?l ref' = Some m" for ref' m
  proof (cases "ref' = ref")
    case True
    with m have "m = \<lparr>m_conn = conn w, m_io = io w, m_tasks = tasks w, m_handed = d\<rparr>" by (simp add: put_member_def)
    with w c True show ?thesis by (simp add: member_inv_def member_view_put rx)
  next
    case False
    with m inv have "member_inv l ref' m" by (simp add: put_member_def cl_inv_def)
    from member_kept [OF this others_kept_like [OF kept] _ r rx] False show ?thesis by simp
  qed
  moreover have "members ?l ref' \<noteq> None" if "channel_map (cl_rx ?l) fd = Some ref'" for fd ref'
  proof (cases "ref' = ref")
    case False
    with kept that have "channel_map (cl_rx l) fd = Some ref'" by (simp add: others_kept_def rx)
    with inv False show ?thesis by (simp add: cl_inv_def put_member_def)
  qed (simp add: put_member_def)
  ultimately show ?thesis using r by (simp add: cl_inv_def rx)
qed

lemma cl_step_inv: "cl_inv l \<Longrightarrow> cl_step wc l l' \<Longrightarrow> cl_inv l'"
proof (erule cl_step.cases, goal_cases)
  case (1 name fd la pa ref l0 w)
  then have inv: "cl_inv l" and new: "TcpConnection_new name fd la pa ref (cl_rx l) = Inr w" "chans (cl_rx l) ref = None" "0 \<le> fd"
    by simp_all
  from inv have "reactor_inv (cl_rx l)" by (simp add: cl_inv_def)
  from new_conn_ok [OF this new(2,3), of name la pa] new(1) have w: "conn_inv w" "stream w = []" "cref (conn w) = ref" by auto
  obtain b where b: "Buffer_new = Inr b" using Buffer_new_ok by blast
  from new(1) [symmetric] have "\<exists>c. rx w = new_chan ref c (cl_rx l)" by (auto simp: TcpConnection_new_def b)
  then have "others_kept chan_same {ref} (cl_rx l) (rx w)" using others_kept_new by auto
  moreover from new(1) [symmetric] have "\<exists>c. chans (rx w) ref = Some c \<and> wired c"
    by (auto simp: TcpConnection_new_def b new_chan_def put_chan_def wired_def setReadCallback_def setWriteCallback_def
        setCloseCallback_def setErrorCallback_def)
  ultimately show ?case using cl_inv_put [OF inv _ w(1,3,2)] 1 by auto
next
  case (2 l0 ref m op w)
  then have inv: "cl_inv l" and m: "members l ref = Some m" and doc: "op_doc op (member_view l m)"
    and op: "conn_do wc op (member_view l m) = Inr w" by simp_all
  from inv m obtain c where mi: "conn_inv (member_view l m)" "stream (member_view l m) = m_handed m" "cref (m_conn m) = ref"
    "chans (cl_rx l) ref = Some c" "wired c" unfolding cl_inv_def member_inv_def by blast
  from conn_do_ok [OF mi(1) doc op] mi have w: "conn_inv w" "stream w = m_handed m @ handed op (member_view l m)" "cref (conn w) = ref"
    by (simp_all add: same_conn_def) (simp add: member_view_def)
  from conn_do_effect [OF mi(1) doc op] have kept: "others_kept chan_same {ref} (cl_rx l) (rx w)" "own_kept ref (cl_rx l) (rx w)"
    by (simp_all add: member_view_def mi(3))
  from kept(2) mi(4) obtain e i where "chans (rx w) ref = Some (c\<lparr>events := e, index := i\<rparr>)" by (auto simp: own_kept_def)
  with cl_inv_put [OF inv kept(1) w(1,3,2) this] mi(5) 2 show ?case by (simp add: wired_def)
next
  case (3 l0 ref m w)
  then have inv: "cl_inv l" and m: "members l ref = Some m" and free: "ref \<notin> ran (channel_map (cl_rx l))"
    and dtor: "TcpConnection_dtor (member_view l m) = Inr w" by simp_all
  from inv m have ri: "reactor_inv (cl_rx l)" "cref (m_conn m) = ref" by (simp_all add: cl_inv_def member_inv_def)
  from dtor ri(2) have del: "delete_chan ref (cl_rx l) = Inr (rx w)"
    by (auto simp: TcpConnection_dtor_def on_poller_def result_simps member_view_def conn_simps)
  have r: "reactor_inv (rx w)" by (rule delete_inv [OF ri(1) del free])
  have map_eq: "channel_map (rx w) = channel_map (cl_rx l)"
    using del by (auto simp: delete_chan_def deref_def result_simps dest!: sym [of _ "rx w"] split: option.splits)
  have "member_inv \<lparr>cl_rx = rx w, members = (members l)(ref := None)\<rparr> ref' m'" if "((members l)(ref := None)) ref' = Some m'" for ref' m'
  proof -
    from that have ne: "ref' \<noteq> ref" and m': "members l ref' = Some m'" by (auto split: if_splits)
    from inv m' have "member_inv l ref' m'" by (simp add: cl_inv_def)
    from member_kept [OF this others_kept_like [OF others_kept_delete [OF del]] _ r] ne show ?thesis by simp
  qed
  moreover have "((members l)(ref := None)) ref' \<noteq> None" if "channel_map (rx w) fd = Some ref'" for fd ref'
    using inv that free by (auto simp: map_eq cl_inv_def ran_def)
  ultimately show ?case using r 3 by (simp add: cl_inv_def)
next
  case (4 l0 revs r active)
  then have inv: "cl_inv l" and ri: "reactor_inv (cl_rx l)" and doc: "poll_doc (pollfds (cl_rx l)) revs"
    and op: "Poller_poll (PollReady revs) [] (cl_rx l) = Inr (r, active)" by (simp_all add: cl_inv_def)
  note r = others_kept_poll [OF ri doc op]
  have "member_inv (l\<lparr>cl_rx := r\<rparr>) ref m" if "members l ref = Some m" for ref m
  proof -
    from inv that have "member_inv l ref m" by (simp add: cl_inv_def)
    from member_kept [OF this r(1) [of "{}"] _ r(2)] show ?thesis by simp
  qed
  with r(2,3) 4 show ?case by (simp add: cl_inv_def)
next
  case (5 l0 ref c b)
  then have inv: "cl_inv l" and c: "chans (cl_rx l) ref = Some c" by simp_all
  let ?r = "put_chan ref (c\<lparr>eventHandling := b\<rparr>) (cl_rx l)"
  from inv have "reactor_inv (cl_rx l)" by (simp add: cl_inv_def)
  from put_same_inv [OF this c, of "c\<lparr>eventHandling := b\<rparr>"] have r: "reactor_inv ?r" by simp
  have "member_inv (l\<lparr>cl_rx := ?r\<rparr>) ref' m" if "members l ref' = Some m" for ref' m
  proof -
    from inv that have "member_inv l ref' m" by (simp add: cl_inv_def)
    from member_kept [OF this others_kept_flag [OF c, of "{}"] _ r] show ?thesis by simp
  qed
  with r 5 show ?case by (simp add: cl_inv_def put_chan_def)
qed

interpretation cls: invariant_system cl_init "cl_step wc" cl_inv for wc
proof
  show "cl_inv l" if "cl_init l" for l using that by (auto simp: cl_init_def cl_inv_def Poller_new_inv) (simp add: Poller_new_def)
  show "cl_inv l'" if "cl_inv l" "cl_step wc l l'" for l l' using that by (rule cl_step_inv)
qed

lemma cl_member: "cl_inv l \<Longrightarrow> members l ref = Some m \<Longrightarrow> member_inv l ref m"
  by (simp add: cl_inv_def)

lemma member_mapped:
  assumes "cl_inv l" and "members l ref = Some m" and "up (m_conn m)"
  shows "channel_map (cl_rx l) (conn_fd (member_view l m)) = Some ref"
proof -
  from cl_member [OF assms(1,2)] have i: "conn_inv (member_view l m)" "cref (m_conn m) = ref" by (simp_all add: member_inv_def)
  then show ?thesis using assms(3) by (auto simp: conn_inv_def chan_agrees_def up_def member_view_def)
qed

section \<open>Properties\<close>

text \<open>Two connections in a loop, on the descriptors 5 and 6, the first of which is established, for the examples.\<close>

lemma sample_loop:
  obtains l m m' where "reach cl_init (cl_step False) l" "members l 0 = Some m" "members l 8 = Some m'" "up (m_conn m)"
    "m_handed m = []" "m_handed m' = []" "loop_tid (cl_rx l) = 1" "room (outbuf (m_conn m)) 5" "room (inbuf (m_conn m)) 5"
    "pollfds (cl_rx l) = [\<lparr>pfd_fd = 5, pfd_events = 3, pfd_revents = 0\<rparr>]" "channel_map (cl_rx l) = [5 \<mapsto> 0]"
    "\<And>c. chans (cl_rx l) 0 = Some c \<Longrightarrow> \<not> isNoneEvent c"
proof -
  obtain w0 w :: conn_world and c where w: "TcpConnection_new ''c'' 5 zero_addr zero_addr 0 (Poller_new 1) = Inr w0"
    "loop_tid (rx w0) = 1" "connectEstablished (quiet_cbs False) 1 w0 = Inr w" "conn_inv w" "cstate (conn w) = Connected"
    "loop_tid (rx w) = 1" "room (outbuf (conn w)) 5" "room (inbuf (conn w)) 5" "cref (conn w) = 0"
    "pollfds (rx w) = [\<lparr>pfd_fd = 5, pfd_events = 3, pfd_revents = 0\<rparr>]" "channel_map (rx w) = [5 \<mapsto> 0]"
    "chans (rx w) (cref (conn w)) = Some c" "\<not> isNoneEvent c"
    by (rule sample_established) blast
  let ?l0 = "\<lparr>cl_rx = Poller_new 1, members = Map.empty\<rparr>"
  let ?l1 = "put_member 0 [] w0 ?l0"
  have r0: "reach cl_init (cl_step False) ?l0" by (rule reach_init) (auto simp: cl_init_def)
  have "TcpConnection_new ''c'' 5 zero_addr zero_addr 0 (cl_rx ?l0) = Inr w0" "chans (cl_rx ?l0) 0 = None"
    using w(1) by simp (simp add: Poller_new_def)
  from reach_step [OF r0 cl_new [OF this]] have r1: "reach cl_init (cl_step False) ?l1" by simp
  let ?m0 = "\<lparr>m_conn = conn w0, m_io = io w0, m_tasks = tasks w0, m_handed = []\<rparr>"
  have m0: "members ?l1 0 = Some ?m0" "member_view ?l1 ?m0 = w0" by (simp_all add: member_view_put) (simp add: put_member_def)
  have op: "op_doc OpEstablish (member_view ?l1 ?m0)" "conn_do False OpEstablish (member_view ?l1 ?m0) = Inr w"
    using w(2,3) m0(2) by (simp_all add: op_doc_def conn_do_def)
  let ?l2 = "put_member 0 [] w ?l1"
  from reach_step [OF r1 cl_do [OF m0(1) op]] have r2: "reach cl_init (cl_step False) ?l2" by (simp add: handed_def)
  have rx2: "cl_rx ?l2 = rx w" by (simp add: put_member_def)
  have free: "chans (rx w) 8 = None"
  proof -
    obtain b where b: "Buffer_new = Inr b" using Buffer_new_ok by blast
    from w(1) [symmetric] have new: "chans (rx w0) 8 = None" "cref (conn w0) = 0"
      by (simp_all add: TcpConnection_new_def b new_chan_def put_chan_def Poller_new_def)
    from established_effect [OF w(3)] cls.reach_inv [OF r1] have "others_kept chan_same {0} (rx w0) (rx w)"
      by (simp add: effect_def cl_inv_def put_member_def new(2))
    then have "rel_option chan_same (chans (rx w0) 8) (chans (rx w) 8)" unfolding others_kept_def by simp
    with new(1) show ?thesis by simp
  qed
  from w(4) have "reactor_inv (rx w)" by (simp add: conn_inv_def)
  from new_conn_ok [OF this free, of 6 "''d''" zero_addr zero_addr] w(6) obtain v where
    v0: "TcpConnection_new ''d'' 6 zero_addr zero_addr 8 (rx w) = Inr v" "loop_tid (rx v) = 1" by auto
  then have v: "TcpConnection_new ''d'' 6 zero_addr zero_addr 8 (cl_rx ?l2) = Inr v" "loop_tid (rx v) = 1"
    by (simp_all only: rx2)
  obtain b where b: "Buffer_new = Inr b" using Buffer_new_ok by blast
  from v0(1) [symmetric] have rxv: "pollfds (rx v) = pollfds (rx w)" "channel_map (rx v) = channel_map (rx w)" "chans (rx v) 0 = chans (rx w) 0"
    by (simp_all add: TcpConnection_new_def b new_chan_def put_chan_def)
  let ?l3 = "put_member 8 [] v ?l2"
  have "chans (cl_rx ?l2) 8 = None" using free by (simp only: rx2)
  from reach_step [OF r2 cl_new [OF v(1) this]] have r3: "reach cl_init (cl_step False) ?l3" by simp
  show thesis
    by (rule that [OF r3, of "\<lparr>m_conn = conn w, m_io = io w, m_tasks = tasks w, m_handed = []\<rparr>"
          "\<lparr>m_conn = conn v, m_io = io v, m_tasks = tasks v, m_handed = []\<rparr>"])
      (use w(5,7-) v(2) rxv in \<open>simp_all add: put_member_def up_def\<close>)
qed

text \<open>
  C3. Connections that share a loop do not disturb each other. Whatever connections of the loop are constructed,
  used, closed and deleted, and however their channels move in the array of the poller, for each of
  them the bytes written to its socket followed by its output buffer are the messages it accepted; its
  channel asks for write events exactly while there is output left, unless it has been closed; while it is up, its
  descriptor is registered for it and for no other, and sending on it returns.
\<close>

theorem connections_isolated:
  assumes "reach cl_init (cl_step wc) l" and "members l ref = Some m"
  shows "written (member_view l m) @ contents (outbuf (m_conn m)) = m_handed m \<and>
    (\<exists>c. chans (cl_rx l) ref = Some c \<and> (isWriting c \<longrightarrow> contents (outbuf (m_conn m)) \<noteq> []) \<and>
      (contents (outbuf (m_conn m)) \<noteq> [] \<longrightarrow> isWriting c \<or> isNoneEvent c)) \<and>
    (up (m_conn m) \<longrightarrow> channel_map (cl_rx l) (sockfd (csocket (m_conn m))) = Some ref \<and>
      (\<forall>ref' m'. members l ref' = Some m' \<longrightarrow> up (m_conn m') \<longrightarrow> ref' \<noteq> ref \<longrightarrow>
        sockfd (csocket (m_conn m')) \<noteq> sockfd (csocket (m_conn m))) \<and>
      (\<forall>cbs message wr. write_doc wr message \<longrightarrow> room (outbuf (m_conn m)) (length message) \<longrightarrow>
        (\<exists>w. sendInLoop cbs (loop_tid (cl_rx l)) message wr (member_view l m) = Inr w)))"
proof -
  have inv: "cl_inv l" by (rule cls.reach_inv [OF assms(1)])
  from cl_member [OF inv assms(2)] have i: "conn_inv (member_view l m)" "cref (m_conn m) = ref" "stream (member_view l m) = m_handed m"
    by (simp_all add: member_inv_def)
  have fd: "conn_fd (member_view l m') = sockfd (csocket (m_conn m'))" for m' by (simp add: conn_fd_def member_view_def)
  have "sockfd (csocket (m_conn m')) \<noteq> sockfd (csocket (m_conn m))"
    if "members l ref' = Some m'" "up (m_conn m')" "ref' \<noteq> ref" "up (m_conn m)" for ref' m'
    using member_mapped [OF inv that(1,2)] member_mapped [OF inv assms(2) that(4)] that(3) by (auto simp: fd)
  moreover have "\<exists>w. sendInLoop cbs (loop_tid (cl_rx l)) message wr (member_view l m) = Inr w"
    if "up (m_conn m)" "write_doc wr message" "room (outbuf (m_conn m)) (length message)" for cbs message wr
  proof (rule sendInLoop_total [OF i(1)])
    show "k \<le> length message" if "wr = Ret k" for k using \<open>write_doc wr message\<close> that by (simp add: write_doc_def)
  qed (use that in \<open>auto simp: member_view_def up_def\<close>)
  moreover have "\<exists>c. chans (cl_rx l) ref = Some c \<and> (isWriting c \<longrightarrow> contents (outbuf (m_conn m)) \<noteq> []) \<and>
      (contents (outbuf (m_conn m)) \<noteq> [] \<longrightarrow> isWriting c \<or> isNoneEvent c)"
    using i(1,2) by (auto simp: conn_inv_def chan_agrees_def member_view_def)
  moreover have "written (member_view l m) @ contents (outbuf (m_conn m)) = m_handed m"
    using i(3) by (simp add: stream_def member_view_def)
  ultimately show ?thesis using member_mapped [OF inv assms(2)] by (auto simp: fd)
qed

theorem connections_isolated_witness:
  "\<exists>l m m' w. reach cl_init (cl_step False) l \<and> members l 0 = Some m \<and> members l 8 = Some m' \<and> up (m_conn m) \<and>
     sendInLoop (quiet_cbs False) 1 [1, 2, 3] (Ret 2) (member_view l m) = Inr w"
proof -
  obtain l m m' where l: "reach cl_init (cl_step False) l" "members l 0 = Some m" "members l 8 = Some m'" "up (m_conn m)"
    "loop_tid (cl_rx l) = 1" "room (outbuf (m_conn m)) 5" by (rule sample_loop) blast
  have pre: "write_doc (Ret 2) [1, 2, 3 :: byte]" "room (outbuf (m_conn m)) (length [1, 2, 3 :: byte])"
    using room_less [OF l(6), of 3] by (simp_all add: write_doc_def numeral_3_eq_3)
  from connections_isolated [OF l(1,2)] l(4) pre
  have "\<exists>w. sendInLoop (quiet_cbs False) (loop_tid (cl_rx l)) [1, 2, 3] (Ret 2) (member_view l m) = Inr w" by blast
  then have "\<exists>w. sendInLoop (quiet_cbs False) 1 [1, 2, 3] (Ret 2) (member_view l m) = Inr w" by (simp add: l(5))
  with l show ?thesis by blast
qed

end
