(* ===== verification/Conn_Turn.thy ===== *)
theory Conn_Turn
  imports Conn_Loop
begin

text \<open>
  One turn of a loop over its connections (the body of src/net/EventLoop.cpp, \<open>loop()\<close>, with Poller.cpp,
  Channel.cpp and TcpConnection.cpp): \<open>poll\<close> returns, the poller collects the channels that have something
  to report, and each of them dispatches its events to the handlers of its connection, one after the
  other on the state that the ones before have left.

  What the kernel answers to the reads and writes of a connection is a function of its channel.
\<close>

section \<open>The turn\<close>

definition member_handleEvent ::
  "conn_callbacks \<Rightarrow> (chref \<Rightarrow> conn_inputs) \<Rightarrow> timestamp \<Rightarrow> chref \<Rightarrow> conn_loop \<Rightarrow> conn_loop result" where
  "member_handleEvent cbs answers t ref l = (case members l ref of None \<Rightarrow> Inl Dangling | Some m \<Rightarrow>
     rbind (handleEvent (\<lambda>w. chans (rx w) ref) (\<lambda>c w. w\<lparr>rx := put_chan ref c (rx w)\<rparr>)
         (conn_dispatch cbs (loop_tid (cl_rx l)) (answers ref)) t (member_view l m))
       (\<lambda>w. Inr (put_member ref (m_handed m) w l)))"

definition conn_turn ::
  "conn_callbacks \<Rightarrow> (chref \<Rightarrow> conn_inputs) \<Rightarrow> timestamp \<Rightarrow> poll_outcome \<Rightarrow> conn_loop \<Rightarrow> conn_loop result" where
  "conn_turn cbs answers t outcome l =
     rbind (Poller_poll outcome [] (cl_rx l)) (\<lambda>(r, active).
       rfold (member_handleEvent cbs answers t) active (l\<lparr>cl_rx := r\<rparr>))"

text \<open>
  Traffic: no hang-up and no error is reported, a read gives some bytes, and a write takes some of
  the output. What a read and a write move is \<open>got\<close> and \<open>gone\<close>.
\<close>

definition traffic :: "conn_inputs \<Rightarrow> event_bits \<Rightarrow> tcp_conn \<Rightarrow> bool" where
  "traffic os rv c \<longleftrightarrow> \<not> close_test rv \<and> \<not> error_test rv \<and>
     (read_test rv \<longrightarrow> (\<exists>d. in_read os = ReadBytes d \<and> d \<noteq> [] \<and> room (inbuf c) (length d))) \<and>
     (write_test rv \<longrightarrow> contents (outbuf c) \<noteq> [] \<longrightarrow> (\<exists>n. in_write os = Ret n \<and> 0 < n \<and> n \<le> length (contents (outbuf c))))"

definition got :: "conn_inputs \<Rightarrow> event_bits \<Rightarrow> byte list" where
  "got os rv = (if read_test rv then (case in_read os of ReadBytes d \<Rightarrow> d | ReadError _ \<Rightarrow> []) else [])"

definition gone :: "conn_inputs \<Rightarrow> event_bits \<Rightarrow> nat" where
  "gone os rv = (if write_test rv then (case in_write os of Ret n \<Rightarrow> n | Err _ \<Rightarrow> 0) else 0)"

section \<open>One connection\<close>

lemma call_if_skip: "getc w = Some c \<Longrightarrow> \<not> test (revents c) \<Longrightarrow> call_if getc test sel call run w = Inr w"
  by (simp add: call_if_def with_chan_def)

lemma call_if_run: "getc w = Some c \<Longrightarrow> test (revents c) \<Longrightarrow> sel c = Some h \<Longrightarrow> call_if getc test sel call run w = run h call w"
  by (simp add: call_if_def with_chan_def)

text \<open>Steps of one member, as steps of the loop.\<close>

lemma put_view_same: "members l ref = Some m \<Longrightarrow> put_member ref (m_handed m) (member_view l m) l = l"
  by (simp add: put_member_def member_view_def fun_upd_idem)

lemma put_put: "put_member ref h w' (put_member ref h w l) = put_member ref h w' l"
  by (simp add: put_member_def)

lemma put_member_at:
  "members (put_member ref h w l) ref = Some \<lparr>m_conn = conn w, m_io = io w, m_tasks = tasks w, m_handed = h\<rparr>"
  "cl_rx (put_member ref h w l) = rx w"
  by (simp_all add: put_member_def)

lemma step_op:
  assumes "op_doc op w" and "conn_do wc op w = Inr w'" and "handed op w = []"
  shows "cl_step wc (put_member ref h w l) (put_member ref h w' l)"
  using cl_do [OF put_member_at(1) [of ref h w l], of op wc w'] assms by (simp add: member_view_put put_put)

lemma step_flag:
  assumes "chans (rx w) ref = Some c"
  shows "cl_step wc (put_member ref h w l) (put_member ref h (w\<lparr>rx := put_chan ref (c\<lparr>eventHandling := b\<rparr>) (rx w)\<rparr>) l)"
proof -
  have "chans (cl_rx (put_member ref h w l)) ref = Some c" using assms by (simp add: put_member_at)
  from cl_flag [OF this, of wc b] show ?thesis by (simp add: put_member_def put_chan_def)
qed

lemma put_inv:
  assumes "cl_inv (put_member ref h w l)"
  shows "conn_inv w \<and> cref (conn w) = ref \<and> stream w = h \<and> (\<exists>c. chans (rx w) ref = Some c \<and> wired c)"
  using cl_member [OF assms put_member_at(1)] by (simp add: member_inv_def member_view_put put_member_at)

text \<open>The two handlers on traffic.\<close>

lemma read_traffic:
  assumes inv: "conn_inv w" and room: "room (inbuf (conn w)) (length d)" and d: "d \<noteq> []"
  shows "\<exists>b. conn_handleRead (quiet_cbs wc) self t (ReadBytes d) so w = Inr (set_inbuf b w) \<and> contents b = contents (inbuf (conn w)) @ d"
proof -
  have "buf_inv (inbuf (conn w))" using inv by (simp add: conn_inv_def)
  from readFd_ok [OF this room, of 0] obtain b where
    "readFd (ReadBytes d) 0 (inbuf (conn w)) = Inr (int (length d), 0, b)" "contents b = contents (inbuf (conn w)) @ d" by blast
  with d show ?thesis by (intro exI [of _ b]) (simp add: conn_handleRead_def quiet_on_message Let_def)
qed

lemma write_traffic:
  assumes inv: "conn_inv w" and u: "up (conn w)" and c: "chans (rx w) (cref (conn w)) = Some c" "\<not> isNoneEvent c"
    and n: "contents (outbuf (conn w)) \<noteq> [] \<Longrightarrow> \<exists>n. wr = Ret n \<and> 0 < n \<and> n \<le> length (contents (outbuf (conn w)))"
    and k: "k = (case wr of Ret n \<Rightarrow> n | Err _ \<Rightarrow> 0)"
  shows "\<exists>w'. conn_handleWrite (quiet_cbs wc) (loop_tid (rx w)) wr w = Inr w' \<and>
    contents (outbuf (conn w')) = drop k (contents (outbuf (conn w))) \<and> effect w w'"
proof (cases "contents (outbuf (conn w)) = []")
  case True
  have "chan_agrees w c" using inv c(1) by (auto simp: conn_inv_def)
  with True have "\<not> isWriting c" by (simp add: chan_agrees_def)
  then show ?thesis using True by (intro exI [of _ w]) (simp add: conn_handleWrite_def on_chan_eq [OF c(1)])
next
  case False
  from n [OF False] obtain j where j: "wr = Ret j" "0 < j" "j \<le> length (contents (outbuf (conn w)))" by blast
  have "chan_agrees w c" using inv c(1) by (auto simp: conn_inv_def)
  with False c(2) have "isWriting c" by (auto simp: chan_agrees_def)
  from handleWrite_io [OF inv _ refl c(1) this j(2,3), of "quiet_cbs wc"] u obtain w' where
    w': "conn_handleWrite (quiet_cbs wc) (loop_tid (rx w)) (Ret j) w = Inr w'" "written w' = written w @ take j (contents (outbuf (conn w)))"
    by (auto simp: up_def written_def split: if_splits)
  from handleWrite_doc [OF inv _ w'(1)] j(3) have "stream w' = stream w" by (simp add: write_doc_def)
  then have "take j (contents (outbuf (conn w))) @ contents (outbuf (conn w')) =
      take j (contents (outbuf (conn w))) @ drop j (contents (outbuf (conn w)))"
    using w'(2) by (simp add: stream_def)
  then have "contents (outbuf (conn w')) = drop j (contents (outbuf (conn w)))" by (simp only: same_append_eq)
  with w'(1) handleWrite_effect [OF w'(1)] j(1) k show ?thesis by auto
qed

text \<open>The two tests of a dispatch that traffic can pass, as steps of the loop.\<close>

definition read_part :: "bool \<Rightarrow> conn_inputs \<Rightarrow> timestamp \<Rightarrow> event_bits \<Rightarrow> conn_world \<Rightarrow> conn_world result" where
  "read_part wc os t rv w = (if read_test rv then conn_dispatch (quiet_cbs wc) (loop_tid (rx w)) os ConnRead (ReadCall t) w else Inr w)"

definition write_part :: "bool \<Rightarrow> conn_inputs \<Rightarrow> event_bits \<Rightarrow> conn_world \<Rightarrow> conn_world result" where
  "write_part wc os rv w = (if write_test rv then conn_dispatch (quiet_cbs wc) (loop_tid (rx w)) os ConnWrite WriteCall w else Inr w)"

lemma member_reads:
  assumes inv: "cl_inv (put_member ref h w l)" and tr: "traffic os rv (conn w)"
  shows "\<exists>w'. read_part wc os t rv w = Inr w' \<and> contents (inbuf (conn w')) = contents (inbuf (conn w)) @ got os rv \<and>
    (cl_step wc)\<^sup>*\<^sup>* (put_member ref h w l) (put_member ref h w' l) \<and> rx w' = rx w \<and> cstate (conn w') = cstate (conn w) \<and>
    outbuf (conn w') = outbuf (conn w)"
proof (cases "read_test rv")
  case False
  then show ?thesis by (simp add: read_part_def got_def)
next
  case True
  with tr obtain d where d: "in_read os = ReadBytes d" "d \<noteq> []" "room (inbuf (conn w)) (length d)" by (auto simp: traffic_def)
  from read_traffic [OF _ d(3,2), of wc "loop_tid (rx w)" t "in_error os"] put_inv [OF inv] obtain b where
    b: "conn_handleRead (quiet_cbs wc) (loop_tid (rx w)) t (ReadBytes d) (in_error os) w = Inr (set_inbuf b w)"
      "contents b = contents (inbuf (conn w)) @ d" by blast
  have "cl_step wc (put_member ref h w l) (put_member ref h (set_inbuf b w) l)"
    by (rule step_op [of "OpRead t (ReadBytes d) (in_error os)"])
      (use b(1) d(3) in \<open>simp_all add: op_doc_def conn_do_def handed_def\<close>)
  with True b d(1) show ?thesis
    by (intro exI [of _ "set_inbuf b w"]) (auto simp: read_part_def conn_dispatch_def got_def conn_simps)
qed

lemma member_writes:
  assumes inv: "cl_inv (put_member ref h w l)" and tr: "traffic os rv c0" "outbuf c0 = outbuf (conn w)" and u: "up (conn w)"
    and c: "chans (rx w) ref = Some c" "\<not> isNoneEvent c"
  shows "\<exists>w'. write_part wc os rv w = Inr w' \<and> contents (outbuf (conn w')) = drop (gone os rv) (contents (outbuf (conn w))) \<and>
    (cl_step wc)\<^sup>*\<^sup>* (put_member ref h w l) (put_member ref h w' l) \<and> effect w w'"
proof (cases "write_test rv")
  case False
  then show ?thesis by (intro exI [of _ w]) (simp add: write_part_def gone_def)
next
  case True
  have n: "\<exists>n. in_write os = Ret n \<and> 0 < n \<and> n \<le> length (contents (outbuf (conn w)))" if "contents (outbuf (conn w)) \<noteq> []"
    using tr True that by (simp add: traffic_def)
  have i: "conn_inv w" "chans (rx w) (cref (conn w)) = Some c" using put_inv [OF inv] c(1) by simp_all
  from write_traffic [OF i(1) u i(2) c(2) n refl, of wc] obtain w' where
    w': "conn_handleWrite (quiet_cbs wc) (loop_tid (rx w)) (in_write os) w = Inr w'" "effect w w'"
      "contents (outbuf (conn w')) = drop (case in_write os of Ret n \<Rightarrow> n | Err _ \<Rightarrow> 0) (contents (outbuf (conn w)))" by auto
  have "(cl_step wc)\<^sup>*\<^sup>* (put_member ref h w l) (put_member ref h w' l)"
  proof (cases "contents (outbuf (conn w)) = []")
    case True
    then have "\<not> isWriting c" using i by (auto simp: conn_inv_def chan_agrees_def)
    then have "w' = w" using w'(1) by (simp add: conn_handleWrite_def on_chan_eq [OF i(2)])
    then show ?thesis by simp
  next
    case False
    from n [OF False] have "write_doc (in_write os) (contents (outbuf (conn w)))" by (auto simp: write_doc_def)
    with w'(1) have "cl_step wc (put_member ref h w l) (put_member ref h w' l)"
      by (intro step_op [of "OpWrite (in_write os)"]) (simp_all add: op_doc_def conn_do_def handed_def)
    then show ?thesis by blast
  qed
  with True w' show ?thesis by (intro exI [of _ w']) (simp add: write_part_def conn_dispatch_def gone_def)
qed

text \<open>A dispatch of traffic is the flag set, the two tests, and the flag reset.\<close>

definition flagged :: "bool \<Rightarrow> chref \<Rightarrow> conn_world \<Rightarrow> conn_world" where
  "flagged b ref w = (case chans (rx w) ref of None \<Rightarrow> w | Some c \<Rightarrow> w\<lparr>rx := put_chan ref (c\<lparr>eventHandling := b\<rparr>) (rx w)\<rparr>)"

lemma flagged_simps [simp]:
  "conn (flagged b ref w) = conn w" "io (flagged b ref w) = io w" "loop_tid (rx (flagged b ref w)) = loop_tid (rx w)"
  by (simp_all add: flagged_def put_chan_def split: option.splits)

lemma flagged_chan: "chans (rx w) ref = Some c \<Longrightarrow> chans (rx (flagged b ref w)) ref = Some (c\<lparr>eventHandling := b\<rparr>)"
  by (simp add: flagged_def put_chan_def)

lemma flagged_kept: "others_kept chan_same {ref} (rx w) (rx (flagged b ref w))"
  by (auto simp: flagged_def others_kept_put split: option.splits)

lemma flagged_step:
  assumes "chans (rx w) ref = Some c"
  shows "cl_step wc (put_member ref h w l) (put_member ref h (flagged b ref w) l)"
  using step_flag [OF assms] assms by (simp add: flagged_def)

lemma traffic_dispatch:
  assumes c: "chans (rx w) ref = Some c" and wd: "wired c" and tr: "traffic os (revents c) c0"
    and r: "read_part wc os t (revents c) (flagged True ref w) = Inr w2" and w2: "rx w2 = rx (flagged True ref w)"
    and wr: "write_part wc os (revents c) w2 = Inr w3" and c3: "chans (rx w3) ref = Some c3"
  shows "handleEvent (\<lambda>w. chans (rx w) ref) (\<lambda>c w. w\<lparr>rx := put_chan ref c (rx w)\<rparr>)
      (conn_dispatch (quiet_cbs wc) (loop_tid (rx w)) os) t w = Inr (flagged False ref w3)"
proof -
  let ?getc = "\<lambda>w. chans (rx w) ref" and ?putc = "\<lambda>c w. w\<lparr>rx := put_chan ref c (rx w)\<rparr>"
  let ?run = "conn_dispatch (quiet_cbs wc) (loop_tid (rx w)) os" and ?w1 = "flagged True ref w"
  note c1 = flagged_chan [OF c, of True]
  have "with_chan ?getc (\<lambda>c w. Inr (?putc (c\<lparr>eventHandling := True\<rparr>) w)) w = Inr ?w1"
    using c by (simp add: with_chan_def flagged_def)
  moreover have "call_if ?getc close_test closeCallback CloseCall ?run ?w1 = Inr ?w1"
    using c1 tr by (simp add: call_if_def with_chan_def traffic_def)
  moreover have "call_if ?getc error_test errorCallback ErrorCall ?run ?w1 = Inr ?w1"
    using c1 tr by (simp add: call_if_def with_chan_def traffic_def)
  moreover have "call_if ?getc read_test readCallback (ReadCall t) ?run ?w1 = read_part wc os t (revents c) ?w1"
    using c1 wd by (simp add: call_if_def with_chan_def read_part_def wired_def)
  moreover have "call_if ?getc write_test writeCallback WriteCall ?run w2 = write_part wc os (revents c) w2"
    using c1 wd w2 by (simp add: call_if_def with_chan_def write_part_def wired_def)
  moreover have "with_chan ?getc (\<lambda>c w. Inr (?putc (c\<lparr>eventHandling := False\<rparr>) w)) w3 = Inr (flagged False ref w3)"
    using c3 by (simp add: with_chan_def flagged_def)
  ultimately show ?thesis unfolding handleEvent_def by (simp only: rbind_Inr r wr)
qed

text \<open>The whole dispatch for one connection.\<close>

definition served :: "conn_inputs \<Rightarrow> event_bits \<Rightarrow> member \<Rightarrow> member \<Rightarrow> bool" where
  "served os rv m m' \<longleftrightarrow> contents (inbuf (m_conn m')) = contents (inbuf (m_conn m)) @ got os rv \<and>
     contents (outbuf (m_conn m')) = drop (gone os rv) (contents (outbuf (m_conn m))) \<and> m_handed m' = m_handed m"

lemma member_serves:
  assumes inv: "cl_inv l" and m: "members l ref = Some m" and u: "up (m_conn m)"
    and c: "chans (cl_rx l) ref = Some c" "\<not> isNoneEvent c" and tr: "traffic (answers ref) (revents c) (m_conn m)"
  shows "\<exists>l' m'. member_handleEvent (quiet_cbs wc) answers t ref l = Inr l' \<and> (cl_step wc)\<^sup>*\<^sup>* l l' \<and>
    members l' = (members l)(ref \<mapsto> m') \<and> served (answers ref) (revents c) m m' \<and> others_kept chan_same {ref} (cl_rx l) (cl_rx l')"
proof -
  let ?h = "m_handed m" and ?w = "member_view l m" and ?os = "answers ref" and ?rv = "revents c"
  let ?L = "\<lambda>w. put_member ref ?h w l"
  have w: "conn ?w = m_conn m" "rx ?w = cl_rx l" by (simp_all add: member_view_def)
  have L: "?L ?w = l" by (rule put_view_same [OF m])
  from cl_member [OF inv m] c(1) have wd: "wired c" by (simp add: member_inv_def)
  let ?w1 = "flagged True ref ?w"
  have c0: "chans (rx ?w) ref = Some c" by (simp add: w c(1))
  note c1 = flagged_chan [OF c0, of True]
  from flagged_step [OF c0, of wc ?h l True] have s1: "cl_step wc l (?L ?w1)" by (simp add: L)
  note inv1 = cl_step_inv [OF inv s1]
  from member_reads [OF inv1, of ?os ?rv wc t] tr obtain w2 where
    w2: "read_part wc ?os t ?rv ?w1 = Inr w2" "contents (inbuf (conn w2)) = contents (inbuf (m_conn m)) @ got ?os ?rv"
      "(cl_step wc)\<^sup>*\<^sup>* (?L ?w1) (?L w2)" "rx w2 = rx ?w1" "cstate (conn w2) = cstate (m_conn m)" "outbuf (conn w2) = outbuf (m_conn m)"
    by (auto simp: w)
  have inv2: "cl_inv (?L w2)" by (rule cls.steps_inv [OF w2(3) inv1])
  have c2: "chans (rx w2) ref = Some (c\<lparr>eventHandling := True\<rparr>)" "\<not> isNoneEvent (c\<lparr>eventHandling := True\<rparr>)" "up (conn w2)"
    using c1 c(2) u w2(4,5) by (simp_all add: isNoneEvent_def up_def)
  from member_writes [OF inv2 tr w2(6) [symmetric] c2(3,1,2), of wc] obtain w3 where
    w3: "write_part wc ?os ?rv w2 = Inr w3" "contents (outbuf (conn w3)) = drop (gone ?os ?rv) (contents (outbuf (m_conn m)))"
      "(cl_step wc)\<^sup>*\<^sup>* (?L w2) (?L w3)" "effect w2 w3" by (auto simp: w2(6))
  have "reactor_inv (rx w2)" "cref (conn w2) = ref" using put_inv [OF inv2] by (simp_all add: conn_inv_def)
  with w3(4) have kept: "others_kept chan_same {ref} (rx w2) (rx w3)" "own_kept ref (rx w2) (rx w3)" "inbuf (conn w3) = inbuf (conn w2)"
    by (simp_all add: effect_def)
  from kept(2) c2(1) obtain c3 where c3: "chans (rx w3) ref = Some c3" by (auto simp: own_kept_def)
  let ?w4 = "flagged False ref w3"
  from traffic_dispatch [OF c0 wd tr w2(1,4) w3(1) c3]
  have "member_handleEvent (quiet_cbs wc) answers t ref l = Inr (?L ?w4)" using m by (simp add: member_handleEvent_def w)
  moreover have "(cl_step wc)\<^sup>*\<^sup>* l (?L ?w4)"
    using s1 w2(3) w3(3) flagged_step [OF c3, of wc ?h l False]
    by (meson converse_rtranclp_into_rtranclp rtranclp.rtrancl_into_rtrancl rtranclp_trans)
  moreover have "members (?L ?w4) = (members l)(ref \<mapsto> \<lparr>m_conn = conn ?w4, m_io = io ?w4, m_tasks = tasks ?w4, m_handed = ?h\<rparr>)"
    by (simp add: put_member_def)
  moreover have "served ?os ?rv m \<lparr>m_conn = conn ?w4, m_io = io ?w4, m_tasks = tasks ?w4, m_handed = ?h\<rparr>"
    using w2(2) w3(2) kept(3) by (simp add: served_def)
  moreover have "others_kept chan_same {ref} (cl_rx l) (cl_rx (?L ?w4))"
    using others_kept_trans [OF flagged_kept [of ref ?w True] others_kept_trans [OF kept(1) [unfolded w2(4)] flagged_kept]]
    by (simp add: put_member_at w)
  ultimately show ?thesis by blast
qed

section \<open>All the connections that are ready\<close>

definition ready_member :: "(chref \<Rightarrow> conn_inputs) \<Rightarrow> conn_loop \<Rightarrow> chref \<Rightarrow> bool" where
  "ready_member answers l ref \<longleftrightarrow> (\<exists>m c. members l ref = Some m \<and> up (m_conn m) \<and> chans (cl_rx l) ref = Some c \<and>
     \<not> isNoneEvent c \<and> traffic (answers ref) (revents c) (m_conn m))"

definition reported :: "conn_loop \<Rightarrow> chref \<Rightarrow> event_bits" where
  "reported l ref = revents (the (chans (cl_rx l) ref))"

lemma turn_loop:
  assumes "cl_inv l" and "distinct refs" and "\<And>ref. ref \<in> set refs \<Longrightarrow> ready_member answers l ref"
  shows "\<exists>l'. rfold (member_handleEvent (quiet_cbs wc) answers t) refs l = Inr l' \<and> (cl_step wc)\<^sup>*\<^sup>* l l' \<and>
    (\<forall>ref m. members l ref = Some m \<longrightarrow> (\<exists>m'. members l' ref = Some m' \<and>
      (if ref \<in> set refs then served (answers ref) (reported l ref) m m' else m' = m)))"
  using assms
proof (induction refs arbitrary: l)
  case Nil
  then show ?case by auto
next
  case (Cons ref refs)
  from Cons.prems(3) [of ref] obtain m c where m: "members l ref = Some m" "up (m_conn m)" "chans (cl_rx l) ref = Some c"
    "\<not> isNoneEvent c" "traffic (answers ref) (revents c) (m_conn m)" by (auto simp: ready_member_def)
  from member_serves [of l ref m c answers wc t, OF Cons.prems(1) m] obtain k m' where
    k: "member_handleEvent (quiet_cbs wc) answers t ref l = Inr k" "(cl_step wc)\<^sup>*\<^sup>* l k" "members k = (members l)(ref \<mapsto> m')"
      "served (answers ref) (revents c) m m'" "others_kept chan_same {ref} (cl_rx l) (cl_rx k)" by blast
  have same: "\<exists>d i. chans (cl_rx l) r = Some d \<and> chans (cl_rx k) r = Some (d\<lparr>index := i\<rparr>)"
    if "r \<noteq> ref" "chans (cl_rx l) r \<noteq> None" for r
  proof -
    from k(5) that(1) have "rel_option chan_same (chans (cl_rx l) r) (chans (cl_rx k) r)" by (simp add: others_kept_def)
    with that(2) show ?thesis by (auto simp: option_rel_Some1 chan_same_def)
  qed
  have rest: "ready_member answers k r \<and> reported k r = reported l r" if "r \<in> set refs" for r
  proof -
    from Cons.prems(2,3) that have r: "r \<noteq> ref" "ready_member answers l r" by auto
    then obtain n d where d: "members l r = Some n" "up (m_conn n)" "chans (cl_rx l) r = Some d" "\<not> isNoneEvent d"
      "traffic (answers r) (revents d) (m_conn n)" unfolding ready_member_def by blast
    from same [OF r(1)] d(3) obtain i where i: "chans (cl_rx k) r = Some (d\<lparr>index := i\<rparr>)" by auto
    with d r(1) show ?thesis by (auto simp: ready_member_def reported_def k(3) isNoneEvent_def)
  qed
  from Cons.IH [OF cls.steps_inv [OF k(2) Cons.prems(1)]] Cons.prems(2) rest obtain l' where
    l': "rfold (member_handleEvent (quiet_cbs wc) answers t) refs k = Inr l'" "(cl_step wc)\<^sup>*\<^sup>* k l'"
      "\<forall>r n. members k r = Some n \<longrightarrow> (\<exists>n'. members l' r = Some n' \<and>
        (if r \<in> set refs then served (answers r) (reported k r) n n' else n' = n))" by auto
  have "\<exists>n'. members l' r = Some n' \<and> (if r \<in> set (ref # refs) then served (answers r) (reported l r) n n' else n' = n)"
    if "members l r = Some n" for r n
  proof (cases "r = ref")
    case True
    with that m(1) have "n = m" by simp
    moreover have "reported l ref = revents c" using m(3) by (simp add: reported_def)
    moreover have "members l' ref = Some m'"
    proof -
      have "members k ref = Some m'" by (simp add: k(3))
      with l'(3) Cons.prems(2) show ?thesis by fastforce
    qed
    ultimately show ?thesis using k(4) True by simp
  next
    case False
    with that have "members k r = Some n" by (simp add: k(3))
    with l'(3) obtain n' where n': "members l' r = Some n'" "if r \<in> set refs then served (answers r) (reported k r) n n' else n' = n"
      by blast
    with False rest [of r] show ?thesis by (cases "r \<in> set refs") auto
  qed
  with k(1,2) l'(1,2) show ?case by (intro exI [of _ l']) auto
qed

text \<open>From the array of \<open>poll\<close> to the members: what was reported, and for which.\<close>

lemma ready_distinct:
  assumes inv: "reactor_inv r" and doc: "poll_doc (pollfds r) revs"
  shows "distinct (map (channel_at r) (ready r revs))"
proof -
  have "inj_on (channel_at r) (set (ready r revs))"
  proof (rule inj_onI)
    fix i j assume ij: "i \<in> set (ready r revs)" "j \<in> set (ready r revs)" and eq: "channel_at r i = channel_at r j"
    then have "i < length (pollfds r)" "short_pos (revs ! i)" "j < length (pollfds r)" "short_pos (revs ! j)" by (auto simp: ready_def)
    from ready_slot [OF inv doc this(1,2)] ready_slot [OF inv doc this(3,4)] eq show "i = j"
      by (metis of_nat_eq_iff option.inject)
  qed
  then show ?thesis by (simp add: distinct_map ready_def)
qed

text \<open>What \<open>poll\<close> reports for a connection, if anything.\<close>

definition poll_event :: "conn_loop \<Rightarrow> 16 word list \<Rightarrow> chref \<Rightarrow> event_bits option" where
  "poll_event l revs ref = map_option (\<lambda>i. scast (revs ! i)) (find (\<lambda>i. channel_at (cl_rx l) i = ref) (ready (cl_rx l) revs))"

lemma poll_event_at:
  assumes "distinct (map (channel_at (cl_rx l)) (ready (cl_rx l) revs))" and "i \<in> set (ready (cl_rx l) revs)"
  shows "poll_event l revs (channel_at (cl_rx l) i) = Some (scast (revs ! i))"
proof -
  have "find (\<lambda>j. f j = f i) xs = Some i" if "distinct (map f xs)" "i \<in> set xs" for f :: "nat \<Rightarrow> chref" and xs
    using that by (induction xs) auto
  with assms show ?thesis by (simp add: poll_event_def)
qed

lemma poll_event_None: "ref \<notin> channel_at (cl_rx l) ` set (ready (cl_rx l) revs) \<Longrightarrow> poll_event l revs ref = None"
  by (auto simp: poll_event_def find_None_iff)

definition turn_ok :: "(chref \<Rightarrow> conn_inputs) \<Rightarrow> 16 word list \<Rightarrow> conn_loop \<Rightarrow> bool" where
  "turn_ok answers revs l \<longleftrightarrow> (\<forall>ref m rv. members l ref = Some m \<longrightarrow> poll_event l revs ref = Some rv \<longrightarrow>
     up (m_conn m) \<and> traffic (answers ref) rv (m_conn m) \<and> (\<forall>c. chans (cl_rx l) ref = Some c \<longrightarrow> \<not> isNoneEvent c))"

lemma turn_members:
  assumes inv: "cl_inv l" and doc: "poll_doc (pollfds (cl_rx l)) revs" and ok: "turn_ok answers revs l"
    and op: "Poller_poll (PollReady revs) [] (cl_rx l) = Inr (r, active)"
  shows "active = map (channel_at (cl_rx l)) (ready (cl_rx l) revs)"
    and "ref \<in> set active \<Longrightarrow> ready_member answers (l\<lparr>cl_rx := r\<rparr>) ref \<and> poll_event l revs ref = Some (reported (l\<lparr>cl_rx := r\<rparr>) ref)"
proof -
  from inv have ri: "reactor_inv (cl_rx l)" by (simp add: cl_inv_def)
  from Poller_poll_ok [OF ri doc] op have p: "active = map (channel_at (cl_rx l)) (ready (cl_rx l) revs)"
    "\<forall>i \<in> set (ready (cl_rx l) revs). \<exists>c. chans r (channel_at (cl_rx l) i) = Some c \<and> revents c = scast (revs ! i)" by auto
  then show "active = map (channel_at (cl_rx l)) (ready (cl_rx l) revs)" by simp
  assume "ref \<in> set active"
  with p(1) obtain i where i: "i \<in> set (ready (cl_rx l) revs)" "ref = channel_at (cl_rx l) i" by auto
  then have "i < length (pollfds (cl_rx l))" "short_pos (revs ! i)" by (auto simp: ready_def)
  from ready_slot [OF ri doc this] obtain c0 where
    c0: "channel_map (cl_rx l) (pfd_fd (pollfds (cl_rx l) ! i)) = Some ref" "chans (cl_rx l) ref = Some c0" unfolding i(2) by blast
  from c0(1) inv have "members l ref \<noteq> None" unfolding cl_inv_def by blast
  then obtain m where m: "members l ref = Some m" by blast
  from p(2) i obtain c where c: "chans r ref = Some c" "revents c = scast (revs ! i)" by auto
  have ev: "poll_event l revs ref = Some (revents c)"
    using poll_event_at [OF ready_distinct [OF ri doc] i(1)] by (simp add: i(2) c(2))
  from others_kept_poll(1) [OF ri doc op, of "{}"] c0(2) c(1) have "chan_like c0 c" by (auto simp: others_kept_def dest: spec [of _ ref])
  with ok m ev c0(2) have "up (m_conn m)" "traffic (answers ref) (revents c) (m_conn m)" "\<not> isNoneEvent c"
    by (auto simp: turn_ok_def isNoneEvent_def dest: chan_likeD)
  with m c ev show "ready_member answers (l\<lparr>cl_rx := r\<rparr>) ref \<and> poll_event l revs ref = Some (reported (l\<lparr>cl_rx := r\<rparr>) ref)"
    by (auto simp: ready_member_def reported_def)
qed

section \<open>Properties\<close>

text \<open>
  C2. A turn of a loop serves every connection that is ready, and no other. When \<open>poll\<close> behaves as
  documented and reports traffic (no hang-up, no error, reads that give bytes, writes that take some), the turn
  returns, so that no assertion fails and no pointer dangles although the handlers change the poller under
  the ones that follow: each ready connection has the bytes read for it behind its input, and the
  bytes that were written are gone from its output; every other connection is as it was; and the
  state is again one that steps of the connections reach.
\<close>

theorem turn_serves:
  assumes reach: "reach cl_init (cl_step wc) l" and doc: "poll_doc (pollfds (cl_rx l)) revs" and ok: "turn_ok answers revs l"
  shows "\<exists>l'. conn_turn (quiet_cbs wc) answers t (PollReady revs) l = Inr l' \<and> reach cl_init (cl_step wc) l' \<and>
    (\<forall>ref m. members l ref = Some m \<longrightarrow> (\<exists>m'. members l' ref = Some m' \<and> (case poll_event l revs ref of
        None \<Rightarrow> m' = m
      | Some rv \<Rightarrow> contents (inbuf (m_conn m')) = contents (inbuf (m_conn m)) @ got (answers ref) rv \<and>
          contents (outbuf (m_conn m')) = drop (gone (answers ref) rv) (contents (outbuf (m_conn m))) \<and> m_handed m' = m_handed m)))"
proof -
  have inv: "cl_inv l" by (rule cls.reach_inv [OF reach])
  then have ri: "reactor_inv (cl_rx l)" by (simp add: cl_inv_def)
  from Poller_poll_ok [OF ri doc] obtain r active where op: "Poller_poll (PollReady revs) [] (cl_rx l) = Inr (r, active)" by blast
  let ?l1 = "l\<lparr>cl_rx := r\<rparr>"
  have s1: "cl_step wc l ?l1" by (rule cl_poll [OF doc op])
  have act: "active = map (channel_at (cl_rx l)) (ready (cl_rx l) revs)"
    and mem: "\<And>ref. ref \<in> set active \<Longrightarrow> ready_member answers ?l1 ref \<and> poll_event l revs ref = Some (reported ?l1 ref)"
    using turn_members [OF inv doc ok op] by blast+
  have "distinct active" using ready_distinct [OF ri doc] by (simp add: act)
  from turn_loop [OF cl_step_inv [OF inv s1] this, of answers wc t] mem obtain l' where
    l': "rfold (member_handleEvent (quiet_cbs wc) answers t) active ?l1 = Inr l'" "(cl_step wc)\<^sup>*\<^sup>* ?l1 l'"
      "\<And>ref m. members ?l1 ref = Some m \<Longrightarrow> \<exists>m'. members l' ref = Some m' \<and>
        (if ref \<in> set active then served (answers ref) (reported ?l1 ref) m m' else m' = m)" by auto
  have "conn_turn (quiet_cbs wc) answers t (PollReady revs) l = Inr l'" by (simp add: conn_turn_def op l'(1))
  moreover from l'(2) have "reach cl_init (cl_step wc) l'"
    by (induction rule: rtranclp_induct) (auto intro: reach_step reach s1)
  moreover have "\<exists>m'. members l' ref = Some m' \<and> (case poll_event l revs ref of None \<Rightarrow> m' = m
      | Some rv \<Rightarrow> contents (inbuf (m_conn m')) = contents (inbuf (m_conn m)) @ got (answers ref) rv \<and>
          contents (outbuf (m_conn m')) = drop (gone (answers ref) rv) (contents (outbuf (m_conn m))) \<and> m_handed m' = m_handed m)"
    if "members l ref = Some m" for ref m
  proof (cases "ref \<in> set active")
    case True
    with l'(3) [of ref m] that mem [OF True] show ?thesis by (auto simp: served_def)
  next
    case False
    then have "poll_event l revs ref = None" by (intro poll_event_None) (simp add: act)
    with False l'(3) [of ref m] that show ?thesis by auto
  qed
  ultimately show ?thesis by blast
qed

theorem turn_serves_witness:
  "\<exists>l l' m m'. reach cl_init (cl_step False) l \<and> members l 0 = Some m \<and>
     conn_turn (quiet_cbs False) (\<lambda>_. \<lparr>in_read = ReadBytes [7, 8], in_write = Ret 0, in_error = Ret 0\<rparr>) (Timestamp 1) (PollReady [1]) l = Inr l' \<and>
     members l' 0 = Some m' \<and> contents (inbuf (m_conn m')) = contents (inbuf (m_conn m)) @ [7, 8]"
proof -
  let ?os = "\<lparr>in_read = ReadBytes [7, 8], in_write = Ret 0, in_error = Ret 0\<rparr>"
  obtain l m where l: "reach cl_init (cl_step False) l" "members l 0 = Some m" "up (m_conn m)" "room (inbuf (m_conn m)) 5"
    "pollfds (cl_rx l) = [\<lparr>pfd_fd = 5, pfd_events = 3, pfd_revents = 0\<rparr>]" "channel_map (cl_rx l) = [5 \<mapsto> 0]"
    "\<And>c. chans (cl_rx l) 0 = Some c \<Longrightarrow> \<not> isNoneEvent c" by (rule sample_loop) blast
  have doc: "poll_doc (pollfds (cl_rx l)) [1]" by (simp add: l(5) poll_doc_def)
  have ev: "poll_event l [1] = (\<lambda>ref. if ref = 0 then Some POLLIN else None)"
    by (rule ext) (simp add: poll_event_def ready_def channel_at_def l(5,6) short_pos_def)
  have bits: "read_test POLLIN" "\<not> write_test POLLIN" "\<not> close_test POLLIN" "\<not> error_test POLLIN"
    by (simp_all add: read_test_def write_test_def close_test_def error_test_def has_bits_def)
  have "room (inbuf (m_conn m)) (length [7, 8 :: byte])" using room_less [OF l(4), of 2] by (simp add: numeral_2_eq_2)
  then have "turn_ok (\<lambda>_. ?os) [1] l" using l(2,3,7) bits by (auto simp: turn_ok_def ev traffic_def)
  from turn_serves [OF l(1) doc this, of "Timestamp 1"] obtain l' m' where
    "conn_turn (quiet_cbs False) (\<lambda>_. ?os) (Timestamp 1) (PollReady [1]) l = Inr l'" "members l' 0 = Some m'"
    "contents (inbuf (m_conn m')) = contents (inbuf (m_conn m)) @ got ?os POLLIN"
    using l(2) by (fastforce simp: ev)
  with l(1,2) bits show ?thesis by (auto simp: got_def)
qed

end
