(* ===== verification/Tcp_Stream.thy ===== *)
theory Tcp_Stream
  imports Conn_Frame "HOL-Library.Sublist"
begin

text \<open>
  Two TcpConnections at the two ends of a TCP connection (src/net/TcpConnection.cpp with Buffer.cpp):
  what the user of one end sends is what the user of the other end finds in its input buffer.

  The kernels and the network are the two streams of bytes that TCP documents: what a side has
  written and the other has not read yet is in \<open>wire\<close>, in order. A read returns bytes from its front,
  no more than the two areas handed to readv can take;
  it returns 0 when there are none and the writer has shut its side down, after which its writes
  fail. The histories \<open>accepted\<close> and \<open>taken\<close> are what the connection has been handed and what the
  user has taken out of the input buffer.
\<close>

section \<open>State and steps\<close>

datatype side = SideA | SideB

fun other :: "side \<Rightarrow> side" where
  "other SideA = SideB"
| "other SideB = SideA"

record network =
  ends :: "side \<Rightarrow> conn_world"
  wire :: "side \<Rightarrow> byte list"
  at_end :: "side \<Rightarrow> bool"
  accepted :: "side \<Rightarrow> byte list"
  taken :: "side \<Rightarrow> byte list"

definition fresh_bytes :: "conn_world \<Rightarrow> conn_world \<Rightarrow> byte list" where
  "fresh_bytes w w' = drop (length (written w)) (written w')"

definition write_shut :: "conn_world \<Rightarrow> bool" where
  "write_shut w \<longleftrightarrow> Sys (SysShutdownWr (conn_fd w)) \<in> set (io w)"

text \<open>What the kernels document about the answers that an operation at the side \<open>s\<close> gets.\<close>

definition net_doc :: "side \<Rightarrow> conn_op \<Rightarrow> network \<Rightarrow> bool" where
  "net_doc s op n \<longleftrightarrow> op_doc op (ends n s) \<and> prefix (read_bytes op) (wire n (other s)) \<and>
     length (read_bytes op) \<le> unat (writableBytes (inbuf (conn (ends n s)))) + kExtraBuf \<and>
     (reads_end op \<longrightarrow> wire n (other s) = [] \<and> write_shut (ends n (other s))) \<and>
     (write_shut (ends n s) \<longrightarrow> write_fails op)"

definition net_after :: "side \<Rightarrow> conn_op \<Rightarrow> conn_world \<Rightarrow> network \<Rightarrow> network" where
  "net_after s op w' n = n\<lparr>ends := (ends n)(s := w'),
     wire := (wire n)(s := wire n s @ fresh_bytes (ends n s) w',
                      other s := drop (length (read_bytes op)) (wire n (other s))),
     at_end := (at_end n)(s := at_end n s \<or> reads_end op),
     accepted := (accepted n)(s := accepted n s @ handed op (ends n s)),
     taken := (taken n)(s := taken n s @ taken_bytes op (ends n s))\<rparr>"

inductive net_step :: "bool \<Rightarrow> network \<Rightarrow> network \<Rightarrow> bool" for wc :: bool where
  net_do: "net_doc s op n \<Longrightarrow> conn_do wc op (ends n s) = Inr w' \<Longrightarrow> net_step wc n (net_after s op w' n)"

definition net_init :: "network \<Rightarrow> bool" where
  "net_init n \<longleftrightarrow> (\<forall>s. (\<exists>name fd la pa ref r. TcpConnection_new name fd la pa ref r = Inr (ends n s) \<and> reactor_inv r \<and>
     chans r ref = None \<and> 0 \<le> fd) \<and> wire n s = [] \<and> \<not> at_end n s \<and> accepted n s = [] \<and> taken n s = [])"

lemma other_simps [simp]: "other (other s) = s" "other s \<noteq> s" "s \<noteq> other s"
  by (cases s; simp)+

lemma side_cases: "t = s \<or> t = other s"
  by (cases s; cases t; simp)

section \<open>The streams of a network\<close>

text \<open>
  For each side: what it was handed is written or still in its output buffer; what it has written
  has been taken, is in the other side's input buffer, or is on its way; and a side that has seen
  the end has no more to come.
\<close>

definition side_inv :: "side \<Rightarrow> network \<Rightarrow> bool" where
  "side_inv s n \<longleftrightarrow> conn_inv (ends n s) \<and> stream (ends n s) = accepted n s \<and>
     written (ends n s) = taken n (other s) @ contents (inbuf (conn (ends n (other s)))) @ wire n s \<and>
     (at_end n (other s) \<longrightarrow> wire n s = [] \<and> write_shut (ends n s))"

definition net_inv :: "network \<Rightarrow> bool" where
  "net_inv n \<longleftrightarrow> (\<forall>s. side_inv s n)"

lemma written_extends: "\<exists>es. io w' = io w @ es \<Longrightarrow> written w' = written w @ fresh_bytes w w'"
  by (auto simp: written_def fresh_bytes_def)

lemma net_init_inv: "net_init n \<Longrightarrow> net_inv n"
  unfolding net_inv_def
proof
  fix s assume init: "net_init n"
  have start: "conn_inv (ends n t) \<and> stream (ends n t) = [] \<and> io (ends n t) = [] \<and> contents (inbuf (conn (ends n t))) = []" for t
  proof -
    from init obtain name fd la pa ref r where
      new: "TcpConnection_new name fd la pa ref r = Inr (ends n t)" "reactor_inv r" "chans r ref = None" "0 \<le> fd"
      unfolding net_init_def by blast
    obtain b where b: "Buffer_new = Inr b" "contents b = []" using Buffer_new_ok by blast
    from new(1) [symmetric] b(2) have "contents (inbuf (conn (ends n t))) = []" by (simp add: TcpConnection_new_def b(1))
    with new_conn_ok [OF new(2-4), of name la pa] new(1) show ?thesis by auto
  qed
  with init show "side_inv s n" by (simp add: side_inv_def net_init_def written_def)
qed

lemma net_do_inv:
  assumes inv: "net_inv n" and doc: "net_doc s op n" and op: "conn_do wc op (ends n s) = Inr w'"
  shows "net_inv (net_after s op w' n)"
proof -
  let ?w = "ends n s" and ?n = "net_after s op w' n" and ?o = "other s"
  from inv have a: "side_inv s n" and b: "side_inv ?o n" by (simp_all add: net_inv_def)
  from doc have d: "op_doc op ?w" "prefix (read_bytes op) (wire n ?o)" "reads_end op \<longrightarrow> wire n ?o = [] \<and> write_shut (ends n ?o)"
    "write_shut ?w \<longrightarrow> write_fails op" by (simp_all add: net_doc_def)
  from a have ci: "conn_inv ?w" by (simp add: side_inv_def)
  from conn_do_ok [OF ci d(1) op] have ok: "conn_inv w'" "stream w' = accepted n s @ handed op ?w" "same_conn ?w w'"
    using a by (simp_all add: side_inv_def)
  from conn_do_effect [OF ci d(1) op] have eff: "\<exists>es. io w' = io ?w @ es"
    "taken_bytes op ?w @ contents (inbuf (conn w')) = contents (inbuf (conn ?w)) @ read_bytes op" by blast+
  have shut: "write_shut w' \<and> fresh_bytes ?w w' = []" if "write_shut ?w"
    using eff(1) ok(3) that conn_do_no_write [OF ci d(1) op] d(4)
    by (auto simp: write_shut_def same_conn_def conn_fd_def fresh_bytes_def)
  from d(2) obtain rest where rest: "wire n ?o = read_bytes op @ rest" by (auto simp: prefix_def)
  have "side_inv s ?n"
    unfolding side_inv_def
  proof (intro conjI impI)
    show "conn_inv (ends ?n s)" "stream (ends ?n s) = accepted ?n s" using ok(1,2) by (simp_all add: net_after_def)
    show "written (ends ?n s) = taken ?n ?o @ contents (inbuf (conn (ends ?n ?o))) @ wire ?n s"
      using a written_extends [OF eff(1)] by (simp add: side_inv_def net_after_def)
    assume "at_end ?n ?o"
    then have "at_end n ?o" by (simp add: net_after_def)
    with a have "wire n s = []" "write_shut ?w" by (simp_all add: side_inv_def)
    with shut show "wire ?n s = []" "write_shut (ends ?n s)" by (simp_all add: net_after_def)
  qed
  moreover have "side_inv ?o ?n"
    unfolding side_inv_def
  proof (intro conjI impI)
    show "conn_inv (ends ?n ?o)" "stream (ends ?n ?o) = accepted ?n ?o" using b by (simp_all add: net_after_def side_inv_def)
    have "written (ends n ?o) = taken n s @ contents (inbuf (conn ?w)) @ wire n ?o" using b by (simp add: side_inv_def)
    also have "\<dots> = (taken n s @ taken_bytes op ?w) @ contents (inbuf (conn w')) @ rest"
      using rest eff(2) by (metis append.assoc)
    finally show "written (ends ?n ?o) = taken ?n (other ?o) @ contents (inbuf (conn (ends ?n (other ?o)))) @ wire ?n ?o"
      by (simp add: net_after_def rest)
    assume "at_end ?n (other ?o)"
    then have "at_end n s \<or> reads_end op" by (simp add: net_after_def)
    with b d(3) have "wire n ?o = []" "write_shut (ends n ?o)" by (auto simp: side_inv_def)
    then show "wire ?n ?o = []" "write_shut (ends ?n ?o)" by (simp_all add: net_after_def)
  qed
  ultimately show ?thesis unfolding net_inv_def using side_cases by metis
qed

lemma net_step_inv: "net_inv n \<Longrightarrow> net_step wc n n' \<Longrightarrow> net_inv n'"
  by (auto elim!: net_step.cases intro: net_do_inv)

interpretation net: invariant_system net_init "net_step wc" net_inv for wc
  by unfold_locales (auto intro: net_init_inv net_step_inv)

section \<open>Delivery\<close>

text \<open>The user takes all the input of a side.\<close>

lemma net_take_all:
  assumes inv: "net_inv n"
  shows "\<exists>n'. net_step wc n n' \<and> wire n' = wire n \<and> accepted n' = accepted n \<and> ends n' (other t) = ends n (other t) \<and>
    contents (inbuf (conn (ends n' t))) = [] \<and> writerIndex (inbuf (conn (ends n' t))) = 8"
proof -
  let ?w = "ends n t"
  let ?w' = "set_inbuf (retrieveAll (inbuf (conn ?w))) ?w"
  from inv have b: "buf_inv (inbuf (conn ?w))" by (simp add: net_inv_def side_inv_def conn_inv_def)
  have op: "conn_do wc OpTakeAll ?w = Inr ?w'" by (simp add: conn_do_def retrieveAsString_ok [OF b])
  have doc: "net_doc t OpTakeAll n" by (simp add: net_doc_def op_doc_def read_bytes_def reads_end_def write_fails_def)
  have "fresh_bytes ?w ?w' = []" by (simp add: fresh_bytes_def conn_simps)
  then have "wire (net_after t OpTakeAll ?w' n) = wire n" "accepted (net_after t OpTakeAll ?w' n) = accepted n"
    by (auto simp: net_after_def read_bytes_def handed_def)
  with net_do [OF doc op] retrieveAll_ok [OF b] show ?thesis
    by (intro exI [of _ "net_after t OpTakeAll ?w' n"]) (simp add: net_after_def conn_simps retrieveAll_def kCheapPrepend_def)
qed

text \<open>A side reads the first bytes of the wire, into an empty buffer.\<close>

lemma net_read:
  assumes inv: "net_inv n" and fresh: "writerIndex (inbuf (conn (ends n (other s)))) = 8" and wire: "wire n s \<noteq> []"
  shows "\<exists>n'. net_step wc n n' \<and> wire n' s = drop 65536 (wire n s) \<and> accepted n' = accepted n \<and> ends n' s = ends n s"
proof -
  let ?o = "other s" and ?d = "take 65536 (wire n s)"
  let ?w = "ends n ?o"
  let ?op = "OpRead (Timestamp 0) (ReadBytes ?d) (Ret 0)"
  from inv have b: "buf_inv (inbuf (conn ?w))" by (simp add: net_inv_def side_inv_def conn_inv_def)
  have room: "room (inbuf (conn ?w)) (length ?d)" using fresh by (simp add: room_def)
  from readFd_ok [OF b room, of 0] obtain b' where
    b': "readFd (ReadBytes ?d) 0 (inbuf (conn ?w)) = Inr (int (length ?d), 0, b')" by blast
  have ne: "?d \<noteq> []" using wire by simp
  then have op: "conn_do wc ?op ?w = Inr (set_inbuf b' ?w)"
    by (simp add: conn_do_def conn_handleRead_def quiet_on_message Let_def b' del: length_take)
  have doc: "net_doc ?o ?op n"
    using room ne by (simp add: kExtraBuf_def net_doc_def op_doc_def read_bytes_def reads_end_def write_fails_def take_is_prefix)
  have "fresh_bytes ?w (set_inbuf b' ?w) = []" by (simp add: fresh_bytes_def conn_simps)
  moreover have "drop (length ?d) (wire n s) = drop 65536 (wire n s)" by (cases "length (wire n s) \<le> 65536") simp_all
  ultimately show ?thesis using net_do [OF doc op]
    by (intro exI [of _ "net_after ?o ?op (set_inbuf b' ?w) n"]) (auto simp: net_after_def read_bytes_def handed_def)
qed

lemma net_pull:
  assumes "net_inv n"
  shows "\<exists>n'. (net_step wc)\<^sup>*\<^sup>* n n' \<and> wire n' s = [] \<and> accepted n' s = accepted n s \<and> ends n' s = ends n s \<and>
    contents (inbuf (conn (ends n' (other s)))) = []"
  using assms
proof (induction "length (wire n s)" arbitrary: n rule: less_induct)
  case less
  from net_take_all [OF less.prems, of wc "other s"] obtain m where
    m: "net_step wc n m" "wire m = wire n" "accepted m = accepted n" "ends m s = ends n s"
      "contents (inbuf (conn (ends m (other s)))) = []" "writerIndex (inbuf (conn (ends m (other s)))) = 8" by auto
  show ?case
  proof (cases "wire n s = []")
    case True
    with m show ?thesis by (intro exI [of _ m]) auto
  next
    case False
    from net_read [OF net_step_inv [OF less.prems m(1)] m(6), of wc] False m(2) obtain k where
      k: "net_step wc m k" "wire k s = drop 65536 (wire n s)" "accepted k = accepted m" "ends k s = ends m s" by auto
    have "length (wire k s) < length (wire n s)" using False k(2) by simp
    from less.hyps [OF this net_step_inv [OF net_step_inv [OF less.prems m(1)] k(1)]] obtain n' where
      "(net_step wc)\<^sup>*\<^sup>* k n'" "wire n' s = []" "accepted n' s = accepted k s" "ends n' s = ends k s"
      "contents (inbuf (conn (ends n' (other s)))) = []" by blast
    with m k show ?thesis by (intro exI [of _ n']) (auto intro: converse_rtranclp_into_rtranclp)
  qed
qed

text \<open>A side whose channel is enabled writes all its output.\<close>

lemma net_flush:
  assumes inv: "net_inv n" and up: "cstate (conn (ends n s)) \<in> {Connected, Disconnecting}"
    and c: "chans (rx (ends n s)) (cref (conn (ends n s))) = Some c" "\<not> isNoneEvent c" and open_end: "\<not> write_shut (ends n s)"
  shows "\<exists>n'. (net_step wc)\<^sup>*\<^sup>* n n' \<and> accepted n' s = accepted n s \<and> contents (outbuf (conn (ends n' s))) = []"
proof (cases "contents (outbuf (conn (ends n s))) = []")
  case True
  then show ?thesis by blast
next
  case False
  let ?w = "ends n s"
  let ?k = "length (contents (outbuf (conn ?w)))"
  from inv have ci: "conn_inv ?w" by (simp add: net_inv_def side_inv_def)
  with c False have "isWriting c" by (auto simp: conn_inv_def chan_agrees_def)
  from handleWrite_io [OF ci up refl c(1) this, of ?k "quiet_cbs wc"] False obtain w' where
    w': "conn_handleWrite (quiet_cbs wc) (loop_tid (rx ?w)) (Ret ?k) ?w = Inr w'"
      "written w' = written ?w @ contents (outbuf (conn ?w))"
    by (auto simp: written_def split: if_splits)
  from handleWrite_doc [OF ci _ w'(1)] have "stream w' = stream ?w" by (simp add: write_doc_def)
  with w'(2) have "contents (outbuf (conn w')) = []" by (simp add: stream_def)
  moreover have "conn_do wc (OpWrite (Ret ?k)) ?w = Inr w'" using w'(1) by (simp add: conn_do_def)
  moreover have "net_doc s (OpWrite (Ret ?k)) n"
    using open_end by (simp add: net_doc_def op_doc_def read_bytes_def reads_end_def write_doc_def)
  ultimately show ?thesis using net_do [of s "OpWrite (Ret ?k)" n wc w']
    by (intro exI [of _ "net_after s (OpWrite (Ret ?k)) w' n"]) (auto simp: net_after_def handed_def)
qed

section \<open>Properties\<close>

text \<open>Side A has been established and has sent three bytes, which the kernel did not take at once, for the examples.\<close>

lemma sample_net:
  obtains n c where "reach net_init (net_step False) n" "accepted n SideA = [1, 2, 3]" "cstate (conn (ends n SideA)) = Connected"
    "chans (rx (ends n SideA)) (cref (conn (ends n SideA))) = Some c" "\<not> isNoneEvent c" "\<not> write_shut (ends n SideA)"
proof -
  obtain w0 w :: conn_world and c where w: "TcpConnection_new ''c'' 5 zero_addr zero_addr 0 (Poller_new 1) = Inr w0"
    "loop_tid (rx w0) = 1" "connectEstablished (quiet_cbs False) 1 w0 = Inr w" "conn_inv w" "cstate (conn w) = Connected"
    "loop_tid (rx w) = 1" "contents (outbuf (conn w)) = []" "chans (rx w) (cref (conn w)) = Some c" "\<not> isNoneEvent c"
    "\<not> isWriting c" "io w = []" "room (outbuf (conn w)) 5"
    by (rule sample_established) blast
  let ?n0 = "\<lparr>ends = (\<lambda>_. w0), wire = (\<lambda>_. []), at_end = (\<lambda>_. False), accepted = (\<lambda>_. []), taken = (\<lambda>_. [])\<rparr>"
  have "reactor_inv (Poller_new 1 :: conn_handler reactor)" "chans (Poller_new 1 :: conn_handler reactor) 0 = None"
    by (simp_all add: Poller_new_inv) (simp add: Poller_new_def)
  with w(1) have "\<exists>name fd la pa ref r. TcpConnection_new name fd la pa ref r = Inr w0 \<and> reactor_inv r \<and> chans r ref = None \<and> 0 \<le> fd"
    by (intro exI [of _ "''c''"] exI [of _ 5] exI [of _ zero_addr] exI [of _ 0] exI [of _ "Poller_new 1"]) simp
  then have "net_init ?n0" by (simp add: net_init_def)
  then have r0: "reach net_init (net_step False) ?n0" by (rule reach_init)
  have op1: "conn_do False OpEstablish (ends ?n0 SideA) = Inr w" using w(2,3) by (simp add: conn_do_def)
  have doc1: "net_doc SideA OpEstablish ?n0" by (simp add: net_doc_def op_doc_def read_bytes_def reads_end_def write_fails_def)
  let ?n1 = "net_after SideA OpEstablish w ?n0"
  from reach_step [OF r0 net_do [OF doc1 op1]] have r1: "reach net_init (net_step False) ?n1" .
  have n1: "ends ?n1 SideA = w" "accepted ?n1 SideA = []" by (simp_all add: net_after_def handed_def)
  let ?op = "OpSend 1 [1, 2, 3] (Err EWOULDBLOCK)"
  have room: "room (outbuf (conn w)) (length [1, 2, 3 :: byte])" using room_less [OF w(12), of 3] by (simp add: numeral_3_eq_3)
  from sendInLoop_total [OF w(4) _ room, of "Err EWOULDBLOCK" 1 "quiet_cbs False"] w(5,6) obtain v where
    v: "sendInLoop (quiet_cbs False) 1 [1, 2, 3] (Err EWOULDBLOCK) w = Inr v" by auto
  then have op2: "conn_do False ?op (ends ?n1 SideA) = Inr v" using n1(1) w(5,6) by (simp add: conn_do_def conn_send_def)
  have "op_doc ?op w" using room by (simp add: op_doc_def write_doc_def)
  then have doc2: "net_doc SideA ?op ?n1"
    by (simp add: net_doc_def n1(1) read_bytes_def reads_end_def write_fails_def)
  let ?n2 = "net_after SideA ?op v ?n1"
  from reach_step [OF r1 net_do [OF doc2 op2]] have r2: "reach net_init (net_step False) ?n2" .
  have b: "buf_inv (outbuf (conn w))" "reactor_inv (rx w)" using w(4) by (simp_all add: conn_inv_def)
  from v obtain u where u: "enableWriting 1 (cref (conn w)) (rx w) = Inr (rx v)" "conn v = (conn w)\<lparr>outbuf := u\<rparr>" "io v = io w"
    by (auto simp: sendInLoop_alt w(6,7,8,10) on_chan_eq direct_write_def readable_zero [OF b(1)] on_poller_def result_simps conn_simps)
  from change_events_chan [OF b(2) w(8) u(1) [unfolded enableWriting_def]] obtain k where
    k: "chans (rx v) (cref (conn w)) = Some (c\<lparr>events := events c OR kWriteEvent, index := k\<rparr>)" by blast
  have "\<not> isNoneEvent (c\<lparr>events := events c OR kWriteEvent, index := k\<rparr>)"
    by (simp add: isNoneEvent_def kNoneEvent_def kWriteEvent_def or_eq_0_iff)
  with r2 k u w(5,6,11) n1 show thesis
    by (intro that [of ?n2 "c\<lparr>events := events c OR kWriteEvent, index := k\<rparr>"]) (simp_all add: net_after_def handed_def write_shut_def)
qed

text \<open>
  C1. From one user to the other, two connections behave as one queue of bytes. In every reachable
  state what one side accepted is, in order and each byte once, what the other side's user has taken,
  then its input buffer, then what is on the way, then the output buffer of the sender: the bytes taken are
  a prefix of the bytes accepted. A side that has read the end of the stream has everything that
  the other side wrote.
\<close>

theorem stream_delivered:
  assumes "reach net_init (net_step wc) n"
  shows "accepted n s = taken n (other s) @ contents (inbuf (conn (ends n (other s)))) @ wire n s @ contents (outbuf (conn (ends n s))) \<and>
    prefix (taken n (other s)) (accepted n s) \<and>
    (at_end n (other s) \<longrightarrow> written (ends n s) = taken n (other s) @ contents (inbuf (conn (ends n (other s)))))"
proof -
  from net.reach_inv [OF assms] have "side_inv s n" by (simp add: net_inv_def)
  then have eq: "written (ends n s) @ contents (outbuf (conn (ends n s))) = accepted n s"
    "written (ends n s) = taken n (other s) @ contents (inbuf (conn (ends n (other s)))) @ wire n s"
    "at_end n (other s) \<longrightarrow> wire n s = []" unfolding side_inv_def stream_def by blast+
  then have all: "accepted n s = taken n (other s) @ contents (inbuf (conn (ends n (other s)))) @ wire n s @ contents (outbuf (conn (ends n s)))"
    by (metis append.assoc)
  then have "prefix (taken n (other s)) (accepted n s)" unfolding prefix_def by blast
  with all eq(2,3) show ?thesis by simp
qed

theorem stream_delivered_witness:
  "\<exists>n. reach net_init (net_step False) n \<and> [1, 2, 3] = taken n SideB @ contents (inbuf (conn (ends n SideB))) @
     wire n SideA @ contents (outbuf (conn (ends n SideA)))"
proof -
  obtain n c where n: "reach net_init (net_step False) n" "accepted n SideA = [1, 2, 3]" by (rule sample_net)
  from stream_delivered [OF n(1), of SideA] n show ?thesis by (intro exI [of _ n]) simp
qed

text \<open>
  C4. Nothing is stuck between two connections. From every reachable state in which the sender is up
  with its channel enabled and has not shut its socket down, one \<open>handleWrite\<close> that the kernel serves in
  full and the \<open>handleRead\<close>s of the other side, each of at most 65536 bytes and followed by
  \<open>retrieveAsString\<close>, all return and bring every byte accepted so far to the other user.
\<close>

theorem stream_drains:
  assumes reach: "reach net_init (net_step wc) n" and up: "cstate (conn (ends n s)) \<in> {Connected, Disconnecting}"
    and c: "chans (rx (ends n s)) (cref (conn (ends n s))) = Some c" "\<not> isNoneEvent c" and open_end: "\<not> write_shut (ends n s)"
  shows "\<exists>n'. (net_step wc)\<^sup>*\<^sup>* n n' \<and> accepted n' s = accepted n s \<and> taken n' (other s) = accepted n s"
proof -
  from net.reach_inv [OF reach] have inv: "net_inv n" .
  from net_flush [OF inv up c open_end, of wc] obtain m where
    m: "(net_step wc)\<^sup>*\<^sup>* n m" "accepted m s = accepted n s" "contents (outbuf (conn (ends m s))) = []" by blast
  from net_pull [OF net.steps_inv [OF m(1) inv], of wc s] obtain n' where
    n': "(net_step wc)\<^sup>*\<^sup>* m n'" "wire n' s = []" "accepted n' s = accepted m s" "ends n' s = ends m s"
      "contents (inbuf (conn (ends n' (other s)))) = []" by blast
  from net.steps_inv [OF n'(1) net.steps_inv [OF m(1) inv]] have "side_inv s n'" by (simp add: net_inv_def)
  then have eq: "stream (ends n' s) = accepted n' s"
    "written (ends n' s) = taken n' (other s) @ contents (inbuf (conn (ends n' (other s)))) @ wire n' s"
    unfolding side_inv_def by blast+
  have "stream (ends n' s) = written (ends n' s)" using n'(4) m(3) by (simp add: stream_def)
  moreover have "written (ends n' s) = taken n' (other s)" using eq(2) n'(2,5) by simp
  ultimately have "taken n' (other s) = accepted n' s" using eq(1) by simp
  with m n' show ?thesis by (intro exI [of _ n']) auto
qed

theorem stream_drains_witness:
  "\<exists>n n'. reach net_init (net_step False) n \<and> (net_step False)\<^sup>*\<^sup>* n n' \<and> taken n' SideB = [1, 2, 3]"
proof -
  obtain n c where n: "reach net_init (net_step False) n" "accepted n SideA = [1, 2, 3]" "cstate (conn (ends n SideA)) = Connected"
    "chans (rx (ends n SideA)) (cref (conn (ends n SideA))) = Some c" "\<not> isNoneEvent c" "\<not> write_shut (ends n SideA)"
    by (rule sample_net)
  from n(3) have "cstate (conn (ends n SideA)) \<in> {Connected, Disconnecting}" by simp
  from stream_drains [OF n(1) this n(4,5,6)] n(2) obtain n' where "(net_step False)\<^sup>*\<^sup>* n n'" "taken n' SideB = [1, 2, 3]" by auto
  with n(1) show ?thesis by blast
qed

end
