(* ===== verification/Connectors.thy ===== *)
theory Connectors
  imports Sockets Pollers Doubles
begin

text \<open>
  Connector (src/net/Connector.h, Connector.cpp) and Acceptor (src/net/Acceptor.h, Acceptor.cpp):
  the two ways a descriptor of a connection comes into being.

  A \<open>cn_world\<close> is the connector, the poller of its loop, the functors it queued, its pending retry
  timers (each with a number, the last one in \<open>cn_timer_id\<close>), the delays it asked for, and the
  descriptors it opened, closed and handed to the new-connection callback. The answers of the
  kernel and the address of a new channel are arguments.
\<close>

section \<open>The connector\<close>

datatype cn_states = CnDisconnected | CnConnecting | CnConnected

datatype cn_handler = CnWrite | CnError

datatype cn_task = CnStart | CnReset

record connector =
  server_addr :: sockaddr_in
  connect_flag :: bool
  cn_state :: cn_states
  cn_chan :: "chref option"
  retry_ms :: int
  cn_timer_id :: "nat option"

record cn_world =
  cn :: connector
  cn_rx :: "cn_handler reactor"
  cn_tasks :: "cn_task list"
  cn_timers :: "nat list"
  cn_next_timer :: nat
  cn_delays :: "double list"
  cn_opened :: "int list"
  cn_closed :: "int list"
  cn_handed :: "int list"

record cn_inputs =
  cn_socket :: "int syscall"
  cn_connect :: "unit syscall"
  cn_ref :: chref

definition kMaxRetryDelayMs :: int where "kMaxRetryDelayMs = 30 * 1000"

definition kInitRetryDelayMs :: int where "kInitRetryDelayMs = 500"

definition Connector_new :: "sockaddr_in \<Rightarrow> connector" where
  "Connector_new addr = \<lparr>server_addr = addr, connect_flag = False, cn_state = CnDisconnected, cn_chan = None,
     retry_ms = kInitRetryDelayMs, cn_timer_id = None\<rparr>"

definition connector_serverAddress :: "connector \<Rightarrow> sockaddr_in" where
  "connector_serverAddress c = server_addr c"

definition cn_set :: "(connector \<Rightarrow> connector) \<Rightarrow> cn_world \<Rightarrow> cn_world" where
  "cn_set f w = w\<lparr>cn := f (cn w)\<rparr>"

definition cn_setState :: "cn_states \<Rightarrow> cn_world \<Rightarrow> cn_world" where
  "cn_setState s = cn_set (\<lambda>k. k\<lparr>cn_state := s\<rparr>)"

definition cn_close :: "int \<Rightarrow> cn_world \<Rightarrow> cn_world" where
  "cn_close fd w = w\<lparr>cn_closed := cn_closed w @ [fd]\<rparr>"

definition cn_assertInLoop :: "tid \<Rightarrow> cn_world \<Rightarrow> 'b result \<Rightarrow> 'b result" where
  "cn_assertInLoop self w k = assertInLoopThread self (cn_rx w) k"

definition cn_poller :: "(cn_handler reactor \<Rightarrow> cn_handler reactor result) \<Rightarrow> cn_world \<Rightarrow> cn_world result" where
  "cn_poller f w = rbind (f (cn_rx w)) (\<lambda>r. Inr (w\<lparr>cn_rx := r\<rparr>))"

text \<open>\<open>loop_->runAfter\<close> with the retry delay, and \<open>loop_->cancel\<close>.\<close>

definition cn_runAfter :: "double \<Rightarrow> cn_world \<Rightarrow> cn_world" where
  "cn_runAfter delay w =
     (cn_set (\<lambda>k. k\<lparr>cn_timer_id := Some (cn_next_timer w)\<rparr>) w)\<lparr>cn_timers := cn_timers w @ [cn_next_timer w],
        cn_next_timer := cn_next_timer w + 1, cn_delays := cn_delays w @ [delay]\<rparr>"

definition cn_cancel :: "cn_world \<Rightarrow> cn_world" where
  "cn_cancel w = (case cn_timer_id (cn w) of None \<Rightarrow> w | Some i \<Rightarrow> w\<lparr>cn_timers := remove1 i (cn_timers w)\<rparr>)"

definition retry :: "int \<Rightarrow> cn_world \<Rightarrow> cn_world" where
  "retry fd w =
     (let w = cn_setState CnDisconnected (cn_close fd w) in
      if connect_flag (cn w)
      then cn_set (\<lambda>k. k\<lparr>retry_ms := min (retry_ms k * 2) kMaxRetryDelayMs\<rparr>)
             (cn_runAfter (ddiv (dof_int (retry_ms (cn w))) (dof_int 1000)) w)
      else w)"

definition connecting :: "tid \<Rightarrow> chref \<Rightarrow> int \<Rightarrow> cn_world \<Rightarrow> cn_world result" where
  "connecting self ref fd w =
     (let w = cn_setState CnConnecting w in
      assertC (cn_chan (cn w) = None)
        (let w = (cn_set (\<lambda>k. k\<lparr>cn_chan := Some ref\<rparr>) w)
               \<lparr>cn_rx := new_chan ref (setErrorCallback CnError (setWriteCallback CnWrite (Channel_new fd))) (cn_rx w)\<rparr>
         in cn_poller (enableWriting self ref) w))"

definition cn_connect_socket :: "tid \<Rightarrow> cn_inputs \<Rightarrow> cn_world \<Rightarrow> cn_world result" where
  "cn_connect_socket self os w =
     rbind (createNonblockingOrDie (cn_socket os)) (\<lambda>fd.
     let w = w\<lparr>cn_opened := cn_opened w @ [fd]\<rparr>;
         ret = sock_connect (cn_connect os);
         savedErrno = (if ret = 0 then 0 else case cn_connect os of Ret _ \<Rightarrow> 0 | Err errno \<Rightarrow> errno)
     in if savedErrno \<in> set [0, EINPROGRESS, EINTR, EISCONN] then connecting self (cn_ref os) fd w
        else if savedErrno \<in> set [EAGAIN, EADDRINUSE, EADDRNOTAVAIL, ECONNREFUSED, ENETUNREACH] then Inr (retry fd w)
        else if savedErrno \<in> set [EACCES, EPERM, EAFNOSUPPORT, EALREADY, EBADF, EFAULT, ENOTSOCK] then Inr (cn_close fd w)
        else Inr (cn_close fd w))"

definition startInLoop :: "tid \<Rightarrow> cn_inputs \<Rightarrow> cn_world \<Rightarrow> cn_world result" where
  "startInLoop self os w = cn_assertInLoop self w
     (assertC (cn_state (cn w) = CnDisconnected)
       (if connect_flag (cn w) then cn_connect_socket self os w else Inr w))"

definition cn_start :: "tid \<Rightarrow> cn_inputs \<Rightarrow> cn_world \<Rightarrow> cn_world result" where
  "cn_start self os w =
     (let w = cn_set (\<lambda>k. k\<lparr>connect_flag := True\<rparr>) w in
      if self = loop_tid (cn_rx w) then startInLoop self os w
      else Inr (w\<lparr>cn_tasks := cn_tasks w @ [CnStart]\<rparr>))"

definition cn_restart :: "tid \<Rightarrow> cn_inputs \<Rightarrow> cn_world \<Rightarrow> cn_world result" where
  "cn_restart self os w = cn_assertInLoop self w
     (startInLoop self os
       (cn_set (\<lambda>k. k\<lparr>retry_ms := kInitRetryDelayMs, connect_flag := True\<rparr>) (cn_setState CnDisconnected w)))"

definition cn_stop :: "cn_world \<Rightarrow> cn_world" where
  "cn_stop w = cn_cancel (cn_set (\<lambda>k. k\<lparr>connect_flag := False\<rparr>) w)"

definition Connector_dtor :: "cn_world \<Rightarrow> cn_world" where
  "Connector_dtor w = cn_cancel w"

definition removeAndResetChannel :: "tid \<Rightarrow> cn_world \<Rightarrow> (int \<times> cn_world) result" where
  "removeAndResetChannel self w =
     (case cn_chan (cn w) of
        None \<Rightarrow> Inl NullDeref
      | Some ref \<Rightarrow>
          rbind (cn_poller (disableAll self ref) w) (\<lambda>w.
          rbind (cn_poller (removeChannel self ref) w) (\<lambda>w.
          deref ref (\<lambda>c. Inr (chan_fd c, w\<lparr>cn_tasks := cn_tasks w @ [CnReset]\<rparr>)) (cn_rx w))))"

definition resetChannel :: "cn_world \<Rightarrow> cn_world result" where
  "resetChannel w =
     (case cn_chan (cn w) of
        None \<Rightarrow> Inr w
      | Some ref \<Rightarrow> rbind (cn_poller (delete_chan ref) w) (\<lambda>w. Inr (cn_set (\<lambda>k. k\<lparr>cn_chan := None\<rparr>) w)))"

record cn_answers =
  cn_so_error :: "int syscall"
  cn_local :: "sockaddr_in syscall"
  cn_peer :: "sockaddr_in syscall"

definition cn_handleWrite ::
  "(int \<Rightarrow> cn_world \<Rightarrow> cn_world result) option \<Rightarrow> tid \<Rightarrow> cn_answers \<Rightarrow> cn_world \<Rightarrow> cn_world result" where
  "cn_handleWrite new_cb self ans w =
     (if cn_state (cn w) = CnConnecting
      then rbind (removeAndResetChannel self w) (\<lambda>(fd, w).
           let err = getSocketError (cn_so_error ans) in
           if err \<noteq> 0 then Inr (retry fd w)
           else if isSelfConnect (cn_local ans) (cn_peer ans) then Inr (retry fd w)
           else (let w = cn_setState CnConnected w in
                 if connect_flag (cn w)
                 then (case new_cb of None \<Rightarrow> Inl BadCall | Some f \<Rightarrow> f fd (w\<lparr>cn_handed := cn_handed w @ [fd]\<rparr>))
                 else Inr (cn_close fd w)))
      else assertC (cn_state (cn w) = CnDisconnected) (Inr w))"

definition cn_handleError :: "tid \<Rightarrow> cn_world \<Rightarrow> cn_world result" where
  "cn_handleError self w =
     assertC (cn_state (cn w) = CnConnecting)
       (rbind (removeAndResetChannel self w) (\<lambda>(fd, w). Inr (retry fd w)))"

section \<open>The acceptor\<close>

datatype acc_handler = AccRead

record acceptor =
  acc_socket :: socket
  acc_ref :: chref
  listenning :: bool
  acc_rx :: "acc_handler reactor"
  acc_io :: "sys_event list"
  acc_handed :: "(int \<times> sockaddr_in) list"

definition Acceptor_new ::
  "int syscall \<Rightarrow> int syscall \<Rightarrow> sockaddr_in \<Rightarrow> chref \<Rightarrow> acc_handler reactor \<Rightarrow> acceptor result" where
  "Acceptor_new so bound listenAddr ref r =
     rbind (createNonblockingOrDie so) (\<lambda>fd.
     let s = Socket_new fd; reuse = setReuseAddr s False in
     rbind (bindAddress s listenAddr bound) (\<lambda>es.
     Inr \<lparr>acc_socket = s, acc_ref = ref, listenning = False,
          acc_rx = new_chan ref (setReadCallback AccRead (Channel_new fd)) r,
          acc_io = reuse @ es, acc_handed = []\<rparr>))"

text \<open>The members of an Acceptor in reverse order: its channel, then its socket.\<close>

definition Acceptor_dtor :: "acceptor \<Rightarrow> acceptor result" where
  "Acceptor_dtor a = rbind (delete_chan (acc_ref a) (acc_rx a)) (\<lambda>r.
     Inr (a\<lparr>acc_rx := r, acc_io := acc_io a @ Socket_dtor (acc_socket a)\<rparr>))"

definition acc_assertInLoop :: "tid \<Rightarrow> acceptor \<Rightarrow> 'b result \<Rightarrow> 'b result" where
  "acc_assertInLoop self a k = assertInLoopThread self (acc_rx a) k"

definition acc_listen :: "tid \<Rightarrow> int syscall \<Rightarrow> acceptor \<Rightarrow> acceptor result" where
  "acc_listen self lr a = acc_assertInLoop self a
     (let a = a\<lparr>listenning := True\<rparr> in
      rbind (Socket_listen (acc_socket a) lr) (\<lambda>es.
      let a = a\<lparr>acc_io := acc_io a @ es\<rparr> in
      rbind (enableReading self (acc_ref a) (acc_rx a)) (\<lambda>r. Inr (a\<lparr>acc_rx := r\<rparr>))))"

definition acc_handleRead ::
  "tid \<Rightarrow> bool \<Rightarrow> (int \<times> sockaddr_in) syscall \<Rightarrow> (int \<Rightarrow> sockaddr_in \<Rightarrow> acceptor \<Rightarrow> acceptor result) option \<Rightarrow>
   acceptor \<Rightarrow> acceptor result" where
  "acc_handleRead self le ar new_cb a = acc_assertInLoop self a
     (let peerAddr = InetAddress_port le 0 in
      rbind (Socket_accept ar peerAddr) (\<lambda>(connfd, peerAddr).
      if 0 \<le> connfd
      then (case new_cb of
              Some f \<Rightarrow> f connfd peerAddr (a\<lparr>acc_handed := acc_handed a @ [(connfd, peerAddr)]\<rparr>)
            | None \<Rightarrow> Inr (a\<lparr>acc_io := acc_io a @ sock_close connfd\<rparr>))
      else Inr a))"

section \<open>Runs of a connector\<close>

text \<open>
  The calls of its user, the functors of the loop in their order, its timers, and the events of
  its channel. \<open>restart\<close> is called by TcpClient when an established connection has gone.
\<close>

datatype cn_op =
    CnOpStart tid cn_inputs
  | CnOpRestart cn_inputs
  | CnOpStop
  | CnOpTask cn_inputs
  | CnOpTimer nat cn_inputs
  | CnOpWrite cn_answers
  | CnOpError

definition cn_do :: "cn_op \<Rightarrow> cn_world \<Rightarrow> cn_world result" where
  "cn_do op w = (let self = loop_tid (cn_rx w) in
     case op of
       CnOpStart t os \<Rightarrow> cn_start t os w
     | CnOpRestart os \<Rightarrow> cn_restart self os w
     | CnOpStop \<Rightarrow> Inr (cn_stop w)
     | CnOpTask os \<Rightarrow> (case cn_tasks w of
           [] \<Rightarrow> Inr w
         | CnStart # ts \<Rightarrow> startInLoop self os (w\<lparr>cn_tasks := ts\<rparr>)
         | CnReset # ts \<Rightarrow> resetChannel (w\<lparr>cn_tasks := ts\<rparr>))
     | CnOpTimer i os \<Rightarrow> (if i \<in> set (cn_timers w)
         then startInLoop self os (w\<lparr>cn_timers := remove1 i (cn_timers w)\<rparr>) else Inr w)
     | CnOpWrite ans \<Rightarrow> cn_handleWrite (Some (\<lambda>_. Inr)) self ans w
     | CnOpError \<Rightarrow> cn_handleError self w)"

text \<open>A new channel is at a free address, a new descriptor is not negative.\<close>

definition cn_inputs_doc :: "cn_inputs \<Rightarrow> cn_world \<Rightarrow> bool" where
  "cn_inputs_doc os w \<longleftrightarrow> chans (cn_rx w) (cn_ref os) = None \<and>
     (case cn_socket os of Ret fd \<Rightarrow> 0 \<le> fd | Err _ \<Rightarrow> True)"

definition cn_op_doc :: "cn_op \<Rightarrow> cn_world \<Rightarrow> bool" where
  "cn_op_doc op w = (case op of
       CnOpStart _ os \<Rightarrow> cn_inputs_doc os w
     | CnOpRestart os \<Rightarrow> cn_state (cn w) = CnConnected \<and> cn_inputs_doc os w
     | CnOpTask os \<Rightarrow> cn_inputs_doc os w
     | CnOpTimer _ os \<Rightarrow> cn_inputs_doc os w
     | _ \<Rightarrow> True)"

definition cn_step :: "cn_world \<Rightarrow> cn_world \<Rightarrow> bool" where
  "cn_step w w' \<longleftrightarrow> (\<exists>op. cn_op_doc op w \<and> cn_do op w = Inr w')"

definition cn_init :: "cn_world \<Rightarrow> bool" where
  "cn_init w \<longleftrightarrow> (\<exists>addr. cn w = Connector_new addr) \<and> reactor_inv (cn_rx w) \<and> cn_tasks w = [] \<and> cn_timers w = [] \<and>
     cn_delays w = [] \<and> cn_opened w = [] \<and> cn_closed w = [] \<and> cn_handed w = []"

section \<open>Invariant\<close>

text \<open>
  While connecting, the one open descriptor is that of the registered channel; otherwise every
  descriptor has been closed or handed over, and a channel that is still there is registered
  nowhere and waits for \<open>resetChannel\<close>.
\<close>

definition cn_idle :: "cn_world \<Rightarrow> bool" where
  "cn_idle w \<longleftrightarrow> (case cn_chan (cn w) of
       None \<Rightarrow> CnReset \<notin> set (cn_tasks w)
     | Some ref \<Rightarrow> chans (cn_rx w) ref \<noteq> None \<and> ref \<notin> ran (channel_map (cn_rx w)) \<and> count_list (cn_tasks w) CnReset \<le> 1)"

definition cn_busy :: "int \<Rightarrow> cn_world \<Rightarrow> bool" where
  "cn_busy fd w \<longleftrightarrow> (\<exists>ref c. cn_chan (cn w) = Some ref \<and> chans (cn_rx w) ref = Some c \<and> chan_fd c = fd \<and>
     channel_map (cn_rx w) fd = Some ref \<and> events c = kWriteEvent \<and> CnReset \<notin> set (cn_tasks w))"

definition cn_inv :: "cn_world \<Rightarrow> bool" where
  "cn_inv w \<longleftrightarrow> reactor_inv (cn_rx w) \<and>
     (if cn_state (cn w) = CnConnecting
      then (\<exists>fd. cn_busy fd w \<and> mset (cn_opened w) = add_mset fd (mset (cn_closed w) + mset (cn_handed w)))
      else cn_idle w \<and> mset (cn_opened w) = mset (cn_closed w) + mset (cn_handed w))"

named_theorems cn_simps

lemma cn_frames [cn_simps]:
  "cn (cn_set f w) = f (cn w)" "cn_rx (cn_set f w) = cn_rx w" "cn_tasks (cn_set f w) = cn_tasks w"
  "cn_opened (cn_set f w) = cn_opened w" "cn_closed (cn_set f w) = cn_closed w" "cn_handed (cn_set f w) = cn_handed w"
  "cn (cn_close fd w) = cn w" "cn_rx (cn_close fd w) = cn_rx w" "cn_tasks (cn_close fd w) = cn_tasks w"
  "cn_opened (cn_close fd w) = cn_opened w" "cn_closed (cn_close fd w) = cn_closed w @ [fd]" "cn_handed (cn_close fd w) = cn_handed w"
  "cn_timers (cn_set f w) = cn_timers w" "cn_next_timer (cn_set f w) = cn_next_timer w" "cn_delays (cn_set f w) = cn_delays w"
  "cn_timers (cn_close fd w) = cn_timers w" "cn_next_timer (cn_close fd w) = cn_next_timer w" "cn_delays (cn_close fd w) = cn_delays w"
  by (simp_all add: cn_set_def cn_close_def)

lemma cn_cancel_frames [cn_simps]:
  "cn (cn_cancel w) = cn w" "cn_rx (cn_cancel w) = cn_rx w" "cn_tasks (cn_cancel w) = cn_tasks w"
  "cn_opened (cn_cancel w) = cn_opened w" "cn_closed (cn_cancel w) = cn_closed w" "cn_handed (cn_cancel w) = cn_handed w"
  by (auto simp: cn_cancel_def split: option.splits)

lemma retry_frames [cn_simps]:
  "cn_state (cn (retry fd w)) = CnDisconnected" "cn_chan (cn (retry fd w)) = cn_chan (cn w)" "cn_rx (retry fd w) = cn_rx w"
  "cn_tasks (retry fd w) = cn_tasks w" "cn_opened (retry fd w) = cn_opened w" "cn_closed (retry fd w) = cn_closed w @ [fd]"
  "cn_handed (retry fd w) = cn_handed w" "connect_flag (cn (retry fd w)) = connect_flag (cn w)"
  by (auto simp: retry_def Let_def cn_setState_def cn_runAfter_def cn_simps)

lemma cn_idle_cong:
  "cn_chan (cn w') = cn_chan (cn w) \<Longrightarrow> cn_rx w' = cn_rx w \<Longrightarrow> cn_tasks w' = cn_tasks w \<Longrightarrow> cn_idle w' = cn_idle w"
  by (simp add: cn_idle_def split: option.splits)

lemma cn_inv_idleI:
  assumes "reactor_inv (cn_rx w)" "cn_state (cn w) \<noteq> CnConnecting" "cn_idle w"
    "mset (cn_opened w) = mset (cn_closed w) + mset (cn_handed w)"
  shows "cn_inv w"
  using assms by (simp add: cn_inv_def)

lemma connecting_ok:
  assumes inv: "reactor_inv (cn_rx w)" "cn_idle w" and fresh: "chans (cn_rx w) ref = None" "0 \<le> fd"
    and acc: "mset (cn_opened w) = add_mset fd (mset (cn_closed w) + mset (cn_handed w))"
    and op: "connecting self ref fd w = Inr w'"
  shows "cn_inv w' \<and> cn_state (cn w') = CnConnecting"
proof -
  let ?c = "setErrorCallback CnError (setWriteCallback CnWrite (Channel_new fd)) :: cn_handler channel"
  have c: "chan_fd ?c = fd" "events ?c = 0" by (simp_all add: setErrorCallback_def setWriteCallback_def Channel_new_def)
  let ?r = "new_chan ref ?c (cn_rx w)"
  from op obtain r where none: "cn_chan (cn w) = None" and r: "enableWriting self ref ?r = Inr r"
    and w': "w' = (cn_set (\<lambda>k. k\<lparr>cn_chan := Some ref\<rparr>) (cn_setState CnConnecting w))\<lparr>cn_rx := r\<rparr>"
    by (auto simp: connecting_def Let_def cn_poller_def cn_setState_def result_simps cn_simps)
  have inv_r: "reactor_inv ?r" using new_chan_inv [OF inv(1) fresh(1), of ?c] c fresh(2) by simp
  have "chans ?r ref = Some ?c" by (simp add: new_chan_def put_chan_def)
  from change_events_chan [OF inv_r this r [unfolded enableWriting_def]] obtain k where
    k: "reactor_inv r" "channel_map r fd = Some ref" "chans r ref = Some (?c\<lparr>events := kWriteEvent, index := k\<rparr>)"
    by (auto simp: c)
  have "CnReset \<notin> set (cn_tasks w)" using inv(2) none by (simp add: cn_idle_def)
  with k c(1) acc show ?thesis
    by (auto simp: cn_inv_def cn_busy_def w' cn_setState_def cn_simps)
qed

lemma connect_socket_ok:
  assumes inv: "reactor_inv (cn_rx w)" "cn_idle w" and st: "cn_state (cn w) = CnDisconnected"
    and acc: "mset (cn_opened w) = mset (cn_closed w) + mset (cn_handed w)" and doc: "cn_inputs_doc os w"
    and op: "cn_connect_socket self os w = Inr w'"
  shows "cn_inv w'"
proof -
  from op obtain fd where fd: "cn_socket os = Ret fd"
    by (auto simp: cn_connect_socket_def createNonblockingOrDie_def result_simps split: syscall.splits)
  let ?w = "w\<lparr>cn_opened := cn_opened w @ [fd]\<rparr>"
  have idle: "cn_idle ?w" using inv(2) by (simp add: cn_idle_cong [of ?w w])
  have closed: "cn_inv (cn_close fd ?w)" "cn_inv (retry fd ?w)"
    using inv(1) st acc idle cn_idle_cong [of "cn_close fd ?w" ?w] cn_idle_cong [of "retry fd ?w" ?w]
    by (auto intro!: cn_inv_idleI simp: cn_simps)
  have acc1: "mset (cn_opened ?w) = add_mset fd (mset (cn_closed ?w) + mset (cn_handed ?w))" using acc by simp
  have "cn_inv w'" if "connecting self (cn_ref os) fd ?w = Inr w'"
    using connecting_ok [of ?w "cn_ref os" fd self w'] inv(1) idle doc fd acc1 that
    by (simp add: cn_inputs_doc_def)
  with closed op fd show ?thesis
    by (auto simp: cn_connect_socket_def createNonblockingOrDie_def Let_def split: syscall.splits if_splits)
qed

lemma startInLoop_ok:
  assumes inv: "reactor_inv (cn_rx w)" "cn_idle w" and st: "cn_state (cn w) \<noteq> CnConnecting"
    and acc: "mset (cn_opened w) = mset (cn_closed w) + mset (cn_handed w)" and doc: "cn_inputs_doc os w"
    and op: "startInLoop self os w = Inr w'"
  shows "cn_inv w'"
proof -
  from op have "cn_state (cn w) = CnDisconnected"
    and "(if connect_flag (cn w) then cn_connect_socket self os w else Inr w) = Inr w'"
    by (auto simp: startInLoop_def cn_assertInLoop_def assertInLoopThread_def result_simps split: if_splits)
  with connect_socket_ok [OF inv _ acc doc, of self w'] cn_inv_idleI [OF inv(1) st inv(2) acc] show ?thesis
    by (auto split: if_splits)
qed
text \<open>Taking the channel out of the poller when the attempt has ended.\<close>

lemma removeAndReset_eq:
  assumes inv: "reactor_inv (cn_rx w)" "cn_busy fd w" and op: "removeAndResetChannel self w = Inr (fd', w')"
  shows "fd' = fd \<and> reactor_inv (cn_rx w') \<and> cn_idle w' \<and> cn w' = cn w \<and> self = loop_tid (cn_rx w) \<and>
    loop_tid (cn_rx w') = loop_tid (cn_rx w) \<and> cn_opened w' = cn_opened w \<and>
    cn_closed w' = cn_closed w \<and> cn_handed w' = cn_handed w \<and> cn_timers w' = cn_timers w \<and>
    cn_delays w' = cn_delays w \<and> cn_next_timer w' = cn_next_timer w"
proof -
  from inv(2) obtain ref c where b: "cn_chan (cn w) = Some ref" "chans (cn_rx w) ref = Some c" "chan_fd c = fd"
    "channel_map (cn_rx w) fd = Some ref" "CnReset \<notin> set (cn_tasks w)" by (auto simp: cn_busy_def)
  from op b(1) obtain r1 r2 c2 where r: "disableAll self ref (cn_rx w) = Inr r1" "removeChannel self ref r1 = Inr r2"
    and c2: "chans r2 ref = Some c2" "fd' = chan_fd c2"
    and w': "w' = w\<lparr>cn_rx := r2, cn_tasks := cn_tasks w @ [CnReset]\<rparr>"
    by (auto simp: removeAndResetChannel_def cn_poller_def deref_def result_simps split: option.splits)
  from change_events_chan [OF inv(1) b(2) r(1) [unfolded disableAll_def]] obtain k1 where
    k1: "reactor_inv r1" "self = loop_tid (cn_rx w)" "loop_tid r1 = loop_tid (cn_rx w)"
      "chans r1 ref = Some (c\<lparr>events := kNoneEvent, index := k1\<rparr>)" by blast
  from removeChannel_chan [OF k1(1) r(2) k1(4)] obtain k2 where
    k2: "reactor_inv r2" "loop_tid r2 = loop_tid r1" "chans r2 ref = Some (c\<lparr>events := kNoneEvent, index := k1, index := k2\<rparr>)"
    by blast
  have "ref \<notin> ran (channel_map r2)" by (rule removed_unmapped [OF k1(1) r(2)])
  then have "cn_idle w'" using b(1,5) k2(3) by (simp add: cn_idle_def w')
  with k1(2,3) k2 c2 b(3) show ?thesis by (simp add: w')
qed

lemma removeAndReset_total:
  assumes inv: "reactor_inv (cn_rx w)" "cn_busy fd w"
  shows "\<exists>w'. removeAndResetChannel (loop_tid (cn_rx w)) w = Inr (fd, w')"
proof -
  from inv(2) obtain ref c where b: "cn_chan (cn w) = Some ref" "chans (cn_rx w) ref = Some c" "chan_fd c = fd"
    "channel_map (cn_rx w) (chan_fd c) = Some ref" by (auto simp: cn_busy_def)
  from deregister [OF inv(1) b(2,4) refl] obtain r1 r2 where
    r: "disableAll (loop_tid (cn_rx w)) ref (cn_rx w) = Inr r1" "removeChannel (loop_tid (cn_rx w)) ref r1 = Inr r2" by blast
  from change_events_chan [OF inv(1) b(2) r(1) [unfolded disableAll_def]] obtain k1 where
    k1: "reactor_inv r1" "chans r1 ref = Some (c\<lparr>events := kNoneEvent, index := k1\<rparr>)" by blast
  from removeChannel_chan [OF k1(1) r(2) k1(2)] obtain k2 where
    k2: "chans r2 ref = Some (c\<lparr>events := kNoneEvent, index := k1, index := k2\<rparr>)" by blast
  with b(1,3) r show ?thesis by (simp add: removeAndResetChannel_def cn_poller_def deref_def)
qed

lemma resetChannel_ok:
  assumes inv: "cn_inv w" and st: "cn_state (cn w) \<noteq> CnConnecting" and op: "resetChannel (w\<lparr>cn_tasks := ts\<rparr>) = Inr w'"
    and ts: "cn_tasks w = CnReset # ts"
  shows "cn_inv w'"
proof -
  from inv st have i: "reactor_inv (cn_rx w)" "cn_idle w" "mset (cn_opened w) = mset (cn_closed w) + mset (cn_handed w)"
    by (simp_all add: cn_inv_def)
  from i(2) ts obtain ref where ref: "cn_chan (cn w) = Some ref" "ref \<notin> ran (channel_map (cn_rx w))"
    "count_list (cn_tasks w) CnReset \<le> 1"
    by (cases "cn_chan (cn w)") (auto simp: cn_idle_def)
  from op ref(1) obtain r where r: "delete_chan ref (cn_rx w) = Inr r"
    "w' = cn_set (\<lambda>k. k\<lparr>cn_chan := None\<rparr>) (w\<lparr>cn_tasks := ts, cn_rx := r\<rparr>)"
    by (auto simp: resetChannel_def cn_poller_def result_simps)
  have "count_list ts CnReset = 0" using ref(3) ts by simp
  then have "CnReset \<notin> set ts" by (simp add: count_list_0_iff)
  then show ?thesis
    using delete_inv [OF i(1) r(1) ref(2)] st i(3) by (auto intro!: cn_inv_idleI simp: r(2) cn_idle_def cn_simps)
qed

lemma cn_inv_frame:
  assumes "cn_inv w" and "cn_rx w' = cn_rx w" and "cn_state (cn w') = cn_state (cn w)" and "cn_chan (cn w') = cn_chan (cn w)"
    and "count_list (cn_tasks w') CnReset = count_list (cn_tasks w) CnReset"
    and "cn_opened w' = cn_opened w" and "cn_closed w' = cn_closed w" and "cn_handed w' = cn_handed w"
  shows "cn_inv w'"
proof -
  have tasks: "CnReset \<in> set (cn_tasks w') \<longleftrightarrow> CnReset \<in> set (cn_tasks w)" using assms(5) by (metis count_list_0_iff)
  have "cn_idle w' = cn_idle w" using assms(2,4,5) tasks by (simp add: cn_idle_def split: option.splits)
  moreover have "cn_busy fd w' = cn_busy fd w" for fd using assms(2,4) tasks by (simp add: cn_busy_def)
  ultimately show ?thesis using assms(1) unfolding cn_inv_def assms(2,3,6-8) by simp
qed

lemma cn_stop_inv: "cn_inv w \<Longrightarrow> cn_inv (cn_stop w)"
  by (erule cn_inv_frame) (simp_all add: cn_stop_def cn_simps)

lemma set_tasks_inv:
  "cn_inv w \<Longrightarrow> count_list ts CnReset = count_list (cn_tasks w) CnReset \<Longrightarrow> cn_inv (w\<lparr>cn_tasks := ts\<rparr>)"
  by (erule cn_inv_frame) simp_all

lemma set_flag_inv: "cn_inv w \<Longrightarrow> cn_inv (cn_set (\<lambda>k. k\<lparr>connect_flag := b\<rparr>) w)"
  by (erule cn_inv_frame) (simp_all add: cn_simps)

lemma startInLoop_inv:
  assumes "cn_inv w" and "cn_inputs_doc os w" and op: "startInLoop self os w = Inr w'"
  shows "cn_inv w'"
proof -
  from op have "cn_state (cn w) = CnDisconnected"
    by (auto simp: startInLoop_def cn_assertInLoop_def assertInLoopThread_def result_simps split: if_splits)
  with startInLoop_ok [OF _ _ _ _ assms(2,3)] assms(1) show ?thesis by (simp add: cn_inv_def)
qed

lemma ended_ok:
  assumes inv: "cn_inv w" and st: "cn_state (cn w) = CnConnecting" and rm: "removeAndResetChannel self w = Inr (fd, v)"
  shows "cn_inv (retry fd v)" and "cn_inv (cn_close fd (cn_setState CnConnected v))"
    and "cn_inv ((cn_setState CnConnected v)\<lparr>cn_handed := cn_handed (cn_setState CnConnected v) @ [fd]\<rparr>)"
proof -
  from inv st obtain fd' where b: "reactor_inv (cn_rx w)" "cn_busy fd' w"
    "mset (cn_opened w) = add_mset fd' (mset (cn_closed w) + mset (cn_handed w))" by (auto simp: cn_inv_def)
  from removeAndReset_eq [OF b(1,2) rm] have v: "fd = fd'" "reactor_inv (cn_rx v)" "cn_idle v" "cn_opened v = cn_opened w"
    "cn_closed v = cn_closed w" "cn_handed v = cn_handed w" by blast+
  have idle: "cn_idle u" if "cn_chan (cn u) = cn_chan (cn v)" "cn_rx u = cn_rx v" "cn_tasks u = cn_tasks v" for u
    using that v(3) cn_idle_cong by blast
  show "cn_inv (retry fd v)" using v b(3) by (intro cn_inv_idleI idle) (simp_all add: cn_simps)
  show "cn_inv (cn_close fd (cn_setState CnConnected v))"
    using v b(3) by (intro cn_inv_idleI idle) (simp_all add: cn_setState_def cn_simps)
  show "cn_inv ((cn_setState CnConnected v)\<lparr>cn_handed := cn_handed (cn_setState CnConnected v) @ [fd]\<rparr>)"
    using v b(3) by (intro cn_inv_idleI idle) (simp_all add: cn_setState_def cn_simps)
qed

lemma cn_do_inv:
  assumes inv: "cn_inv w" and doc: "cn_op_doc op w" and op: "cn_do op w = Inr w'"
  shows "cn_inv w'"
proof (cases op)
  case (CnOpStart t os)
  let ?w = "cn_set (\<lambda>k. k\<lparr>connect_flag := True\<rparr>) w"
  have "cn_inputs_doc os ?w" using doc CnOpStart by (simp add: cn_op_doc_def cn_inputs_doc_def cn_simps)
  with startInLoop_inv [OF set_flag_inv [OF inv]] set_tasks_inv [OF set_flag_inv [OF inv, of True], of "cn_tasks w @ [CnStart]"]
    op CnOpStart show ?thesis
    by (auto simp: cn_do_def cn_start_def Let_def cn_simps split: if_splits)
next
  case (CnOpRestart os)
  let ?w = "cn_set (\<lambda>k. k\<lparr>retry_ms := kInitRetryDelayMs, connect_flag := True\<rparr>) (cn_setState CnDisconnected w)"
  from doc CnOpRestart have st: "cn_state (cn w) = CnConnected" and d: "cn_inputs_doc os ?w"
    by (simp_all add: cn_op_doc_def cn_inputs_doc_def cn_setState_def cn_simps)
  have "cn_idle ?w" using inv st cn_idle_cong [of ?w w] by (simp add: cn_inv_def cn_setState_def cn_simps)
  then have "cn_inv ?w" using inv st by (intro cn_inv_idleI) (simp_all add: cn_inv_def cn_setState_def cn_simps)
  from startInLoop_inv [OF this d] op CnOpRestart show ?thesis
    by (auto simp: cn_do_def cn_restart_def cn_assertInLoop_def assertInLoopThread_def split: if_splits)
next
  case CnOpStop
  with op cn_stop_inv [OF inv] show ?thesis by (auto simp: cn_do_def)
next
  case (CnOpTask os)
  show ?thesis
  proof (cases "cn_tasks w")
    case Nil
    with op CnOpTask inv show ?thesis by (simp add: cn_do_def)
  next
    case (Cons t ts)
    show ?thesis
    proof (cases t)
      case CnStart
      have "cn_inputs_doc os (w\<lparr>cn_tasks := ts\<rparr>)" using doc CnOpTask by (simp add: cn_op_doc_def cn_inputs_doc_def)
      from startInLoop_inv [OF set_tasks_inv [OF inv] this] op CnOpTask Cons CnStart show ?thesis
        by (simp add: cn_do_def)
    next
      case CnReset
      have "cn_state (cn w) \<noteq> CnConnecting" using inv Cons CnReset by (auto simp: cn_inv_def cn_busy_def)
      with resetChannel_ok [OF inv] op CnOpTask Cons CnReset show ?thesis by (simp add: cn_do_def)
    qed
  qed
next
  case (CnOpTimer i os)
  let ?w = "w\<lparr>cn_timers := remove1 i (cn_timers w)\<rparr>"
  have "cn_inv ?w" using inv by (rule cn_inv_frame) simp_all
  moreover have "cn_inputs_doc os ?w" using doc CnOpTimer by (simp add: cn_op_doc_def cn_inputs_doc_def)
  ultimately show ?thesis using startInLoop_inv [of ?w os] op CnOpTimer inv
    by (auto simp: cn_do_def split: if_splits)
next
  case (CnOpWrite ans)
  show ?thesis
  proof (cases "cn_state (cn w) = CnConnecting")
    case True
    with op CnOpWrite obtain fd v where v: "removeAndResetChannel (loop_tid (cn_rx w)) w = Inr (fd, v)"
      by (auto simp: cn_do_def cn_handleWrite_def Let_def result_simps)
    with op CnOpWrite True ended_ok [OF inv True v] show ?thesis
      by (auto simp: cn_do_def cn_handleWrite_def Let_def split: if_splits)
  next
    case False
    with op CnOpWrite inv show ?thesis by (simp add: cn_do_def cn_handleWrite_def result_simps)
  qed
next
  case CnOpError
  from op CnOpError have st: "cn_state (cn w) = CnConnecting"
    by (simp add: cn_do_def cn_handleError_def result_simps)
  with op CnOpError obtain fd v where v: "removeAndResetChannel (loop_tid (cn_rx w)) w = Inr (fd, v)" "w' = retry fd v"
    by (auto simp: cn_do_def cn_handleError_def Let_def result_simps)
  with ended_ok(1) [OF inv st v(1)] show ?thesis by simp
qed

interpretation cns: invariant_system cn_init cn_step cn_inv
proof unfold_locales
  show "cn_inv w" if "cn_init w" for w
    using that by (auto simp: cn_init_def Connector_new_def intro!: cn_inv_idleI simp: cn_idle_def)
  show "cn_inv w'" if "cn_inv w" "cn_step w w'" for w w'
    using that cn_do_inv by (auto simp: cn_step_def)
qed
section \<open>Properties\<close>

definition backoff :: "nat \<Rightarrow> int" where
  "backoff k = min (500 * 2 ^ k) 30000"

lemma backoff_Suc: "min (backoff k * 2) kMaxRetryDelayMs = backoff (Suc k)"
  by (auto simp: backoff_def kMaxRetryDelayMs_def min_def)

lemma backoff_cases: "backoff k \<in> {500, 1000, 2000, 4000, 8000, 16000, 30000}"
proof (cases "k < 6")
  case True
  then have "k \<in> {0, 1, 2, 3, 4, 5}" by auto
  then show ?thesis by (auto simp: backoff_def)
next
  case False
  then have "(2 :: int) ^ 6 \<le> 2 ^ k" by (intro power_increasing) auto
  then show ?thesis by (simp add: backoff_def min_def)
qed

lemmas double_eval = dof_int_def dmul_def ddiv_def drnd_def Let_def blen.simps dtrunc_def cdiv_def

lemma delay_exact:
  "dtrunc (dmul (ddiv (dof_int (backoff k)) (dof_int 1000)) (dof_int 1000000)) = backoff k * 1000"
  using backoff_cases [of k] by (elim insertE emptyE) (simp_all add: double_eval)

text \<open>A connector that has tried once, on descriptor 5, for the examples.\<close>

definition cn_sample_start :: cn_world where
  "cn_sample_start = \<lparr>cn = Connector_new zero_addr, cn_rx = Poller_new 1, cn_tasks = [], cn_timers = [], cn_next_timer = 0,
     cn_delays = [], cn_opened = [], cn_closed = [], cn_handed = []\<rparr>"

lemma cn_sample_init: "cn_init cn_sample_start"
  by (auto simp: cn_init_def cn_sample_start_def Poller_new_inv)

lemma cn_sample:
  obtains w where "reach cn_init cn_step w" "cn_inv w" "cn_state (cn w) = CnConnecting" "cn_opened w = [5]"
    "cn_closed w = []" "loop_tid (cn_rx w) = 1" "connect_flag (cn w)"
proof -
  let ?os = "\<lparr>cn_socket = Ret 5, cn_connect = Err EINPROGRESS, cn_ref = 0\<rparr>"
  let ?c = "setErrorCallback CnError (setWriteCallback CnWrite (Channel_new 5)) :: cn_handler channel"
  let ?r = "new_chan 0 ?c (Poller_new 1)"
  have c: "chans ?r 0 = Some ?c" "index ?c < 0" "1 = loop_tid ?r" "channel_map ?r (chan_fd ?c) = None"
    by (simp_all add: new_chan_def put_chan_def Poller_new_def setErrorCallback_def setWriteCallback_def Channel_new_def)
  then obtain r where r: "enableWriting 1 0 ?r = Inr r" "loop_tid r = 1"
    using change_events_new [OF c(1-3), of "\<lambda>e. e OR kWriteEvent"] unfolding enableWriting_def by (simp add: added_def)
  let ?w = "cn_sample_start\<lparr>cn := \<lparr>server_addr = zero_addr, connect_flag = True, cn_state = CnConnecting, cn_chan = Some 0,
    retry_ms = kInitRetryDelayMs, cn_timer_id = None\<rparr>, cn_rx := r, cn_opened := [5]\<rparr>"
  have "cn_do (CnOpStart 1 ?os) cn_sample_start = Inr ?w"
    using r(1) c(3)
    by (simp add: cn_do_def cn_start_def startInLoop_def cn_assertInLoop_def assertInLoopThread_def cn_connect_socket_def
        createNonblockingOrDie_def connecting_def cn_poller_def cn_set_def cn_setState_def cn_sample_start_def Connector_new_def
        Poller_new_def Let_def)
  moreover have "cn_op_doc (CnOpStart 1 ?os) cn_sample_start"
    by (simp add: cn_op_doc_def cn_inputs_doc_def cn_sample_start_def Poller_new_def)
  ultimately have "cn_step cn_sample_start ?w" unfolding cn_step_def by blast
  then have reach: "reach cn_init cn_step ?w" by (rule reach_step [OF reach_init [of cn_init, OF cn_sample_init]])
  from that [OF reach cns.reach_inv [OF reach]] r(2) show thesis by (simp add: cn_sample_start_def)
qed

text \<open>
  C27. A connector leaks no descriptor and closes none twice: in every reachable state the descriptors
  it opened are those it closed, those it handed to the new-connection callback, and, while it is
  connecting, the one of its channel, which is registered for write events.
\<close>

theorem connector_descriptors:
  assumes "reach cn_init cn_step w"
  shows "reactor_inv (cn_rx w) \<and>
    (if cn_state (cn w) = CnConnecting
     then \<exists>ref c. cn_chan (cn w) = Some ref \<and> chans (cn_rx w) ref = Some c \<and> channel_map (cn_rx w) (chan_fd c) = Some ref \<and>
       events c = kWriteEvent \<and> mset (cn_opened w) = mset (cn_closed w) + mset (cn_handed w) + {#chan_fd c#}
     else mset (cn_opened w) = mset (cn_closed w) + mset (cn_handed w))"
  using cns.reach_inv [OF assms] by (auto simp: cn_inv_def cn_busy_def split: if_splits)

theorem connector_descriptors_witness:
  "\<exists>w. reach cn_init cn_step w \<and> cn_opened w = [5] \<and>
     (\<exists>ref c. chans (cn_rx w) ref = Some c \<and> channel_map (cn_rx w) (chan_fd c) = Some ref)"
proof -
  obtain w where w: "reach cn_init cn_step w" "cn_state (cn w) = CnConnecting" "cn_opened w = [5]" by (rule cn_sample) blast
  from connector_descriptors [OF w(1)] w show ?thesis by (auto split: if_splits)
qed

text \<open>
  C28. Refused connections are retried with exponential backoff: the \<open>k\<close>-th retry of a row (from 0)
  is scheduled after \<open>500 * 2 ^ k\<close> ms, at most 30 s, and although the delay goes through a division
  of doubles, \<open>addTime\<close> adds exactly that many microseconds. Every descriptor of the failed attempts
  is closed.
\<close>

theorem retry_backoff:
  assumes "connect_flag (cn w)" and "cn_state (cn w) = CnDisconnected" and "retry_ms (cn w) = kInitRetryDelayMs"
    and "self = loop_tid (cn_rx w)"
  shows "\<exists>w'. rfold (\<lambda>fd. startInLoop self \<lparr>cn_socket = Ret fd, cn_connect = Err ECONNREFUSED, cn_ref = ref\<rparr>) fds w = Inr w' \<and>
    cn_delays w' = cn_delays w @ map (\<lambda>k. ddiv (dof_int (min (500 * 2 ^ k) 30000)) (dof_int 1000)) [0..<length fds] \<and>
    cn_closed w' = cn_closed w @ fds \<and> cn_opened w' = cn_opened w @ fds \<and>
    (\<forall>k. dtrunc (dmul (ddiv (dof_int (min (500 * 2 ^ k) 30000)) (dof_int 1000)) (dof_int 1000000)) = min (500 * 2 ^ k) 30000 * 1000)"
proof -
  let ?os = "\<lambda>fd. \<lparr>cn_socket = Ret fd, cn_connect = Err ECONNREFUSED, cn_ref = ref\<rparr>"
  have one: "startInLoop self (?os fd) v = Inr (retry fd (v\<lparr>cn_opened := cn_opened v @ [fd]\<rparr>))"
    if "connect_flag (cn v)" "cn_state (cn v) = CnDisconnected" "self = loop_tid (cn_rx v)" for fd v
    using that by (simp add: startInLoop_def cn_assertInLoop_def assertInLoopThread_def cn_connect_socket_def
        createNonblockingOrDie_def Let_def)
  have delay: "cn_delays (retry fd v) = cn_delays v @ [ddiv (dof_int (retry_ms (cn v))) (dof_int 1000)]"
    "retry_ms (cn (retry fd v)) = min (retry_ms (cn v) * 2) kMaxRetryDelayMs" if "connect_flag (cn v)" for fd v
    using that by (simp_all add: retry_def Let_def cn_setState_def cn_runAfter_def cn_simps)
  have loop: "\<exists>w'. rfold (\<lambda>fd. startInLoop self (?os fd)) fds v = Inr w' \<and>
      cn_delays w' = cn_delays v @ map (\<lambda>k. ddiv (dof_int (backoff k)) (dof_int 1000)) [j..<j + length fds] \<and>
      cn_closed w' = cn_closed v @ fds \<and> cn_opened w' = cn_opened v @ fds"
    if "connect_flag (cn v)" "cn_state (cn v) = CnDisconnected" "self = loop_tid (cn_rx v)" "retry_ms (cn v) = backoff j" for v j
    using that
  proof (induction fds arbitrary: v j)
    case Nil
    then show ?case by simp
  next
    case (Cons fd fds)
    let ?v = "retry fd (v\<lparr>cn_opened := cn_opened v @ [fd]\<rparr>)"
    have flag: "connect_flag (cn (v\<lparr>cn_opened := cn_opened v @ [fd]\<rparr>))" using Cons.prems(1) by simp
    have "retry_ms (cn ?v) = backoff (Suc j)" using delay(2) [OF flag] Cons.prems(4) by (simp add: backoff_Suc)
    with Cons.IH [of ?v "Suc j"] Cons.prems obtain w' where
      w': "rfold (\<lambda>fd. startInLoop self (?os fd)) fds ?v = Inr w'"
        "cn_delays w' = cn_delays ?v @ map (\<lambda>k. ddiv (dof_int (backoff k)) (dof_int 1000)) [Suc j..<Suc j + length fds]"
        "cn_closed w' = cn_closed ?v @ fds" "cn_opened w' = cn_opened ?v @ fds" by (auto simp: cn_simps)
    have up: "[j..<j + length (fd # fds)] = j # [Suc j..<Suc j + length fds]"
      by (simp add: upt_conv_Cons del: upt_Suc)
    have "rfold (\<lambda>fd. startInLoop self (?os fd)) (fd # fds) v = Inr w'"
      using one [OF Cons.prems(1-3), of fd] w'(1) by simp
    with w'(2-) Cons.prems(4) delay(1) [OF flag] show ?case unfolding up by (simp add: cn_simps)
  qed
  have "backoff 0 = kInitRetryDelayMs" by (simp add: backoff_def kInitRetryDelayMs_def)
  from loop [OF assms(1,2,4), of 0] this assms(3) delay_exact show ?thesis by (simp add: backoff_def)
qed

theorem retry_backoff_witness:
  "\<exists>w w'. rfold (\<lambda>fd. startInLoop 1 \<lparr>cn_socket = Ret fd, cn_connect = Err ECONNREFUSED, cn_ref = 0\<rparr>) [5, 6] w = Inr w' \<and>
     length (cn_delays w') = 2 \<and> cn_closed w' = [5, 6]"
proof -
  let ?w = "cn_set (\<lambda>k. k\<lparr>connect_flag := True\<rparr>) cn_sample_start"
  have "connect_flag (cn ?w)" "cn_state (cn ?w) = CnDisconnected" "retry_ms (cn ?w) = kInitRetryDelayMs" "1 = loop_tid (cn_rx ?w)"
    by (simp_all add: cn_simps cn_sample_start_def Connector_new_def Poller_new_def)
  from retry_backoff [OF this, of 0 "[5, 6]"] obtain w' where
    w': "rfold (\<lambda>fd. startInLoop 1 \<lparr>cn_socket = Ret fd, cn_connect = Err ECONNREFUSED, cn_ref = 0\<rparr>) [5, 6] ?w = Inr w'"
    "cn_delays w' = cn_delays ?w @ map (\<lambda>k. ddiv (dof_int (min (500 * 2 ^ k) 30000)) (dof_int 1000)) [0..<length [5, 6 :: int]]"
    "cn_closed w' = cn_closed ?w @ [5, 6]" by blast
  from w'(2,3) have "length (cn_delays w') = 2" "cn_closed w' = [5, 6]" by (simp_all add: cn_simps cn_sample_start_def)
  with w'(1) show ?thesis by blast
qed

text \<open>
  A connector that is stopped while its attempt is under way cannot be started again: when the
  attempt succeeds its descriptor is closed, but the state becomes connected, and the next
  \<open>start()\<close> in the loop's thread fails the assertion of \<open>startInLoop\<close>.
\<close>

theorem stop_then_start_asserts:
  assumes "cn_inv w" and "cn_state (cn w) = CnConnecting" and "getSocketError (cn_so_error ans) = 0"
    and "\<not> isSelfConnect (cn_local ans) (cn_peer ans)"
  shows "\<exists>w' fd. cn_handleWrite new_cb (loop_tid (cn_rx w)) ans (cn_stop w) = Inr w' \<and> cn_closed w' = cn_closed w @ [fd] \<and>
    cn_handed w' = cn_handed w \<and> cn_state (cn w') = CnConnected \<and>
    (\<forall>os. cn_start (loop_tid (cn_rx w)) os w' = Inl AssertFail)"
proof -
  have inv: "cn_inv (cn_stop w)" by (rule cn_stop_inv [OF assms(1)])
  have s: "cn_state (cn (cn_stop w)) = CnConnecting" "cn_rx (cn_stop w) = cn_rx w" "cn_closed (cn_stop w) = cn_closed w"
    "cn_handed (cn_stop w) = cn_handed w" "\<not> connect_flag (cn (cn_stop w))"
    using assms(2) by (simp_all add: cn_stop_def cn_simps)
  from inv s(1) obtain fd where b: "reactor_inv (cn_rx (cn_stop w))" "cn_busy fd (cn_stop w)" by (auto simp: cn_inv_def)
  from removeAndReset_total [OF b] obtain v where v: "removeAndResetChannel (loop_tid (cn_rx w)) (cn_stop w) = Inr (fd, v)"
    by (auto simp: s(2))
  from removeAndReset_eq [OF b v] have e: "cn v = cn (cn_stop w)" "loop_tid (cn_rx v) = loop_tid (cn_rx w)"
    "cn_closed v = cn_closed w" "cn_handed v = cn_handed w" by (simp_all add: s)
  let ?w' = "cn_close fd (cn_setState CnConnected v)"
  have "cn_handleWrite new_cb (loop_tid (cn_rx w)) ans (cn_stop w) = Inr ?w'"
    using assms(3,4) s e(1) v by (simp add: cn_handleWrite_def cn_setState_def cn_simps)
  moreover have "cn_start (loop_tid (cn_rx w)) os ?w' = Inl AssertFail" for os
    using e(2) by (simp add: cn_start_def startInLoop_def cn_assertInLoop_def assertInLoopThread_def cn_setState_def cn_simps Let_def)
  ultimately show ?thesis using e by (intro exI [of _ ?w'] exI [of _ fd]) (simp add: cn_setState_def cn_simps)
qed

theorem stop_then_start_asserts_witness:
  "\<exists>w w' os. cn_state (cn w) = CnConnecting \<and>
     cn_handleWrite None 1 \<lparr>cn_so_error = Ret 0, cn_local = Ret zero_addr, cn_peer = Ret (zero_addr\<lparr>sin_port := 7\<rparr>)\<rparr> (cn_stop w) = Inr w' \<and>
     cn_start 1 os w' = Inl AssertFail"
proof -
  obtain w where w: "cn_inv w" "cn_state (cn w) = CnConnecting" "loop_tid (cn_rx w) = 1" by (rule cn_sample) blast
  let ?a = "\<lparr>cn_so_error = Ret 0, cn_local = Ret zero_addr, cn_peer = Ret (zero_addr\<lparr>sin_port := 7\<rparr>)\<rparr>"
  have "getSocketError (cn_so_error ?a) = 0" "\<not> isSelfConnect (cn_local ?a) (cn_peer ?a)"
    by (simp_all add: getSocketError_def isSelfConnect_def getLocalAddr_def getPeerAddr_def zero_addr_def)
  from stop_then_start_asserts [OF w(1,2) this, of None] w show ?thesis by auto
qed

text \<open>
  \<open>Acceptor::handleRead\<close> in the loop's thread: a connection that \<open>accept\<close> returns is handed to the
  callback with the address of its peer, or its descriptor is closed if there is no callback; the
  transient errors (among them EMFILE) change nothing; any other error ends the process.
\<close>

theorem acceptor_handleRead:
  assumes "self = loop_tid (acc_rx a)" and "\<And>fd addr. ar = Ret (fd, addr) \<Longrightarrow> 0 \<le> fd"
  shows "acc_handleRead self le ar new_cb a =
    (case ar of
       Ret (fd, addr) \<Rightarrow> (case new_cb of
           Some f \<Rightarrow> f fd addr (a\<lparr>acc_handed := acc_handed a @ [(fd, addr)]\<rparr>)
         | None \<Rightarrow> Inr (a\<lparr>acc_io := acc_io a @ [SysClose fd]\<rparr>))
     | Err e \<Rightarrow> if e \<in> {EAGAIN, ECONNABORTED, EINTR, EPROTO, EPERM, EMFILE} then Inr a else Inl Aborted)"
  using assms
  by (auto simp: acc_handleRead_def acc_assertInLoop_def assertInLoopThread_def Socket_accept_def sock_accept_def
      sock_close_def Let_def split: syscall.splits prod.splits option.splits)

theorem acceptor_handleRead_witness:
  "\<exists>a. Acceptor_new (Ret 3) (Ret 0) zero_addr 0 (Poller_new 1) = Inr a \<and>
     acc_handleRead 1 True (Ret (9, zero_addr)) (Some (\<lambda>_ _. Inr)) a = Inr (a\<lparr>acc_handed := [(9, zero_addr)]\<rparr>)"
proof -
  obtain a where a: "Acceptor_new (Ret 3) (Ret 0) zero_addr 0 (Poller_new 1) = Inr a" "acc_handed a = []" "loop_tid (acc_rx a) = 1"
    by (simp add: Acceptor_new_def createNonblockingOrDie_def bindAddress_def bindOrDie_def Let_def new_chan_def put_chan_def
        Poller_new_def)
  have "acc_handleRead 1 True (Ret (9, zero_addr)) (Some (\<lambda>_ _. Inr)) a =
    (case Ret (9, zero_addr) of
       Ret (fd, addr) \<Rightarrow> (case Some (\<lambda>_ _. Inr) of
           Some f \<Rightarrow> f fd addr (a\<lparr>acc_handed := acc_handed a @ [(fd, addr)]\<rparr>)
         | None \<Rightarrow> Inr (a\<lparr>acc_io := acc_io a @ [SysClose fd]\<rparr>))
     | Err e \<Rightarrow> if e \<in> {EAGAIN, ECONNABORTED, EINTR, EPROTO, EPERM, EMFILE} then Inr a else Inl Aborted)"
    by (rule acceptor_handleRead) (use a(3) in auto)
  with a show ?thesis by auto
qed

end
