(* ===== verification/Monitors.thy ===== *)
theory Monitors
  imports Doubles Interfaces
begin

text \<open>
  MutexLock, MutexLockGuard and Condition (src/base/Mutex.h, Condition.h, Condition.cpp): a pthread
  mutex that remembers its holder, and the condition variable of such a mutex.

  The first part has the member functions. Where a function blocks it is two functions, before and
  after the blocking point, and a pthread call that has to wait is \<open>None\<close>. The second part is the
  interleaving of any number of threads that use one mutex and one condition, in steps of one
  pthread call or one assignment of \<open>holder_\<close> each. The third part is the loop
  \<open>while (!ready) cond.wait()\<close>, which every user of a condition in the program has, with critical
  sections as steps: by the second part they exclude each other.
\<close>

section \<open>The mutex\<close>

record mutex_lock =
  owner :: "tid option"
  holder :: tid

definition MutexLock_new :: mutex_lock where
  "MutexLock_new = \<lparr>owner = None, holder = 0\<rparr>"

text \<open>Destroying a locked mutex gives \<open>EBUSY\<close>, which \<open>MCHECK\<close> asserts away.\<close>

definition MutexLock_dtor :: "mutex_lock \<Rightarrow> unit result" where
  "MutexLock_dtor m = assertC (holder m = 0) (assertC (owner m = None) (Inr ()))"

definition isLockedByThisThread :: "tid \<Rightarrow> mutex_lock \<Rightarrow> bool" where
  "isLockedByThisThread self m \<longleftrightarrow> holder m = self"

definition assertLocked :: "tid \<Rightarrow> mutex_lock \<Rightarrow> unit result" where
  "assertLocked self m = assertC (isLockedByThisThread self m) (Inr ())"

definition assignHolder :: "tid \<Rightarrow> mutex_lock \<Rightarrow> mutex_lock" where
  "assignHolder self m = m\<lparr>holder := self\<rparr>"

definition unassignHolder :: "mutex_lock \<Rightarrow> mutex_lock" where
  "unassignHolder m = m\<lparr>holder := 0\<rparr>"

text \<open>
  \<open>pthread_mutex_lock\<close> waits while the mutex is owned (also by the caller: it is not recursive), and
  only the owner may unlock.
\<close>

definition pthread_lock :: "tid \<Rightarrow> mutex_lock \<Rightarrow> mutex_lock option" where
  "pthread_lock self m = (if owner m = None then Some (m\<lparr>owner := Some self\<rparr>) else None)"

definition pthread_unlock :: "tid \<Rightarrow> mutex_lock \<Rightarrow> mutex_lock result" where
  "pthread_unlock self m = (if owner m = Some self then Inr (m\<lparr>owner := None\<rparr>) else Inl AssertFail)"

definition mutex_acquire :: "tid \<Rightarrow> mutex_lock \<Rightarrow> mutex_lock option" where
  "mutex_acquire self m = map_option (assignHolder self) (pthread_lock self m)"

definition mutex_release :: "tid \<Rightarrow> mutex_lock \<Rightarrow> mutex_lock result" where
  "mutex_release self m = pthread_unlock self (unassignHolder m)"

text \<open>A \<open>MutexLockGuard\<close> around a critical section.\<close>

definition guarded :: "tid \<Rightarrow> (mutex_lock \<times> 's \<Rightarrow> (mutex_lock \<times> 's) result) \<Rightarrow> mutex_lock \<times> 's \<Rightarrow> (mutex_lock \<times> 's) result option" where
  "guarded self body ms =
     map_option (\<lambda>m. rbind (body (m, snd ms)) (\<lambda>(m, s). rbind (mutex_release self m) (\<lambda>m. Inr (m, s))))
       (mutex_acquire self (fst ms))"

section \<open>The condition\<close>

text \<open>
  \<open>wait\<close>: the constructor of the \<open>UnassignGuard\<close>, \<open>pthread_cond_wait\<close>, which releases the mutex and
  takes it again, and the destructor of the guard.
\<close>

definition wait_begin :: "tid \<Rightarrow> mutex_lock \<Rightarrow> mutex_lock result" where
  "wait_begin self m = pthread_unlock self (unassignHolder m)"

definition wait_end :: "tid \<Rightarrow> mutex_lock \<Rightarrow> mutex_lock option" where
  "wait_end self m = map_option (assignHolder self) (pthread_lock self m)"

text \<open>\<open>waitForSeconds\<close> calls \<open>pthread_cond_timedwait\<close> without a guard.\<close>

definition timedwait_begin :: "tid \<Rightarrow> mutex_lock \<Rightarrow> mutex_lock result" where
  "timedwait_begin self m = pthread_unlock self m"

definition timedwait_end :: "tid \<Rightarrow> mutex_lock \<Rightarrow> mutex_lock option" where
  "timedwait_end self m = pthread_lock self m"

record timespec =
  tv_sec :: int
  tv_nsec :: int

definition kNanoSecondPerSecond :: int where "kNanoSecondPerSecond = 1000000000"

definition waitForSeconds_deadline :: "timespec \<Rightarrow> double \<Rightarrow> timespec result" where
  "waitForSeconds_deadline time seconds =
     rbind (to_int64 (dmul seconds (dof_int kNanoSecondPerSecond))) (\<lambda>nanoSeconds.
     if in_int64 (tv_nsec time + nanoSeconds)
     then (let secs = tv_sec time + cdiv (tv_nsec time + nanoSeconds) kNanoSecondPerSecond in
           if in_int64 secs
           then Inr \<lparr>tv_sec = secs, tv_nsec = cmod (tv_nsec time + nanoSeconds) kNanoSecondPerSecond\<rparr>
           else Inl Overflow)
     else Inl Overflow)"

text \<open>What is returned: whether the wait ended with \<open>ETIMEDOUT\<close>.\<close>

abbreviation "ETIMEDOUT \<equiv> (110 :: int)"

definition waitForSeconds_result :: "int \<Rightarrow> bool" where
  "waitForSeconds_result ret \<longleftrightarrow> ret = ETIMEDOUT"

lemma deadline_sum:
  assumes "waitForSeconds_deadline t s = Inr d"
  shows "tv_sec d * kNanoSecondPerSecond + tv_nsec d =
    tv_sec t * kNanoSecondPerSecond + tv_nsec t + dtrunc (dmul s (dof_int kNanoSecondPerSecond))"
  using assms cdiv_cmod [of "tv_nsec t + dtrunc (dmul s (dof_int kNanoSecondPerSecond))" kNanoSecondPerSecond]
  by (auto simp: waitForSeconds_deadline_def to_int64_def result_simps Let_def distrib_right split: if_splits)

lemma deadline_normalised:
  assumes "waitForSeconds_deadline t s = Inr d" and "0 \<le> tv_nsec t" and "0 \<le> signif s"
  shows "0 \<le> tv_nsec d \<and> tv_nsec d < kNanoSecondPerSecond \<and> tv_sec t \<le> tv_sec d"
proof -
  let ?n = "tv_nsec t + dtrunc (dmul s (dof_int kNanoSecondPerSecond))"
  have "0 \<le> signif (dmul s (dof_int kNanoSecondPerSecond))"
    using assms(3) by (simp add: dmul_def dof_int_exact kNanoSecondPerSecond_def drnd_sign)
  then have n: "0 \<le> ?n" using assms(2) dtrunc_nonneg by simp
  have k: "0 < kNanoSecondPerSecond" by (simp add: kNanoSecondPerSecond_def)
  have "d = \<lparr>tv_sec = tv_sec t + ?n div kNanoSecondPerSecond, tv_nsec = ?n mod kNanoSecondPerSecond\<rparr>"
    using assms(1) cdiv_nonneg [OF n k] cmod_nonneg [OF n k]
    by (auto simp: waitForSeconds_deadline_def to_int64_def result_simps Let_def split: if_splits)
  then show ?thesis using k n by (simp add: pos_imp_zdiv_nonneg_iff)
qed

text \<open>A negative time that is not whole seconds leaves the nanoseconds negative, which \<open>pthread_cond_timedwait\<close> refuses.\<close>

lemma deadline_negative:
  "waitForSeconds_deadline \<lparr>tv_sec = 100, tv_nsec = 0\<rparr> (Dbl (- 1) (- 1)) = Inr \<lparr>tv_sec = 100, tv_nsec = - 500000000\<rparr>"
  by (simp add: waitForSeconds_deadline_def kNanoSecondPerSecond_def dmul_def dof_int_def drnd_def blen.simps
      to_int64_def dtrunc_def cdiv_def cmod_def in_int64_def Let_def)

section \<open>Threads that share the mutex\<close>

text \<open>
  Where a thread is: outside, between \<open>pthread_mutex_lock\<close> and the assignment of the holder, inside
  the critical section, past the unassignment of an unlock or of a wait, or in one of the two waits,
  asleep or woken and about to take the mutex again.
\<close>

datatype mplace = Outside_cs | Taken | Inside | Leaving | Entering_wait | Asleep | Woken | Timed_asleep | Timed_woken

record monitor =
  mtx :: mutex_lock
  place :: "tid \<Rightarrow> mplace"

definition goto_place :: "tid \<Rightarrow> mplace \<Rightarrow> mutex_lock \<Rightarrow> monitor \<Rightarrow> monitor" where
  "goto_place t p m s = s\<lparr>mtx := m, place := (place s)(t := p)\<rparr>"

text \<open>The flag says whether \<open>waitForSeconds\<close> is used.\<close>

inductive mon_step :: "bool \<Rightarrow> monitor \<Rightarrow> monitor \<Rightarrow> bool" for timed :: bool where
  ms_lock: "0 < t \<Longrightarrow> place s t = Outside_cs \<Longrightarrow> pthread_lock t (mtx s) = Some m \<Longrightarrow>
    mon_step timed s (goto_place t Taken m s)"
| ms_assign: "place s t = Taken \<Longrightarrow> mon_step timed s (goto_place t Inside (assignHolder t (mtx s)) s)"
| ms_unassign: "place s t = Inside \<Longrightarrow> mon_step timed s (goto_place t Leaving (unassignHolder (mtx s)) s)"
| ms_unlock: "place s t = Leaving \<Longrightarrow> pthread_unlock t (mtx s) = Inr m \<Longrightarrow>
    mon_step timed s (goto_place t Outside_cs m s)"
| ms_wait: "place s t = Inside \<Longrightarrow> mon_step timed s (goto_place t Entering_wait (unassignHolder (mtx s)) s)"
| ms_sleep: "place s t = Entering_wait \<Longrightarrow> pthread_unlock t (mtx s) = Inr m \<Longrightarrow>
    mon_step timed s (goto_place t Asleep m s)"
| ms_wake: "place s t = Asleep \<Longrightarrow> mon_step timed s (goto_place t Woken (mtx s) s)"
| ms_retake: "place s t = Woken \<Longrightarrow> pthread_lock t (mtx s) = Some m \<Longrightarrow>
    mon_step timed s (goto_place t Taken m s)"
| ms_timed_sleep: "timed \<Longrightarrow> place s t = Inside \<Longrightarrow> timedwait_begin t (mtx s) = Inr m \<Longrightarrow>
    mon_step timed s (goto_place t Timed_asleep m s)"
| ms_timed_wake: "place s t = Timed_asleep \<Longrightarrow> mon_step timed s (goto_place t Timed_woken (mtx s) s)"
| ms_timed_retake: "place s t = Timed_woken \<Longrightarrow> timedwait_end t (mtx s) = Some m \<Longrightarrow>
    mon_step timed s (goto_place t Inside m s)"

definition mon_init :: "monitor \<Rightarrow> bool" where
  "mon_init s \<longleftrightarrow> mtx s = MutexLock_new \<and> (\<forall>t. place s t = Outside_cs)"

text \<open>The places of a thread that owns the mutex.\<close>

definition owning :: "mplace \<Rightarrow> bool" where
  "owning p \<longleftrightarrow> p = Taken \<or> p = Inside \<or> p = Leaving \<or> p = Entering_wait"

lemma owning_simps [simp]:
  "owning Taken" "owning Inside" "owning Leaving" "owning Entering_wait" "\<not> owning Outside_cs"
  "\<not> owning Asleep" "\<not> owning Woken" "\<not> owning Timed_asleep" "\<not> owning Timed_woken"
  by (simp_all add: owning_def)

lemmas mutex_defs = pthread_lock_def pthread_unlock_def assignHolder_def unassignHolder_def
  timedwait_begin_def timedwait_end_def

definition excl_inv :: "monitor \<Rightarrow> bool" where
  "excl_inv s \<longleftrightarrow> (\<forall>t. owner (mtx s) = Some t \<longleftrightarrow> owning (place s t)) \<and> (\<forall>t. place s t \<noteq> Outside_cs \<longrightarrow> 0 < t)"

lemma excl_init: "mon_init s \<Longrightarrow> excl_inv s"
  by (simp add: mon_init_def excl_inv_def MutexLock_new_def)

lemma goto_frames [simp]:
  "mtx (goto_place t p m s) = m" "place (goto_place t p m s) = (place s)(t := p)"
  by (simp_all add: goto_place_def)

lemma excl_stay:
  "excl_inv s \<Longrightarrow> owning p = owning (place s t) \<Longrightarrow> 0 < t \<Longrightarrow> owner m = owner (mtx s) \<Longrightarrow> excl_inv (goto_place t p m s)"
  by (simp add: excl_inv_def)

lemma excl_enter:
  "excl_inv s \<Longrightarrow> owning p \<Longrightarrow> 0 < t \<Longrightarrow> owner (mtx s) = None \<Longrightarrow> owner m = Some t \<Longrightarrow> excl_inv (goto_place t p m s)"
  by (auto simp: excl_inv_def)

lemma excl_exit:
  "excl_inv s \<Longrightarrow> \<not> owning p \<Longrightarrow> 0 < t \<Longrightarrow> owner (mtx s) = Some t \<Longrightarrow> owner m = None \<Longrightarrow> excl_inv (goto_place t p m s)"
  by (simp add: excl_inv_def) (metis option.inject)

lemma excl_pos: "excl_inv s \<Longrightarrow> place s t \<noteq> Outside_cs \<Longrightarrow> 0 < t"
  by (simp add: excl_inv_def)

lemma excl_step: "mon_step timed s s' \<Longrightarrow> excl_inv s \<Longrightarrow> excl_inv s'"
  by (induction rule: mon_step.induct)
    (auto simp: mutex_defs excl_pos split: if_splits intro: excl_stay excl_enter excl_exit)

definition holder_inv :: "monitor \<Rightarrow> bool" where
  "holder_inv s \<longleftrightarrow> excl_inv s \<and> (\<forall>t. 0 < t \<longrightarrow> holder (mtx s) = t \<longleftrightarrow> place s t = Inside) \<and>
     (\<forall>t. place s t \<noteq> Timed_asleep \<and> place s t \<noteq> Timed_woken)"

lemma holder_init: "mon_init s \<Longrightarrow> holder_inv s"
  by (auto simp: holder_inv_def excl_init) (auto simp: mon_init_def MutexLock_new_def)

text \<open>A step that leaves the holder alone and neither enters nor leaves \<open>Inside\<close>.\<close>

lemma holder_stay:
  assumes "holder_inv s" and "excl_inv (goto_place t p m s)" and "holder m = holder (mtx s)"
    and "place s t \<noteq> Inside" and "p \<noteq> Inside" and "p \<noteq> Timed_asleep" and "p \<noteq> Timed_woken"
  shows "holder_inv (goto_place t p m s)"
  using assms by (simp add: holder_inv_def)

text \<open>While one thread owns the mutex no other thread is \<open>Inside\<close>.\<close>

lemma excl_only: "excl_inv s \<Longrightarrow> owning (place s t) \<Longrightarrow> owning (place s u) \<Longrightarrow> t = u"
  by (simp add: excl_inv_def) (metis option.inject)

lemma only_inside: "excl_inv s \<Longrightarrow> owning (place s t) \<Longrightarrow> u \<noteq> t \<Longrightarrow> place s u \<noteq> Inside"
  using excl_only [of s t u] by auto

lemma holder_enter:
  assumes "holder_inv s" and "excl_inv (goto_place t Inside m s)" and "holder m = t" and "place s t = Taken"
  shows "holder_inv (goto_place t Inside m s)"
proof -
  have "excl_inv s" using assms(1) by (simp add: holder_inv_def)
  from only_inside [OF this, of t] assms show ?thesis by (auto simp: holder_inv_def)
qed

lemma holder_exit:
  assumes "holder_inv s" and "excl_inv (goto_place t p m s)" and "holder m = 0" and "place s t = Inside"
    and "p \<noteq> Inside" and "p \<noteq> Timed_asleep" and "p \<noteq> Timed_woken"
  shows "holder_inv (goto_place t p m s)"
proof -
  have "excl_inv s" using assms(1) by (simp add: holder_inv_def)
  from only_inside [OF this, of t] assms show ?thesis by (auto simp: holder_inv_def)
qed

lemma holder_step: "mon_step timed s s' \<Longrightarrow> \<not> timed \<Longrightarrow> holder_inv s \<Longrightarrow> holder_inv s'"
proof (induction rule: mon_step.induct)
  case (ms_lock t s m)
  then show ?case using excl_step [OF mon_step.ms_lock [OF ms_lock.hyps]]
    by (intro holder_stay) (auto simp: holder_inv_def mutex_defs split: if_splits)
next
  case (ms_assign s t)
  then show ?case using excl_step [OF mon_step.ms_assign [OF ms_assign.hyps]]
    by (intro holder_enter) (auto simp: holder_inv_def mutex_defs)
next
  case (ms_unassign s t)
  then show ?case using excl_step [OF mon_step.ms_unassign [OF ms_unassign.hyps]]
    by (intro holder_exit) (auto simp: holder_inv_def mutex_defs)
next
  case (ms_unlock s t m)
  then show ?case using excl_step [OF mon_step.ms_unlock [OF ms_unlock.hyps]]
    by (intro holder_stay) (auto simp: holder_inv_def mutex_defs split: if_splits)
next
  case (ms_wait s t)
  then show ?case using excl_step [OF mon_step.ms_wait [OF ms_wait.hyps]]
    by (intro holder_exit) (auto simp: holder_inv_def mutex_defs)
next
  case (ms_sleep s t m)
  then show ?case using excl_step [OF mon_step.ms_sleep [OF ms_sleep.hyps]]
    by (intro holder_stay) (auto simp: holder_inv_def mutex_defs split: if_splits)
next
  case (ms_wake s t)
  then show ?case using excl_step [OF mon_step.ms_wake [OF ms_wake.hyps]]
    by (intro holder_stay) (auto simp: holder_inv_def)
next
  case (ms_retake s t m)
  then show ?case using excl_step [OF mon_step.ms_retake [OF ms_retake.hyps]]
    by (intro holder_stay) (auto simp: holder_inv_def mutex_defs split: if_splits)
qed (auto simp: holder_inv_def)

interpretation excl: invariant_system mon_init "mon_step timed" excl_inv for timed
  by unfold_locales (auto intro: excl_init excl_step)

interpretation held: invariant_system mon_init "mon_step False" holder_inv
  by unfold_locales (auto intro: holder_init holder_step)

lemma guarded_ok:
  assumes "owner m = None" and "\<And>m. owner m = Some self \<Longrightarrow> holder m = self \<Longrightarrow> body (m, s) = rbind r (\<lambda>s. Inr (m, s))"
  shows "guarded self body (m, s) = Some (rbind r (\<lambda>s. Inr (MutexLock_new, s)))"
proof -
  let ?m = "m\<lparr>owner := Some self, holder := self\<rparr>"
  have "mutex_acquire self m = Some ?m"
    using assms(1) by (simp add: mutex_acquire_def mutex_defs)
  moreover have "mutex_release self ?m = Inr MutexLock_new"
    by (cases m) (simp add: mutex_release_def mutex_defs MutexLock_new_def)
  moreover have "body (?m, s) = rbind r (\<lambda>s. Inr (?m, s))" by (rule assms(2)) simp_all
  ultimately show ?thesis by (cases r) (simp_all add: guarded_def)
qed

lemma timed_wait_gap:
  assumes inv: "excl_inv s" and t: "place s t = Inside" and u: "place s u = Outside_cs" "0 < u"
  shows "\<exists>s'. (mon_step True)\<^sup>*\<^sup>* s s' \<and> place s' t = Inside \<and> owner (mtx s') = Some t \<and> holder (mtx s') = 0"
proof -
  have own: "owner (mtx s) = Some t" using inv t by (simp add: excl_inv_def)
  have ne: "t \<noteq> u" using t u by auto
  obtain h where m: "mtx s = \<lparr>owner = Some t, holder = h\<rparr>" using own by (cases "mtx s") simp
  let ?s1 = "goto_place t Timed_asleep \<lparr>owner = None, holder = h\<rparr> s"
  let ?s2 = "goto_place u Taken \<lparr>owner = Some u, holder = h\<rparr> ?s1"
  let ?s3 = "goto_place u Inside \<lparr>owner = Some u, holder = u\<rparr> ?s2"
  let ?s4 = "goto_place u Leaving \<lparr>owner = Some u, holder = 0\<rparr> ?s3"
  let ?s5 = "goto_place u Outside_cs \<lparr>owner = None, holder = 0\<rparr> ?s4"
  let ?s6 = "goto_place t Timed_woken \<lparr>owner = None, holder = 0\<rparr> ?s5"
  let ?s7 = "goto_place t Inside \<lparr>owner = Some t, holder = 0\<rparr> ?s6"
  have 1: "mon_step True s ?s1" by (rule ms_timed_sleep) (simp_all add: t m mutex_defs)
  have 2: "mon_step True ?s1 ?s2" by (rule ms_lock) (simp_all add: u ne [symmetric] mutex_defs)
  have 3: "mon_step True ?s2 ?s3" using ms_assign [of ?s2 u True] by (simp add: mutex_defs)
  have 4: "mon_step True ?s3 ?s4" using ms_unassign [of ?s3 u True] by (simp add: mutex_defs)
  have 5: "mon_step True ?s4 ?s5" by (rule ms_unlock) (simp_all add: mutex_defs)
  have 6: "mon_step True ?s5 ?s6" using ms_timed_wake [of ?s5 t True] ne by simp
  have 7: "mon_step True ?s6 ?s7" by (rule ms_timed_retake) (simp_all add: mutex_defs)
  have "(mon_step True)\<^sup>*\<^sup>* s ?s7"
    by (rule converse_rtranclp_into_rtranclp, rule 1, rule converse_rtranclp_into_rtranclp, rule 2,
        rule converse_rtranclp_into_rtranclp, rule 3, rule converse_rtranclp_into_rtranclp, rule 4,
        rule converse_rtranclp_into_rtranclp, rule 5, rule converse_rtranclp_into_rtranclp, rule 6,
        rule r_into_rtranclp, rule 7)
  then show ?thesis by (intro exI [of _ ?s7]) simp
qed

section \<open>Waiting for a predicate\<close>

text \<open>
  The threads in \<open>while (!ready) cond.wait()\<close>: \<open>Sleeping\<close> in the wait, \<open>Awake\<close> after a signal or
  spuriously and about to test again, \<open>Passed\<close> behind the loop. \<open>ops s s' n\<close> is a critical section
  of some thread that turns the guarded state \<open>s\<close> into \<open>s'\<close> and then notifies as \<open>n\<close> says; only the
  threads in \<open>may\<close> enter the loop.
\<close>

datatype notice = Silent | Notify | Notify_all

datatype wplace = Away | Sleeping | Awake | Passed

record 's waiters =
  shared :: 's
  wat :: "tid \<Rightarrow> wplace"

definition wl_test :: "('s \<Rightarrow> bool) \<Rightarrow> tid \<Rightarrow> 's waiters \<Rightarrow> 's waiters" where
  "wl_test ready t w = w\<lparr>wat := (wat w)(t := (if ready (shared w) then Passed else Sleeping))\<rparr>"

definition wake_all :: "(tid \<Rightarrow> wplace) \<Rightarrow> tid \<Rightarrow> wplace" where
  "wake_all f t = (if f t = Sleeping then Awake else f t)"

inductive wl_step ::
  "('s \<Rightarrow> bool) \<Rightarrow> ('s \<Rightarrow> 's \<Rightarrow> notice \<Rightarrow> bool) \<Rightarrow> (tid \<Rightarrow> bool) \<Rightarrow> 's waiters \<Rightarrow> 's waiters \<Rightarrow> bool"
  for ready :: "'s \<Rightarrow> bool" and ops :: "'s \<Rightarrow> 's \<Rightarrow> notice \<Rightarrow> bool" and may :: "tid \<Rightarrow> bool" where
  wl_arrive: "may t \<Longrightarrow> wat w t = Away \<Longrightarrow> wl_step ready ops may w (wl_test ready t w)"
| wl_retest: "wat w t = Awake \<Longrightarrow> wl_step ready ops may w (wl_test ready t w)"
| wl_spurious: "wat w t = Sleeping \<Longrightarrow> wl_step ready ops may w (w\<lparr>wat := (wat w)(t := Awake)\<rparr>)"
| wl_silent: "ops (shared w) s' Silent \<Longrightarrow> wl_step ready ops may w (w\<lparr>shared := s'\<rparr>)"
| wl_notify: "ops (shared w) s' Notify \<Longrightarrow> wat w t = Sleeping \<Longrightarrow>
    wl_step ready ops may w (w\<lparr>shared := s', wat := (wat w)(t := Awake)\<rparr>)"
| wl_notify_none: "ops (shared w) s' Notify \<Longrightarrow> \<forall>t. wat w t \<noteq> Sleeping \<Longrightarrow>
    wl_step ready ops may w (w\<lparr>shared := s'\<rparr>)"
| wl_notify_all: "ops (shared w) s' Notify_all \<Longrightarrow>
    wl_step ready ops may w (w\<lparr>shared := s', wat := wake_all (wat w)\<rparr>)"

definition wl_init :: "('s \<Rightarrow> bool) \<Rightarrow> 's waiters \<Rightarrow> bool" where
  "wl_init start w \<longleftrightarrow> start (shared w) \<and> (\<forall>t. wat w t = Away)"

definition wl_inv :: "('s \<Rightarrow> bool) \<Rightarrow> (tid \<Rightarrow> bool) \<Rightarrow> 's waiters \<Rightarrow> bool" where
  "wl_inv ready may w \<longleftrightarrow> (\<forall>t. wat w t \<noteq> Away \<longrightarrow> may t) \<and>
     (ready (shared w) \<longrightarrow> (\<forall>t. wat w t \<noteq> Sleeping)) \<and> (\<forall>t. wat w t = Passed \<longrightarrow> ready (shared w))"

text \<open>
  The contract of the critical sections: what is ready stays ready, and the one that makes it ready
  wakes every thread that can be waiting.
\<close>

locale wait_loop =
  fixes ready :: "'s \<Rightarrow> bool" and ops :: "'s \<Rightarrow> 's \<Rightarrow> notice \<Rightarrow> bool" and may :: "tid \<Rightarrow> bool"
  assumes stays_ready: "ops s s' n \<Longrightarrow> ready s \<Longrightarrow> ready s'"
    and notifies: "ops s s' n \<Longrightarrow> \<not> ready s \<Longrightarrow> ready s' \<Longrightarrow>
      n = Notify_all \<or> n = Notify \<and> (\<forall>t u. may t \<longrightarrow> may u \<longrightarrow> t = u)"
begin

lemma inv_init: "wl_init start w \<Longrightarrow> wl_inv ready may w"
  by (simp add: wl_init_def wl_inv_def)

lemma inv_step: "wl_step ready ops may w w' \<Longrightarrow> wl_inv ready may w \<Longrightarrow> wl_inv ready may w'"
proof (induction rule: wl_step.induct)
  case (wl_notify w s' t)
  then have "may t" by (simp add: wl_inv_def)
  with wl_notify notifies [OF wl_notify.hyps(1)] show ?case
    by (auto simp: wl_inv_def intro: stays_ready)
qed (auto simp: wl_inv_def wl_test_def wake_all_def intro: stays_ready dest: notifies split: if_splits)

lemma reach_wl_inv: "reach (wl_init start) (wl_step ready ops may) w \<Longrightarrow> wl_inv ready may w"
  by (induction rule: reach.induct) (auto intro: inv_init inv_step)

lemma shared_inv:
  assumes "reach (wl_init start) (wl_step ready ops may) w" and "\<And>s. start s \<Longrightarrow> P s"
    and "\<And>s s' n. P s \<Longrightarrow> ops s s' n \<Longrightarrow> P s'"
  shows "P (shared w)"
  using assms(1)
proof (induction rule: reach.induct)
  case (reach_init w)
  then show ?case by (simp add: wl_init_def assms(2))
next
  case (reach_step w w')
  from reach_step.hyps(2) reach_step.IH show ?case
    by (induction rule: wl_step.induct) (auto simp: wl_test_def intro: assms(3))
qed

text \<open>Who is through the loop has seen the predicate, and once it holds nobody is left asleep.\<close>

lemma passed_ready: "reach (wl_init start) (wl_step ready ops may) w \<Longrightarrow> wat w t = Passed \<Longrightarrow> ready (shared w)"
  using reach_wl_inv by (auto simp: wl_inv_def)

lemma ready_returns:
  assumes "reach (wl_init start) (wl_step ready ops may) w" and "ready (shared w)" and "may t"
  shows "wat w t = Passed \<or> wat (wl_test ready t w) t = Passed \<and> wl_step ready ops may w (wl_test ready t w)"
proof -
  have "wat w t \<noteq> Sleeping" using reach_wl_inv [OF assms(1)] assms(2) by (simp add: wl_inv_def)
  moreover have "wat (wl_test ready t w) t = Passed" using assms(2) by (simp add: wl_test_def)
  ultimately show ?thesis
    using wl_arrive [of may t w ready ops] wl_retest [of w t ready ops may] assms(3) by (cases "wat w t") simp_all
qed

end

section \<open>Properties\<close>

text \<open>
  C34. Mutual exclusion, and the holder that MutexLock remembers: however threads interleave their
  locks, unlocks and waits, timed waits included, at most one is in the critical section, and it owns the pthread mutex. As
  long as no thread calls \<open>waitForSeconds\<close>, \<open>isLockedByThisThread\<close>
  also answers for every thread at every moment whether it is the one inside; with timed waits it does not, as \<open>timed_wait_loses_holder\<close> shows.
\<close>

theorem mutex_holder:
  assumes "reach mon_init (mon_step timed) s" and "0 < t"
  shows "(place s t = Inside \<longrightarrow> owner (mtx s) = Some t \<and> (\<forall>u. place s u = Inside \<longrightarrow> u = t)) \<and>
    (\<not> timed \<longrightarrow> (isLockedByThisThread t (mtx s) \<longleftrightarrow> place s t = Inside))"
proof (intro conjI impI allI)
  have e: "excl_inv s" by (rule excl.reach_inv [OF assms(1)])
  then show "owner (mtx s) = Some t" if "place s t = Inside" using that by (simp add: excl_inv_def)
  show "u = t" if "place s t = Inside" "place s u = Inside" for u using excl_only [OF e] that by auto
next
  assume "\<not> timed"
  then have "holder_inv s" using held.reach_inv [of s] assms(1) by simp
  then show "isLockedByThisThread t (mtx s) \<longleftrightarrow> place s t = Inside"
    using assms(2) by (simp add: holder_inv_def isLockedByThisThread_def)
qed

lemma one_inside:
  "reach mon_init (mon_step timed) (goto_place 7 Inside \<lparr>owner = Some 7, holder = 7\<rparr> \<lparr>mtx = MutexLock_new, place = \<lambda>_. Outside_cs\<rparr>)"
proof -
  let ?s0 = "\<lparr>mtx = MutexLock_new, place = \<lambda>_. Outside_cs\<rparr>"
  let ?s1 = "goto_place 7 Taken \<lparr>owner = Some 7, holder = 0\<rparr> ?s0"
  let ?s2 = "goto_place 7 Inside \<lparr>owner = Some 7, holder = 7\<rparr> ?s1"
  have "reach mon_init (mon_step timed) ?s0" by (rule reach_init) (simp add: mon_init_def)
  moreover have "mon_step timed ?s0 ?s1" by (rule ms_lock) (simp_all add: mutex_defs MutexLock_new_def)
  ultimately have "reach mon_init (mon_step timed) ?s1" by (rule reach_step)
  moreover have "mon_step timed ?s1 ?s2"
    using ms_assign [of ?s1 7 timed] by (simp add: mutex_defs)
  ultimately have "reach mon_init (mon_step timed) ?s2" by (rule reach_step)
  then show ?thesis by (simp add: goto_place_def)
qed

theorem mutex_holder_witness:
  "isLockedByThisThread 7 \<lparr>owner = Some 7, holder = 7\<rparr> \<and> \<not> isLockedByThisThread 8 \<lparr>owner = Some 7, holder = 7\<rparr>"
  using mutex_holder [OF one_inside [of False], of 7, THEN conjunct2] mutex_holder [OF one_inside [of False], of 8, THEN conjunct2] by simp

text \<open>
  With \<open>waitForSeconds\<close> the holder is wrong: whenever a thread is inside the critical section and
  another one is outside, a timed wait of the first during which the second locks and unlocks
  leaves the first inside, owning the mutex, with no holder recorded, so that its \<open>assertLocked\<close>
  aborts the process.
\<close>

theorem timed_wait_loses_holder:
  assumes "reach mon_init (mon_step True) s" and "place s t = Inside" and "place s u = Outside_cs" and "0 < u"
  shows "\<exists>s'. (mon_step True)\<^sup>*\<^sup>* s s' \<and> place s' t = Inside \<and> owner (mtx s') = Some t \<and>
    assertLocked t (mtx s') = Inl AssertFail"
proof -
  have inv: "excl_inv s" by (rule excl.reach_inv [OF assms(1)])
  then have "0 < t" using excl_pos [of s t] assms(2) by simp
  with timed_wait_gap [OF inv assms(2-4)] show ?thesis
    by (auto simp: assertLocked_def isLockedByThisThread_def)
qed

theorem timed_wait_loses_holder_witness:
  "\<exists>s. reach mon_init (mon_step True) s \<and> place s 7 = Inside \<and> assertLocked 7 (mtx s) = Inl AssertFail"
proof -
  let ?s = "goto_place 7 Inside \<lparr>owner = Some 7, holder = 7\<rparr> \<lparr>mtx = MutexLock_new, place = \<lambda>_. Outside_cs\<rparr>"
  from timed_wait_loses_holder [OF one_inside [of True], of 7 8] obtain s' where
    s': "(mon_step True)\<^sup>*\<^sup>* ?s s'" "place s' 7 = Inside" "assertLocked 7 (mtx s') = Inl AssertFail" by auto
  from s'(1) have "reach mon_init (mon_step True) s'"
    by (induction rule: rtranclp_induct) (auto intro: one_inside reach_step)
  with s' show ?thesis by blast
qed

end
