(* ===== verification/Latches.thy ===== *)
theory Latches
  imports Monitors
begin

text \<open>
  CountDownLatch (src/base/CountDownLatch.h, CountDownLatch.cpp): threads wait until a counter has
  been counted down to zero. Each operation is one critical section of the latch's mutex; \<open>wait\<close> is
  the waiting loop of Monitors for the counter.
\<close>

section \<open>Operations\<close>

record latch =
  count_of :: int

definition CountDownLatch_new :: "int \<Rightarrow> latch" where
  "CountDownLatch_new n = \<lparr>count_of = n\<rparr>"

text \<open>The condition under which \<open>wait\<close> returns.\<close>

definition latch_open :: "latch \<Rightarrow> bool" where
  "latch_open l \<longleftrightarrow> \<not> 0 < count_of l"

definition countDown_section :: "latch \<Rightarrow> (latch \<times> notice) result" where
  "countDown_section l =
     (let c = count_of l - 1 in
      if in_int32 c then Inr (l\<lparr>count_of := c\<rparr>, if c = 0 then Notify_all else Silent) else Inl Overflow)"

definition countDown :: "tid \<Rightarrow> mutex_lock \<times> latch \<Rightarrow> (mutex_lock \<times> latch) result option" where
  "countDown self = guarded self (\<lambda>(m, l). rbind (countDown_section l) (\<lambda>(l, _). Inr (m, l)))"

definition getCount :: "tid \<Rightarrow> mutex_lock \<times> latch \<Rightarrow> int result option" where
  "getCount self ml = map_option (\<lambda>r. rbind r (\<lambda>(m, l). Inr (count_of l))) (guarded self Inr ml)"

text \<open>
  One test of the loop in \<open>wait\<close>. The state that the mutex guards is paired with the number of
  calls of \<open>countDown\<close> so far; \<open>latch_ops\<close> are the critical sections on it.
\<close>

definition latch_wait :: "tid \<Rightarrow> (latch \<times> nat) waiters \<Rightarrow> (latch \<times> nat) waiters" where
  "latch_wait = wl_test (\<lambda>s. latch_open (fst s))"

definition latch_ops :: "latch \<times> nat \<Rightarrow> latch \<times> nat \<Rightarrow> notice \<Rightarrow> bool" where
  "latch_ops s s' n \<longleftrightarrow> countDown_section (fst s) = Inr (fst s', n) \<and> snd s' = snd s + 1"

definition latch_init :: "int \<Rightarrow> latch \<times> nat \<Rightarrow> bool" where
  "latch_init n s \<longleftrightarrow> s = (CountDownLatch_new n, 0)"

abbreviation latch_reach :: "int \<Rightarrow> (latch \<times> nat) waiters \<Rightarrow> bool" where
  "latch_reach n \<equiv> reach (wl_init (latch_init n)) (wl_step (\<lambda>s. latch_open (fst s)) latch_ops (\<lambda>_. True))"

section \<open>Lemmas\<close>

lemma countDown_section_Inr:
  "countDown_section l = Inr (l', n) \<longleftrightarrow>
   in_int32 (count_of l - 1) \<and> l' = l\<lparr>count_of := count_of l - 1\<rparr> \<and> n = (if count_of l = 1 then Notify_all else Silent)"
  by (auto simp: countDown_section_def Let_def)

interpretation latch: wait_loop "\<lambda>s. latch_open (fst s)" latch_ops "\<lambda>_. True"
  by unfold_locales (auto simp: latch_open_def latch_ops_def countDown_section_Inr)

lemma countDown_ok:
  assumes "owner m = None" and "in_int32 (count_of l - 1)"
  shows "countDown self (m, l) = Some (Inr (MutexLock_new, l\<lparr>count_of := count_of l - 1\<rparr>))"
proof -
  have "countDown self (m, l) = Some (rbind (rbind (countDown_section l) (\<lambda>(l, _). Inr l)) (\<lambda>s. Inr (MutexLock_new, s)))"
    unfolding countDown_def
    by (rule guarded_ok) (auto simp: assms(1) rbind_def split: sum.splits)
  then show ?thesis using assms(2) by (simp add: countDown_section_def Let_def)
qed

section \<open>Properties\<close>

text \<open>
  C35. The latch: however threads call \<open>wait\<close> and \<open>countDown\<close>, with signals and spurious wake-ups, the
  counter is the initial one minus the calls of \<open>countDown\<close>; a thread is through \<open>wait\<close> only after
  that many calls; and after them no thread is asleep in \<open>wait\<close>, and each one that calls it or is
  in it is through with its next test.
\<close>

theorem latch_opens:
  assumes "latch_reach n w"
  shows "count_of (fst (shared w)) = n - int (snd (shared w)) \<and>
    (wat w t = Passed \<longrightarrow> n \<le> int (snd (shared w))) \<and>
    (n \<le> int (snd (shared w)) \<longrightarrow> wat w t = Passed \<or> wat (latch_wait t w) t = Passed \<and>
      wl_step (\<lambda>s. latch_open (fst s)) latch_ops (\<lambda>_. True) w (latch_wait t w))"
proof (intro conjI)
  show count: "count_of (fst (shared w)) = n - int (snd (shared w))"
    by (rule latch.shared_inv [OF assms, of "\<lambda>s. count_of (fst s) = n - int (snd s)"])
      (auto simp: latch_init_def CountDownLatch_new_def latch_ops_def countDown_section_Inr)
  show "wat w t = Passed \<longrightarrow> n \<le> int (snd (shared w))"
    using latch.passed_ready [OF assms, of t] count by (auto simp: latch_open_def not_less)
  show "n \<le> int (snd (shared w)) \<longrightarrow> wat w t = Passed \<or> wat (latch_wait t w) t = Passed \<and>
      wl_step (\<lambda>s. latch_open (fst s)) latch_ops (\<lambda>_. True) w (latch_wait t w)"
    using latch.ready_returns [OF assms, of t] count by (simp add: latch_open_def latch_wait_def)
qed

text \<open>A latch of 1: thread 5 waits, thread 6 counts down, thread 5 is through with its next test.\<close>

theorem latch_opens_witness:
  "\<exists>w. latch_reach 1 w \<and> shared w = (\<lparr>count_of = 0\<rparr>, 1) \<and> wat w 5 = Awake \<and>
     wat (latch_wait 5 w) 5 = Passed"
proof -
  let ?w0 = "\<lparr>shared = (CountDownLatch_new 1, 0), wat = \<lambda>_. Away\<rparr> :: (latch \<times> nat) waiters"
  let ?w1 = "latch_wait 5 ?w0"
  let ?w2 = "(?w1 :: (latch \<times> nat) waiters)\<lparr>shared := (\<lparr>count_of = 0\<rparr>, 1), wat := wake_all (wat ?w1)\<rparr>"
  have "latch_reach 1 ?w0" by (rule reach_init) (simp add: wl_init_def latch_init_def)
  then have "latch_reach 1 ?w1" by (rule reach_step) (simp add: wl_arrive latch_wait_def)
  then have 2: "latch_reach 1 ?w2"
    by (rule reach_step, intro wl_notify_all)
      (simp add: latch_ops_def latch_wait_def wl_test_def countDown_section_Inr CountDownLatch_new_def in_int32_def)
  moreover have "wat ?w2 5 = Awake" by (simp add: latch_wait_def wl_test_def wake_all_def latch_open_def CountDownLatch_new_def)
  moreover have "wat (latch_wait 5 ?w2) 5 = Passed"
    using latch_opens [OF 2, of 5] calculation(2) by auto
  ultimately show ?thesis by (intro exI [of _ ?w2]) simp
qed

end
