(* ===== verification/Threads.thy ===== *)
theory Threads
  imports Monitors "HOL-Library.Multiset"
begin

text \<open>
  CurrentThread and Thread (src/base/CurrentThread.h, Thread.h, Thread.cpp): the thread-local data of
  a thread, and the object that starts, joins or detaches a pthread.

  A \<open>thread_world\<close> has the Thread objects at their addresses, the pthreads that were created and have
  not run yet, each with the pointer to its object that \<open>pthread_create\<close> was given, and the history of
  what was created, joined and detached. The answers of the system (the number of the thread, the
  result of \<open>pthread_create\<close>, how the thread function ends) are arguments.
\<close>

section \<open>Thread-local data\<close>

record current_thread =
  t_cachedTid :: tid
  t_tidString :: string
  t_tidStringLength :: nat
  t_threadName :: string

definition current_thread_init :: current_thread where
  "current_thread_init = \<lparr>t_cachedTid = 0, t_tidString = [], t_tidStringLength = 6, t_threadName = ''unknown''\<rparr>"

text \<open>\<open>"%5d "\<close>: at least five places, filled with spaces on the left.\<close>

definition pad5 :: "nat \<Rightarrow> string" where
  "pad5 n = replicate (5 - length (dec n)) (CHR '' '') @ dec n @ '' ''"

definition cacheTid :: "tid \<Rightarrow> current_thread \<Rightarrow> current_thread" where
  "cacheTid gettid c =
     (if t_cachedTid c = 0
      then c\<lparr>t_cachedTid := gettid, t_tidString := snprintf 32 (pad5 gettid), t_tidStringLength := length (pad5 gettid)\<rparr>
      else c)"

definition current_tid :: "tid \<Rightarrow> current_thread \<Rightarrow> tid \<times> current_thread" where
  "current_tid gettid c = (let c = (if t_cachedTid c = 0 then cacheTid gettid c else c) in (t_cachedTid c, c))"

definition tidString :: "current_thread \<Rightarrow> string" where
  "tidString c = t_tidString c"

definition tidStringLength :: "current_thread \<Rightarrow> nat" where
  "tidStringLength c = t_tidStringLength c"

definition threadName :: "current_thread \<Rightarrow> string" where
  "threadName c = t_threadName c"

definition isMainThread :: "tid \<Rightarrow> tid \<Rightarrow> current_thread \<Rightarrow> bool \<times> current_thread" where
  "isMainThread gettid pid c = (case current_tid gettid c of (t, c) \<Rightarrow> (t = pid, c))"

text \<open>The argument of \<open>nanosleep\<close>.\<close>

definition sleepUsec :: "int \<Rightarrow> timespec" where
  "sleepUsec usec =
     (let usecPersecond = 1000 * 1000
      in \<lparr>tv_sec = cdiv usec usecPersecond, tv_nsec = cmod usec usecPersecond * 1000\<rparr>)"

section \<open>Thread objects\<close>

record thread =
  started :: bool
  joined :: bool
  pthreadId :: nat
  thr_tid :: tid
  thr_name :: string

definition setDefaultName :: "tid \<Rightarrow> thread \<Rightarrow> thread" where
  "setDefaultName self th =
     (if thr_name th = [] then th\<lparr>thr_name := snprintf 32 (''Thread'' @ dec self)\<rparr> else th)"

definition Thread_new :: "tid \<Rightarrow> string \<Rightarrow> thread" where
  "Thread_new self name =
     setDefaultName self \<lparr>started = False, joined = False, pthreadId = 0, thr_tid = 0, thr_name = name\<rparr>"

text \<open>The pthread that the destructor detaches, if any.\<close>

definition Thread_dtor :: "thread \<Rightarrow> nat option" where
  "Thread_dtor th = (if started th \<and> \<not> joined th then Some (pthreadId th) else None)"

definition Thread_start :: "nat syscall \<Rightarrow> thread \<Rightarrow> thread result" where
  "Thread_start created th =
     assertC (\<not> started th)
       (case created of Ret i \<Rightarrow> Inr (th\<lparr>started := True, pthreadId := i\<rparr>) | Err _ \<Rightarrow> Inl Aborted)"

text \<open>The pthread that is joined, and the object.\<close>

definition Thread_join :: "thread \<Rightarrow> (nat \<times> thread) result" where
  "Thread_join th = assertC (started th) (assertC (\<not> joined th) (Inr (pthreadId th, th\<lparr>joined := True\<rparr>)))"

datatype ending = Returned | Std_exception | Other_exception

text \<open>A rethrown exception leaves the start function of the pthread, which terminates the process.\<close>

definition Thread_run :: "tid \<Rightarrow> ending \<Rightarrow> thread \<Rightarrow> current_thread \<Rightarrow> (thread \<times> current_thread) result" where
  "Thread_run gettid e th c =
     (case current_tid gettid c of (t, c) \<Rightarrow>
      let th = th\<lparr>thr_tid := t\<rparr>;
          c = c\<lparr>t_threadName := (if thr_name th = [] then ''DalinThread'' else thr_name th)\<rparr>
      in case e of
           Returned \<Rightarrow> Inr (th, c\<lparr>t_threadName := ''finished''\<rparr>)
         | Std_exception \<Rightarrow> Inl Aborted
         | Other_exception \<Rightarrow> Inl Aborted)"

section \<open>The threads of the process\<close>

record thread_world =
  objects :: "nat \<Rightarrow> thread option"
  unborn :: "(nat \<times> nat) list"
  created :: "nat multiset"
  reaped :: "nat multiset"

datatype thread_op =
    ThNew nat tid string
  | ThStart nat "nat syscall"
  | ThJoin nat
  | ThDelete nat
  | ThRun nat tid ending

definition with_thread :: "nat \<Rightarrow> (thread \<Rightarrow> 'b result) \<Rightarrow> thread_world \<Rightarrow> 'b result" where
  "with_thread a f w = (case objects w a of None \<Rightarrow> Inl Dangling | Some th \<Rightarrow> f th)"

definition put_thread :: "nat \<Rightarrow> thread \<Rightarrow> thread_world \<Rightarrow> thread_world" where
  "put_thread a th w = w\<lparr>objects := (objects w)(a \<mapsto> th)\<rparr>"

text \<open>\<open>Detail::startThread\<close>: the \<open>i\<close>-th pthread that has not run yet calls \<open>run\<close> on the object it was given.\<close>

definition startThread :: "nat \<Rightarrow> tid \<Rightarrow> ending \<Rightarrow> thread_world \<Rightarrow> thread_world result" where
  "startThread i gettid e w =
     (if i < length (unborn w)
      then (let a = snd (unborn w ! i); w = w\<lparr>unborn := take i (unborn w) @ drop (Suc i) (unborn w)\<rparr> in
            with_thread a (\<lambda>th. rbind (Thread_run gettid e th current_thread_init) (\<lambda>(th, _). Inr (put_thread a th w))) w)
      else Inr w)"

definition thread_do :: "thread_op \<Rightarrow> thread_world \<Rightarrow> thread_world result" where
  "thread_do op w = (case op of
       ThNew a self name \<Rightarrow> Inr (put_thread a (Thread_new self name) w)
     | ThStart a answer \<Rightarrow> with_thread a (\<lambda>th. rbind (Thread_start answer th) (\<lambda>th.
         Inr (put_thread a th w\<lparr>unborn := unborn w @ [(pthreadId th, a)], created := add_mset (pthreadId th) (created w)\<rparr>))) w
     | ThJoin a \<Rightarrow> with_thread a (\<lambda>th. rbind (Thread_join th) (\<lambda>(i, th).
         Inr (put_thread a th (w\<lparr>reaped := add_mset i (reaped w)\<rparr>)))) w
     | ThDelete a \<Rightarrow> with_thread a (\<lambda>th.
         Inr (w\<lparr>objects := (objects w)(a := None),
                reaped := (case Thread_dtor th of Some i \<Rightarrow> add_mset i (reaped w) | None \<Rightarrow> reaped w)\<rparr>)) w
     | ThRun i gettid e \<Rightarrow> startThread i gettid e w)"

definition thread_init :: "thread_world \<Rightarrow> bool" where
  "thread_init w \<longleftrightarrow> objects w = Map.empty \<and> unborn w = [] \<and> created w = {#} \<and> reaped w = {#}"

text \<open>A new object is at a free address.\<close>

definition thread_step :: "thread_world \<Rightarrow> thread_world \<Rightarrow> bool" where
  "thread_step w w' \<longleftrightarrow> (\<exists>op. (case op of ThNew a _ _ \<Rightarrow> objects w a = None | _ \<Rightarrow> True) \<and> thread_do op w = Inr w')"

section \<open>The thread-local data\<close>

lemma current_tid_eq: "0 < gettid \<Longrightarrow> t_cachedTid c \<in> {0, gettid} \<Longrightarrow> fst (current_tid gettid c) = gettid"
  by (auto simp: current_tid_def cacheTid_def)

lemma current_tid_again:
  "0 < gettid \<Longrightarrow> current_tid gettid' (snd (current_tid gettid c)) = (fst (current_tid gettid c), snd (current_tid gettid c))"
  by (simp add: current_tid_def cacheTid_def Let_def)

lemma length_pad5: "n < 10 ^ 5 \<Longrightarrow> length (pad5 n) = 6"
  using length_dec [of n 4] by (simp add: pad5_def)

lemma tidString_whole: "length (pad5 gettid) < 32 \<Longrightarrow>
    tidString (cacheTid gettid current_thread_init) = pad5 gettid \<or> gettid = 0"
  by (simp add: tidString_def cacheTid_def current_thread_init_def snprintf_def)

lemma sleepUsec_normalised:
  assumes "0 \<le> usec"
  shows "0 \<le> tv_sec (sleepUsec usec) \<and> 0 \<le> tv_nsec (sleepUsec usec) \<and> tv_nsec (sleepUsec usec) < kNanoSecondPerSecond \<and>
    tv_sec (sleepUsec usec) * kNanoSecondPerSecond + tv_nsec (sleepUsec usec) = usec * 1000"
proof -
  have "usec div 1000000 * 1000000000 + usec mod 1000000 * 1000 = (usec div 1000000 * 1000000 + usec mod 1000000) * 1000"
    by (simp only: distrib_right)
  also have "\<dots> = usec * 1000" by simp
  finally show ?thesis
    using assms pos_mod_bound [of 1000000 usec]
    by (simp add: sleepUsec_def cdiv_nonneg cmod_nonneg kNanoSecondPerSecond_def pos_imp_zdiv_nonneg_iff)
qed

section \<open>Joined or detached\<close>

text \<open>The values of a finite map, with repetitions.\<close>

definition values_mset :: "(nat \<Rightarrow> 'b option) \<Rightarrow> 'b multiset" where
  "values_mset m = image_mset (\<lambda>a. the (m a)) (mset_set (dom m))"

lemma values_empty [simp]: "values_mset Map.empty = {#}"
  by (simp add: values_mset_def)

lemma values_put: "finite (dom m) \<Longrightarrow> m a = None \<Longrightarrow> values_mset (m(a \<mapsto> x)) = add_mset x (values_mset m)"
  by (auto simp: values_mset_def domIff intro!: image_mset_cong)

lemma values_del: "finite (dom m) \<Longrightarrow> m a = Some x \<Longrightarrow> add_mset x (values_mset (m(a := None))) = values_mset m"
  using values_put [of "m(a := None)" a x] by (simp add: fun_upd_idem)

text \<open>What the destructors of the present objects would detach.\<close>

definition owed :: "thread_world \<Rightarrow> nat \<Rightarrow> nat option" where
  "owed w a = (case objects w a of None \<Rightarrow> None | Some th \<Rightarrow> Thread_dtor th)"

definition thread_inv :: "thread_world \<Rightarrow> bool" where
  "thread_inv w \<longleftrightarrow> finite (dom (owed w)) \<and> created w = reaped w + values_mset (owed w) \<and>
     (\<forall>a th. objects w a = Some th \<longrightarrow> joined th \<longrightarrow> started th)"

lemma owed_put: "owed (put_thread a th w) = (owed w)(a := Thread_dtor th)"
  by (auto simp: owed_def put_thread_def)

lemma owed_frames [simp]:
  "owed (w\<lparr>unborn := us\<rparr>) = owed w" "owed (w\<lparr>created := cs\<rparr>) = owed w" "owed (w\<lparr>reaped := rs\<rparr>) = owed w"
  by (auto simp: owed_def)

lemma put_thread_frames [simp]:
  "objects (put_thread a th w) = (objects w)(a \<mapsto> th)" "created (put_thread a th w) = created w"
  "reaped (put_thread a th w) = reaped w" "unborn (put_thread a th w) = unborn w"
  by (simp_all add: put_thread_def)

lemma owed_same: "objects w a = Some th \<Longrightarrow> Thread_dtor th' = Thread_dtor th \<Longrightarrow> owed (put_thread a th' w) = owed w"
  by (auto simp: owed_put owed_def)

lemma Thread_new_idle: "\<not> started (Thread_new t n)" "\<not> joined (Thread_new t n)"
  by (simp_all add: Thread_new_def setDefaultName_def)

lemma Thread_run_Inr: "Thread_run g e th c = Inr (th', c') \<Longrightarrow>
    started th' = started th \<and> joined th' = joined th \<and> pthreadId th' = pthreadId th \<and> thr_tid th' = fst (current_tid g c)"
  by (auto simp: Thread_run_def Let_def split: prod.splits ending.splits)

lemma thread_step_inv: "thread_step w w' \<Longrightarrow> thread_inv w \<Longrightarrow> thread_inv w'"
proof -
  assume "thread_step w w'" and inv: "thread_inv w"
  then obtain op where op: "case op of ThNew a _ _ \<Rightarrow> objects w a = None | _ \<Rightarrow> True" "thread_do op w = Inr w'"
    by (auto simp: thread_step_def)
  from inv have fin: "finite (dom (owed w))" and eq: "created w = reaped w + values_mset (owed w)"
    and js: "\<And>a th. objects w a = Some th \<Longrightarrow> joined th \<Longrightarrow> started th" by (auto simp: thread_inv_def)
  show "thread_inv w'"
  proof (cases op)
    case (ThNew a self name)
    with op have w': "w' = put_thread a (Thread_new self name) w" and "objects w a = None"
      by (simp_all add: thread_do_def)
    then have "owed w' = owed w"
      by (auto simp: owed_put owed_def Thread_dtor_def Thread_new_idle)
    then show ?thesis using w' fin eq js by (auto simp: thread_inv_def Thread_new_idle)
  next
    case (ThStart a answer)
    with op(2) obtain th i where th: "objects w a = Some th" "\<not> started th" "answer = Ret i"
      and w': "w' = put_thread a (th\<lparr>started := True, pthreadId := i\<rparr>)
          (w\<lparr>unborn := unborn w @ [(i, a)], created := add_mset i (created w)\<rparr>)"
      by (auto simp: thread_do_def with_thread_def Thread_start_def result_simps split: option.splits syscall.splits)
    have "\<not> joined th" using js [OF th(1)] th(2) by blast
    then have "owed w' = (owed w)(a \<mapsto> i)" using w' by (simp add: owed_put Thread_dtor_def)
    moreover have "owed w a = None" using th by (simp add: owed_def Thread_dtor_def)
    ultimately show ?thesis using w' fin eq js by (auto simp: thread_inv_def values_put)
  next
    case (ThJoin a)
    with op(2) obtain th where th: "objects w a = Some th" "started th" "\<not> joined th"
      and w': "w' = put_thread a (th\<lparr>joined := True\<rparr>) (w\<lparr>reaped := add_mset (pthreadId th) (reaped w)\<rparr>)"
      by (auto simp: thread_do_def with_thread_def Thread_join_def result_simps split: option.splits)
    have "owed w' = (owed w)(a := None)" using w' by (simp add: owed_put Thread_dtor_def)
    moreover have "owed w a = Some (pthreadId th)" using th by (simp add: owed_def Thread_dtor_def)
    ultimately show ?thesis using w' fin eq js th(2) values_del [OF fin] by (auto simp: thread_inv_def)
  next
    case (ThDelete a)
    with op(2) obtain th where th: "objects w a = Some th"
      and w': "w' = w\<lparr>objects := (objects w)(a := None),
          reaped := (case Thread_dtor th of Some i \<Rightarrow> add_mset i (reaped w) | None \<Rightarrow> reaped w)\<rparr>"
      by (auto simp: thread_do_def with_thread_def split: option.splits)
    have o: "owed w' = (owed w)(a := None)" using w' by (auto simp: owed_def)
    have a: "owed w a = Thread_dtor th" using th by (simp add: owed_def)
    show ?thesis
    proof (cases "Thread_dtor th")
      case None
      then show ?thesis using o a w' fin eq js by (auto simp: thread_inv_def fun_upd_idem)
    next
      case (Some i)
      then show ?thesis using o a w' fin eq js values_del [OF fin, of a i] by (auto simp: thread_inv_def)
    qed
  next
    case (ThRun i gettid e)
    show ?thesis
    proof (cases "i < length (unborn w)")
      case False
      then show ?thesis using ThRun op(2) inv by (simp add: thread_do_def startThread_def)
    next
      case True
      let ?v = "w\<lparr>unborn := take i (unborn w) @ drop (Suc i) (unborn w)\<rparr>"
      from True ThRun op(2) obtain a th th' c where th: "objects w a = Some th"
        and r: "Thread_run gettid e th current_thread_init = Inr (th', c)" and w': "w' = put_thread a th' ?v"
        by (auto simp: thread_do_def startThread_def with_thread_def Let_def result_simps split: option.splits)
      have "Thread_dtor th' = Thread_dtor th" using Thread_run_Inr [OF r] by (simp add: Thread_dtor_def)
      then have "owed w' = owed w" using w' owed_same [of ?v a th th'] th by simp
      then show ?thesis using w' fin eq js th Thread_run_Inr [OF r] by (auto simp: thread_inv_def)
    qed
  qed
qed

lemma thread_init_inv: "thread_init w \<Longrightarrow> thread_inv w"
proof -
  assume "thread_init w"
  moreover from this have "owed w = Map.empty" by (auto simp: thread_init_def owed_def)
  ultimately show ?thesis by (simp add: thread_inv_def thread_init_def)
qed

interpretation threads: invariant_system thread_init thread_step thread_inv
  by unfold_locales (auto intro: thread_init_inv thread_step_inv)

section \<open>Properties\<close>

text \<open>
  C38. No pthread is lost and none is joined or detached twice: in every run of the operations on
  Thread objects that does not fault, the pthreads created are exactly those that were joined or
  detached, each once, and those whose object is still there, started and not joined. When all
  objects are gone, every pthread has been joined or detached.
\<close>

theorem threads_reaped:
  assumes "reach thread_init thread_step w"
  shows "created w = reaped w + values_mset (owed w) \<and> (objects w = Map.empty \<longrightarrow> created w = reaped w)"
proof -
  have "created w = reaped w + values_mset (owed w)"
    using threads.reach_inv [OF assms] by (simp add: thread_inv_def)
  moreover have "objects w = Map.empty \<Longrightarrow> owed w = Map.empty" by (auto simp: owed_def)
  ultimately show ?thesis by auto
qed

theorem threads_reaped_witness:
  "\<exists>w. reach thread_init thread_step w \<and> objects w 16 = None \<and> created w = {#5#} \<and> reaped w = {#5#}"
proof -
  let ?w0 = "\<lparr>objects = Map.empty, unborn = [], created = {#}, reaped = {#}\<rparr>"
  let ?th = "Thread_new 9 ''worker''"
  let ?w1 = "put_thread 16 ?th ?w0"
  let ?w2 = "put_thread 16 (?th\<lparr>started := True, pthreadId := 5\<rparr>) (?w1\<lparr>unborn := [(5, 16)], created := {#5#}\<rparr>)"
  let ?w3 = "?w2\<lparr>objects := (objects ?w2)(16 := None), reaped := {#5#}\<rparr>"
  have "reach thread_init thread_step ?w0" by (rule reach_init) (simp add: thread_init_def)
  moreover have "thread_step ?w0 ?w1"
    unfolding thread_step_def by (rule exI [of _ "ThNew 16 9 ''worker''"]) (simp add: thread_do_def)
  moreover have "thread_step ?w1 ?w2"
    unfolding thread_step_def by (rule exI [of _ "ThStart 16 (Ret 5)"])
      (simp add: thread_do_def with_thread_def Thread_start_def Thread_new_idle)
  moreover have "thread_step ?w2 ?w3"
    unfolding thread_step_def by (rule exI [of _ "ThDelete 16"])
      (simp add: thread_do_def with_thread_def Thread_dtor_def Thread_new_idle)
  ultimately have r: "reach thread_init thread_step ?w3" by (meson reach_step)
  have "objects ?w3 = Map.empty" by simp
  with threads_reaped [OF r] have "created ?w3 = reaped ?w3" by blast
  with r show ?thesis by (intro exI [of _ ?w3]) simp
qed

text \<open>
  A thread outlives its object: \<open>start\<close> gives the new pthread a pointer to the Thread, and the
  destructor only detaches the pthread. If the object is destroyed before the pthread has begun,
  the pthread uses a dead object.
\<close>

theorem detached_thread_dangles:
  assumes "objects w a = Some th" and "\<not> started th"
  shows "\<exists>w1 w2. thread_do (ThStart a (Ret i)) w = Inr w1 \<and> thread_do (ThDelete a) w1 = Inr w2 \<and>
    (\<not> joined th \<longrightarrow> reaped w2 = add_mset i (reaped w)) \<and>
    thread_do (ThRun (length (unborn w)) gettid e) w2 = Inl Dangling"
  using assms
  by (simp add: thread_do_def with_thread_def Thread_start_def Thread_dtor_def startThread_def nth_append)

theorem detached_thread_dangles_witness:
  "\<exists>w1 w2. thread_do (ThStart 16 (Ret 5)) \<lparr>objects = [16 \<mapsto> Thread_new 9 ''worker''], unborn = [], created = {#}, reaped = {#}\<rparr> = Inr w1 \<and>
     thread_do (ThDelete 16) w1 = Inr w2 \<and> reaped w2 = {#5#} \<and> thread_do (ThRun 0 12 Returned) w2 = Inl Dangling"
proof -
  let ?w = "\<lparr>objects = [16 \<mapsto> Thread_new 9 ''worker''], unborn = [], created = {#}, reaped = {#}\<rparr>"
  have "objects ?w 16 = Some (Thread_new 9 ''worker'')" by simp
  from detached_thread_dangles [OF this Thread_new_idle(1), of 5 12 Returned] show ?thesis
    by (auto simp: Thread_new_idle)
qed

end
