(* ===== verification/Thread_Pool.thy ===== *)
theory Thread_Pool
  imports Threads
begin

text \<open>
  ThreadPool (src/base/ThreadPool.h, ThreadPool.cpp): worker threads that take tasks from a queue,
  which may be bounded.

  The first part has the operations on the pool; a critical section that ends in a wait of the
  thread gives \<open>None\<close>. The second part is the interleaving of the workers, of any number of threads
  that call \<open>addTask\<close>, and of \<open>stop\<close>: a state counts the threads at each place, and its steps are the
  critical sections, which Pool\_Threads shows to stand for the steps of the single threads, the unlocked reads of \<open>running_\<close>,
  the wake-ups (also spurious ones) and the ends of tasks. Tasks are values of any type. A task that calls \<open>addTask\<close>
  itself is counted twice, as a task and as a producer, and may end here while that call goes on: the system allows more
  than the threads do, so that what it never reaches they never reach; what they do reach is stated in Pool\_Threads.
\<close>

section \<open>The pool\<close>

record 't tpool =
  pool_name :: string
  init_callback :: bool
  threads_of :: "string list"
  taskQueue :: "'t list"
  maxQueueSize :: size_t
  running :: bool

definition ThreadPool_new :: "string \<Rightarrow> 't tpool" where
  "ThreadPool_new name = \<lparr>pool_name = name, init_callback = False, threads_of = [], taskQueue = [],
     maxQueueSize = 0, running = False\<rparr>"

definition setMaxQueueSize :: "int \<Rightarrow> 't tpool \<Rightarrow> 't tpool" where
  "setMaxQueueSize maxSize p = p\<lparr>maxQueueSize := word_of_int maxSize\<rparr>"

definition setThreadInitCallback :: "'t tpool \<Rightarrow> 't tpool" where
  "setThreadInitCallback p = p\<lparr>init_callback := True\<rparr>"

definition thread_names :: "string \<Rightarrow> nat \<Rightarrow> string list" where
  "thread_names name n = map (\<lambda>i. name @ snprintf 32 (dec (i + 1))) [0..<n]"

text \<open>
  \<open>start\<close>, and whether it calls the callback of the threads itself. A negative number is converted
  to a huge capacity by \<open>reserve\<close>.
\<close>

definition ThreadPool_start :: "int \<Rightarrow> 't tpool \<Rightarrow> (bool \<times> 't tpool) result" where
  "ThreadPool_start numThreads p =
     assertC (threads_of p = [])
       (let p = p\<lparr>running := True\<rparr> in
        if numThreads < 0 then Inl LengthError
        else Inr (numThreads = 0 \<and> init_callback p, p\<lparr>threads_of := thread_names (pool_name p) (nat numThreads)\<rparr>))"

definition queue_full :: "'t tpool \<Rightarrow> bool" where
  "queue_full p \<longleftrightarrow> 0 < maxQueueSize p \<and> unat (maxQueueSize p) \<le> length (taskQueue p)"

definition isFull :: "tid \<Rightarrow> mutex_lock \<Rightarrow> 't tpool \<Rightarrow> bool result" where
  "isFull self m p = rbind (assertLocked self m) (\<lambda>_. Inr (queue_full p))"

definition queueSize :: "tid \<Rightarrow> mutex_lock \<times> 't tpool \<Rightarrow> nat result option" where
  "queueSize self mp = map_option (\<lambda>r. rbind r (\<lambda>(m, p). Inr (length (taskQueue p)))) (guarded self Inr mp)"

text \<open>
  One test of the loop in \<open>addTask\<close> by a thread that holds the mutex, and what follows when it ends;
  the task is \<open>Inr None\<close> if the thread has to wait.
\<close>

definition addTask_section :: "tid \<Rightarrow> mutex_lock \<Rightarrow> 't \<Rightarrow> 't tpool \<Rightarrow> 't tpool option result" where
  "addTask_section self m task p =
     rbind (isFull self m p) (\<lambda>full.
     if full then Inr None
     else rbind (isFull self m p) (\<lambda>full. assertC (\<not> full) (Inr (Some (p\<lparr>taskQueue := taskQueue p @ [task]\<rparr>)))))"

text \<open>The same for \<open>takeTask\<close>: the task, the pool and whether \<open>notFull_\<close> is notified.\<close>

definition takeTask_section :: "'t tpool \<Rightarrow> ('t option \<times> 't tpool \<times> notice) option" where
  "takeTask_section p =
     (if taskQueue p = [] \<and> running p then None
      else Some (case taskQueue p of
          [] \<Rightarrow> (None, p, Silent)
        | task # rest \<Rightarrow> (Some task, p\<lparr>taskQueue := rest\<rparr>, if 0 < maxQueueSize p then Notify else Silent)))"

definition stop_section :: "'t tpool \<Rightarrow> 't tpool" where
  "stop_section p = p\<lparr>running := False\<rparr>"

definition ThreadPool_dtor :: "'t tpool \<Rightarrow> 't tpool" where
  "ThreadPool_dtor p = (if running p then stop_section p else p)"

text \<open>How a worker's loop is left when a task, or the callback of the threads, ends with an exception.\<close>

definition runInThread_end :: "ending \<Rightarrow> unit result" where
  "runInThread_end e = (case e of Returned \<Rightarrow> Inr () | Std_exception \<Rightarrow> Inl Aborted | Other_exception \<Rightarrow> Inl Aborted)"

section \<open>Workers, producers and stop\<close>

text \<open>
  The workers: before their loop, at the test of \<open>running_\<close>, in \<open>takeTask\<close> before a test of its
  loop, asleep on \<open>notEmpty_\<close>, in a task, and through the loop. The producers: in \<open>addTask\<close> before a
  test of its loop (\<open>adding\<close>), and asleep on \<open>notFull_\<close> (\<open>blocked\<close>), each with its task. The last
  fields are the history: the tasks added, taken and executed.
\<close>

record 't pool_sys =
  pool :: "'t tpool"
  starting :: nat
  at_test :: nat
  taking :: nat
  sleeping :: nat
  busy :: "'t multiset"
  finished :: nat
  adding :: "'t multiset"
  blocked :: "'t multiset"
  added :: "'t list"
  taken :: "'t list"
  executed :: "'t multiset"

text \<open>\<open>notEmpty_.notify()\<close> wakes one worker if any is asleep.\<close>

definition notify_worker :: "'t pool_sys \<Rightarrow> 't pool_sys" where
  "notify_worker s = (if 0 < sleeping s then s\<lparr>sleeping := sleeping s - 1, taking := taking s + 1\<rparr> else s)"

definition notify_workers :: "'t pool_sys \<Rightarrow> 't pool_sys" where
  "notify_workers s = s\<lparr>taking := taking s + sleeping s, sleeping := 0\<rparr>"

text \<open>A producer with task \<open>y\<close> is woken from its wait.\<close>

definition wake_producer :: "'t \<Rightarrow> 't pool_sys \<Rightarrow> 't pool_sys" where
  "wake_producer y s = s\<lparr>blocked := blocked s - {#y#}, adding := add_mset y (adding s)\<rparr>"

text \<open>The mutex, held by the thread that runs a critical section.\<close>

abbreviation locked :: "tid \<Rightarrow> mutex_lock" where
  "locked self \<equiv> \<lparr>owner = Some self, holder = self\<rparr>"

inductive pool_step :: "'t pool_sys \<Rightarrow> 't pool_sys \<Rightarrow> bool" where
  ps_direct: "threads_of (pool s) = [] \<Longrightarrow> pool_step s (s\<lparr>executed := add_mset x (executed s)\<rparr>)"
| ps_call: "threads_of (pool s) \<noteq> [] \<Longrightarrow> pool_step s (s\<lparr>adding := add_mset x (adding s)\<rparr>)"
| ps_block: "x \<in># adding s \<Longrightarrow> addTask_section self (locked self) x (pool s) = Inr None \<Longrightarrow>
    pool_step s (s\<lparr>adding := adding s - {#x#}, blocked := add_mset x (blocked s)\<rparr>)"
| ps_add: "x \<in># adding s \<Longrightarrow> addTask_section self (locked self) x (pool s) = Inr (Some p) \<Longrightarrow>
    pool_step s (notify_worker (s\<lparr>pool := p, adding := adding s - {#x#}, added := added s @ [x]\<rparr>))"
| ps_spurious_producer: "y \<in># blocked s \<Longrightarrow> pool_step s (wake_producer y s)"
| ps_started: "0 < starting s \<Longrightarrow> pool_step s (s\<lparr>starting := starting s - 1, at_test := at_test s + 1\<rparr>)"
| ps_run: "0 < at_test s \<Longrightarrow> running (pool s) \<Longrightarrow>
    pool_step s (s\<lparr>at_test := at_test s - 1, taking := taking s + 1\<rparr>)"
| ps_exit: "0 < at_test s \<Longrightarrow> \<not> running (pool s) \<Longrightarrow>
    pool_step s (s\<lparr>at_test := at_test s - 1, finished := finished s + 1\<rparr>)"
| ps_sleep: "0 < taking s \<Longrightarrow> takeTask_section (pool s) = None \<Longrightarrow>
    pool_step s (s\<lparr>taking := taking s - 1, sleeping := sleeping s + 1\<rparr>)"
| ps_no_task: "0 < taking s \<Longrightarrow> takeTask_section (pool s) = Some (None, p, n) \<Longrightarrow>
    pool_step s (s\<lparr>pool := p, taking := taking s - 1, at_test := at_test s + 1\<rparr>)"
| ps_take: "0 < taking s \<Longrightarrow> takeTask_section (pool s) = Some (Some x, p, n) \<Longrightarrow> n = Silent \<or> blocked s = {#} \<Longrightarrow>
    pool_step s (s\<lparr>pool := p, taking := taking s - 1, busy := add_mset x (busy s), taken := taken s @ [x]\<rparr>)"
| ps_take_notify: "0 < taking s \<Longrightarrow> takeTask_section (pool s) = Some (Some x, p, Notify) \<Longrightarrow> y \<in># blocked s \<Longrightarrow>
    pool_step s (wake_producer y (s\<lparr>pool := p, taking := taking s - 1, busy := add_mset x (busy s), taken := taken s @ [x]\<rparr>))"
| ps_done: "x \<in># busy s \<Longrightarrow> runInThread_end e = Inr () \<Longrightarrow>
    pool_step s (s\<lparr>busy := busy s - {#x#}, executed := add_mset x (executed s), at_test := at_test s + 1\<rparr>)"
| ps_spurious_worker: "0 < sleeping s \<Longrightarrow> pool_step s (s\<lparr>sleeping := sleeping s - 1, taking := taking s + 1\<rparr>)"
| ps_stop: "pool_step s (notify_workers (s\<lparr>pool := stop_section (pool s)\<rparr>))"

definition pool_init :: "'t pool_sys \<Rightarrow> bool" where
  "pool_init s \<longleftrightarrow> (\<exists>name mx cb n c. ThreadPool_start n ((ThreadPool_new name)\<lparr>maxQueueSize := mx, init_callback := cb\<rparr>) = Inr (c, pool s)) \<and>
     starting s = length (threads_of (pool s)) \<and> at_test s = 0 \<and> taking s = 0 \<and> sleeping s = 0 \<and> busy s = {#} \<and>
     finished s = 0 \<and> adding s = {#} \<and> blocked s = {#} \<and> added s = [] \<and> taken s = [] \<and> executed s = {#}"

section \<open>Invariants\<close>

lemma locked_ok [simp]: "isFull self (locked self) p = Inr (queue_full p)"
  by (simp add: isFull_def assertLocked_def isLockedByThisThread_def)

lemma addTask_section_eq:
  "addTask_section self (locked self) x p = Inr (if queue_full p then None else Some (p\<lparr>taskQueue := taskQueue p @ [x]\<rparr>))"
  by (simp add: addTask_section_def)

lemma takeTask_None: "takeTask_section p = None \<longleftrightarrow> taskQueue p = [] \<and> running p"
  by (simp add: takeTask_section_def)

lemma takeTask_empty: "takeTask_section p = Some (None, p', n) \<longleftrightarrow> taskQueue p = [] \<and> \<not> running p \<and> p' = p \<and> n = Silent"
  by (auto simp: takeTask_section_def split: list.splits)

lemma takeTask_Some: "takeTask_section p = Some (Some x, p', n) \<longleftrightarrow>
    (\<exists>xs. taskQueue p = x # xs \<and> p' = p\<lparr>taskQueue := xs\<rparr>) \<and> n = (if 0 < maxQueueSize p then Notify else Silent)"
  by (auto simp: takeTask_section_def split: list.splits)

lemmas section_simps = addTask_section_eq takeTask_None takeTask_empty takeTask_Some

text \<open>Every task is taken once, in the order of addition, and the queue keeps its bound.\<close>

definition task_inv :: "'t pool_sys \<Rightarrow> bool" where
  "task_inv s \<longleftrightarrow> added s = taken s @ taskQueue (pool s) \<and>
     (threads_of (pool s) \<noteq> [] \<longrightarrow> mset (taken s) = busy s + executed s) \<and>
     (threads_of (pool s) = [] \<longrightarrow> adding s = {#} \<and> added s = [] \<and> blocked s = {#}) \<and>
     (0 < maxQueueSize (pool s) \<longrightarrow> length (taskQueue (pool s)) \<le> unat (maxQueueSize (pool s)))"

definition worker_inv :: "'t pool_sys \<Rightarrow> bool" where
  "worker_inv s \<longleftrightarrow> starting s + at_test s + taking s + sleeping s + size (busy s) + finished s = length (threads_of (pool s)) \<and>
     (finished s \<noteq> 0 \<longrightarrow> \<not> running (pool s))"

text \<open>
  No signal is lost: while a worker is asleep there are at least as many workers about to take as
  tasks in the queue, and while a producer is asleep at least as many about to add as free places.
\<close>

definition signal_inv :: "'t pool_sys \<Rightarrow> bool" where
  "signal_inv s \<longleftrightarrow> (0 < sleeping s \<longrightarrow> length (taskQueue (pool s)) \<le> taking s \<and> running (pool s)) \<and>
     (blocked s \<noteq> {#} \<longrightarrow> 0 < maxQueueSize (pool s) \<and>
        unat (maxQueueSize (pool s)) \<le> length (taskQueue (pool s)) + size (adding s))"

lemma notify_worker_frames [simp]:
  "pool (notify_worker s) = pool s" "busy (notify_worker s) = busy s" "adding (notify_worker s) = adding s"
  "blocked (notify_worker s) = blocked s" "added (notify_worker s) = added s" "taken (notify_worker s) = taken s"
  "executed (notify_worker s) = executed s" "starting (notify_worker s) = starting s"
  "at_test (notify_worker s) = at_test s" "finished (notify_worker s) = finished s"
  "taking (notify_worker s) + sleeping (notify_worker s) = taking s + sleeping s"
  by (simp_all add: notify_worker_def)

lemmas wake_simps = notify_workers_def wake_producer_def stop_section_def

lemma start_Inr:
  "ThreadPool_start n p = Inr (c, p') \<Longrightarrow> p' = p\<lparr>running := True, threads_of := thread_names (pool_name p) (nat n)\<rparr>"
  by (auto simp: ThreadPool_start_def Let_def result_simps split: if_splits)

lemma pool_initD:
  assumes "pool_init s"
  shows "taskQueue (pool s) = []" "running (pool s)" "starting s = length (threads_of (pool s))" "at_test s = 0"
    "taking s = 0" "sleeping s = 0" "busy s = {#}" "finished s = 0" "adding s = {#}" "blocked s = {#}"
    "added s = []" "taken s = []" "executed s = {#}"
  using assms by (auto simp: pool_init_def ThreadPool_new_def dest!: start_Inr)

lemma pool_init_inv: "pool_init s \<Longrightarrow> task_inv s \<and> worker_inv s \<and> signal_inv s"
  by (simp add: task_inv_def worker_inv_def signal_inv_def pool_initD)

lemma task_step: "pool_step s s' \<Longrightarrow> task_inv s \<Longrightarrow> worker_inv s \<Longrightarrow> task_inv s'"
proof (induction rule: pool_step.induct)
  case (ps_add x s self p)
  then show ?case by (auto simp: task_inv_def section_simps queue_full_def split: if_splits)
next
  case (ps_take s x p n)
  then show ?case by (auto simp: task_inv_def section_simps worker_inv_def)
next
  case (ps_take_notify s x p y)
  then show ?case by (auto simp: task_inv_def section_simps wake_simps worker_inv_def)
next
  case (ps_done x s e)
  then show ?case by (auto simp: task_inv_def worker_inv_def)
qed (auto simp: task_inv_def section_simps wake_simps)

lemma multiset_minus_size: "x \<in># m \<Longrightarrow> size (m - {#x#}) + 1 = size m"
  by (metis add.commute add_mset_remove_trivial_If multi_member_split plus_1_eq_Suc size_add_mset size_eq_Suc_imp_eq_union)

lemma worker_step: "pool_step s s' \<Longrightarrow> worker_inv s \<Longrightarrow> worker_inv s'"
proof (induction rule: pool_step.induct)
  case (ps_add x s self p)
  then show ?case by (auto simp: worker_inv_def section_simps notify_worker_def split: if_splits)
next
  case (ps_done x s e)
  then show ?case using multiset_minus_size [of x "busy s"] by (auto simp: worker_inv_def)
qed (auto simp: worker_inv_def section_simps wake_simps)

lemma signal_step: "pool_step s s' \<Longrightarrow> signal_inv s \<Longrightarrow> signal_inv s'"
proof (induction rule: pool_step.induct)
  case (ps_block x s self)
  then show ?case by (auto simp: signal_inv_def section_simps queue_full_def split: if_splits)
next
  case (ps_add x s self p)
  then show ?case using multiset_minus_size [of x "adding s"]
    by (auto simp: signal_inv_def section_simps notify_worker_def split: if_splits)
next
  case (ps_take s x p n)
  then show ?case by (auto simp: signal_inv_def section_simps)
next
  case (ps_take_notify s x p y)
  then show ?case by (auto simp: signal_inv_def section_simps wake_simps)
qed (auto simp: signal_inv_def section_simps wake_simps)

definition pool_inv :: "'t pool_sys \<Rightarrow> bool" where
  "pool_inv s \<longleftrightarrow> task_inv s \<and> worker_inv s \<and> signal_inv s"

interpretation pools: invariant_system pool_init pool_step pool_inv
  by unfold_locales (auto simp: pool_inv_def intro: task_step worker_step signal_step dest: pool_init_inv)

text \<open>The workers are all through: nothing changes but the producers, who find the queue full.\<close>

definition pool_over :: "'t pool_sys \<Rightarrow> bool" where
  "pool_over s \<longleftrightarrow> \<not> running (pool s) \<and> finished s = length (threads_of (pool s)) \<and> threads_of (pool s) \<noteq> [] \<and>
     worker_inv s \<and> queue_full (pool s)"

definition stranded :: "'t pool_sys \<Rightarrow> 't pool_sys \<Rightarrow> bool" where
  "stranded s s' \<longleftrightarrow> pool_over s' \<and> taskQueue (pool s') = taskQueue (pool s) \<and> added s' = added s \<and>
     executed s' = executed s \<and> adding s + blocked s \<subseteq># adding s' + blocked s'"

lemma pool_over_counts:
  "pool_over s \<Longrightarrow> starting s = 0 \<and> at_test s = 0 \<and> taking s = 0 \<and> sleeping s = 0 \<and> busy s = {#}"
  by (auto simp: pool_over_def worker_inv_def)

lemma pool_over_step:
  assumes "pool_step s s'" and "pool_over s"
  shows "stranded s s'"
proof -
  have "worker_inv s'" using worker_step [OF assms(1)] assms(2) by (simp add: pool_over_def)
  moreover have "\<not> running (pool s') \<and> finished s' = length (threads_of (pool s')) \<and> threads_of (pool s') \<noteq> [] \<and>
      queue_full (pool s') \<and> taskQueue (pool s') = taskQueue (pool s) \<and> added s' = added s \<and>
      executed s' = executed s \<and> adding s + blocked s \<subseteq># adding s' + blocked s'"
    using assms pool_over_counts [OF assms(2)]
    by (induction rule: pool_step.induct)
      (auto simp: pool_over_def section_simps wake_simps queue_full_def multi_member_split)
  ultimately show ?thesis by (simp add: stranded_def pool_over_def)
qed

lemma stranded_trans: "stranded s t \<Longrightarrow> stranded t u \<Longrightarrow> stranded s u"
  unfolding stranded_def by (auto intro: subset_mset.trans)

lemma pool_over_steps:
  assumes "pool_step\<^sup>*\<^sup>* s s'" and "pool_over s"
  shows "stranded s s'"
  using assms
proof (induction rule: rtranclp_induct)
  case base
  then show ?case by (simp add: stranded_def)
next
  case (step t u)
  then have "pool_over t" by (simp add: stranded_def)
  from stranded_trans [OF step.IH [OF step.prems] pool_over_step [OF step.hyps(2) this]] show ?case .
qed

section \<open>A run\<close>

text \<open>
  One worker and a queue of one place: task 10 is taken, 11 is queued, 12 is blocked; the pool is
  stopped, the worker ends its task and leaves.
\<close>

definition sample_pool :: "bool \<Rightarrow> nat list \<Rightarrow> nat tpool" where
  "sample_pool run q = \<lparr>pool_name = ''p'', init_callback = False, threads_of = [''p1''], taskQueue = q,
     maxQueueSize = 1, running = run\<rparr>"

definition sample_sys :: "bool \<Rightarrow> nat list \<Rightarrow> nat \<times> nat \<times> nat \<times> nat \<Rightarrow> nat list \<Rightarrow> nat multiset \<Rightarrow> nat multiset \<Rightarrow> nat list \<Rightarrow> nat pool_sys" where
  "sample_sys run q ws t ad bl ex = (case ws of (st, te, tk, fin) \<Rightarrow>
     \<lparr>pool = sample_pool run q, starting = st, at_test = te, taking = tk, sleeping = 0, busy = mset t - mset ex,
      finished = fin, adding = ad, blocked = bl, added = t @ q, taken = t, executed = mset ex\<rparr>)"

lemmas sample_simps = sample_sys_def sample_pool_def section_simps queue_full_def wake_simps notify_worker_def

lemma sample_started: "ThreadPool_start 1 ((ThreadPool_new ''p'')\<lparr>maxQueueSize := 1, init_callback := False\<rparr>) = Inr (False, sample_pool True [])"
proof -
  have "dec (Suc 0) = ''1''" by code_simp
  then show ?thesis by (simp add: ThreadPool_start_def ThreadPool_new_def sample_pool_def thread_names_def snprintf_def)
qed

lemma sample_start: "pool_init (sample_sys True [] (1, 0, 0, 0) [] {#} {#} [])"
  unfolding pool_init_def using sample_started by (intro conjI exI) (simp_all add: sample_simps)

lemma sample_over: "reach pool_init pool_step (sample_sys False [11] (0, 0, 0, 1) [10] {#} {#12#} [10])"
proof -
  note start = reach_init [of pool_init, OF sample_start]
  note then_step = reach_step [of pool_init pool_step]
  have 1: "pool_step (sample_sys True [] (1, 0, 0, 0) [] {#} {#} []) (sample_sys True [] (0, 1, 0, 0) [] {#} {#} [])"
    using ps_started [of "sample_sys True [] (1, 0, 0, 0) [] {#} {#} []"] by (simp add: sample_simps)
  have 2: "pool_step (sample_sys True [] (0, 1, 0, 0) [] {#} {#} []) (sample_sys True [] (0, 0, 1, 0) [] {#} {#} [])"
    using ps_run [of "sample_sys True [] (0, 1, 0, 0) [] {#} {#} []"] by (simp add: sample_simps)
  have 3: "pool_step (sample_sys True [] (0, 0, 1, 0) [] {#} {#} []) (sample_sys True [] (0, 0, 1, 0) [] {#10#} {#} [])"
    using ps_call [of "sample_sys True [] (0, 0, 1, 0) [] {#} {#} []" 10] by (simp add: sample_simps)
  have 4: "pool_step (sample_sys True [] (0, 0, 1, 0) [] {#10#} {#} []) (sample_sys True [10] (0, 0, 1, 0) [] {#} {#} [])"
    using ps_add [of 10 "sample_sys True [] (0, 0, 1, 0) [] {#10#} {#} []"] by (simp add: sample_simps)
  have 5: "pool_step (sample_sys True [10] (0, 0, 1, 0) [] {#} {#} []) (sample_sys True [] (0, 0, 0, 0) [10] {#} {#} [])"
    using ps_take [of "sample_sys True [10] (0, 0, 1, 0) [] {#} {#} []" 10] by (simp add: sample_simps)
  have 6: "pool_step (sample_sys True [] (0, 0, 0, 0) [10] {#} {#} []) (sample_sys True [] (0, 0, 0, 0) [10] {#11#} {#} [])"
    using ps_call [of "sample_sys True [] (0, 0, 0, 0) [10] {#} {#} []" 11] by (simp add: sample_simps)
  have 7: "pool_step (sample_sys True [] (0, 0, 0, 0) [10] {#11#} {#} []) (sample_sys True [11] (0, 0, 0, 0) [10] {#} {#} [])"
    using ps_add [of 11 "sample_sys True [] (0, 0, 0, 0) [10] {#11#} {#} []"] by (simp add: sample_simps)
  have 8: "pool_step (sample_sys True [11] (0, 0, 0, 0) [10] {#} {#} []) (sample_sys True [11] (0, 0, 0, 0) [10] {#12#} {#} [])"
    using ps_call [of "sample_sys True [11] (0, 0, 0, 0) [10] {#} {#} []" 12] by (simp add: sample_simps)
  have 9: "pool_step (sample_sys True [11] (0, 0, 0, 0) [10] {#12#} {#} []) (sample_sys True [11] (0, 0, 0, 0) [10] {#} {#12#} [])"
    using ps_block [of 12 "sample_sys True [11] (0, 0, 0, 0) [10] {#12#} {#} []"] by (simp add: sample_simps)
  have 10: "pool_step (sample_sys True [11] (0, 0, 0, 0) [10] {#} {#12#} []) (sample_sys False [11] (0, 0, 0, 0) [10] {#} {#12#} [])"
    using ps_stop [of "sample_sys True [11] (0, 0, 0, 0) [10] {#} {#12#} []"] by (simp add: sample_simps)
  have 11: "pool_step (sample_sys False [11] (0, 0, 0, 0) [10] {#} {#12#} []) (sample_sys False [11] (0, 1, 0, 0) [10] {#} {#12#} [10])"
    using ps_done [of 10 "sample_sys False [11] (0, 0, 0, 0) [10] {#} {#12#} []" Returned] by (simp add: sample_simps runInThread_end_def)
  have 12: "pool_step (sample_sys False [11] (0, 1, 0, 0) [10] {#} {#12#} [10]) (sample_sys False [11] (0, 0, 0, 1) [10] {#} {#12#} [10])"
    using ps_exit [of "sample_sys False [11] (0, 1, 0, 0) [10] {#} {#12#} [10]"] by (simp add: sample_simps)
  show ?thesis
    by (rule then_step [OF _ 12], rule then_step [OF _ 11], rule then_step [OF _ 10], rule then_step [OF _ 9],
        rule then_step [OF _ 8], rule then_step [OF _ 7], rule then_step [OF _ 6], rule then_step [OF _ 5],
        rule then_step [OF _ 4], rule then_step [OF _ 3], rule then_step [OF _ 2], rule then_step [OF _ 1], rule start)
qed

section \<open>Properties\<close>

text \<open>
  C30. The queue of a pool: in every interleaving of workers, producers and \<open>stop\<close>, tasks are taken in
  the order in which they were added, each by one worker, and what was added and not yet taken is
  in the queue; every task taken is being run or has been executed, once; and a bounded queue never
  exceeds its bound.
\<close>

theorem pool_fifo:
  assumes "reach pool_init pool_step s"
  shows "added s = taken s @ taskQueue (pool s) \<and>
    (threads_of (pool s) \<noteq> [] \<longrightarrow> mset (taken s) = busy s + executed s) \<and>
    (0 < maxQueueSize (pool s) \<longrightarrow> length (taskQueue (pool s)) \<le> unat (maxQueueSize (pool s)))"
  using pools.reach_inv [OF assms] by (simp add: pool_inv_def task_inv_def)

theorem pool_fifo_witness:
  "\<exists>s. reach pool_init pool_step s \<and> added s = [10 :: nat, 11] \<and> taken s = [10] \<and> taskQueue (pool s) = [11] \<and>
     added s = taken s @ taskQueue (pool s)"
  using pool_fifo [OF sample_over] sample_over by (intro exI [of _ "sample_sys False [11] (0, 0, 0, 1) [10] {#} {#12#} [10]"])
    (simp add: sample_simps)

text \<open>
  C29. No signal is lost although \<open>notify\<close> wakes one thread only: while a worker is asleep, at least
  as many workers are about to take as there are tasks, so that tasks in the queue never wait
  for workers that are all asleep; and while a producer is asleep, at least as many producers are
  about to add as there are free places. No worker sleeps once the pool is stopped.
\<close>

theorem pool_wakeups:
  assumes "reach pool_init pool_step s"
  shows "(0 < sleeping s \<longrightarrow> length (taskQueue (pool s)) \<le> taking s \<and> running (pool s)) \<and>
    (blocked s \<noteq> {#} \<longrightarrow> unat (maxQueueSize (pool s)) \<le> length (taskQueue (pool s)) + size (adding s)) \<and>
    (threads_of (pool s) \<noteq> [] \<and> taskQueue (pool s) \<noteq> [] \<and> running (pool s) \<longrightarrow>
      0 < starting s + at_test s + taking s + size (busy s))"
proof -
  have "worker_inv s" "signal_inv s" using pools.reach_inv [OF assms] by (simp_all add: pool_inv_def)
  moreover have "taskQueue (pool s) \<noteq> [] \<Longrightarrow> \<not> length (taskQueue (pool s)) \<le> 0" by simp
  ultimately show ?thesis
    by (cases "taskQueue (pool s) = []"; cases "taking s = 0") (auto simp: worker_inv_def signal_inv_def)
qed

theorem pool_wakeups_witness:
  "\<exists>s. reach pool_init pool_step s \<and> blocked s = {#12 :: nat#} \<and>
     unat (maxQueueSize (pool s)) \<le> length (taskQueue (pool s)) + size (adding s)"
proof -
  let ?s = "sample_sys False [11] (0, 0, 0, 1) [10] {#} {#12#} [10]"
  have "blocked ?s = {#12#}" by (simp add: sample_simps)
  with pool_wakeups [OF sample_over] sample_over show ?thesis by (intro exI [of _ ?s]) simp
qed

text \<open>
  Stopping a pool strands its producers and drops its tasks: \<open>stop\<close> notifies only the workers,
  which leave without emptying the queue. Once they are through, if the queue is full, then whatever
  happens next the queue stays as it is, nothing is added or executed, and every thread that is in
  \<open>addTask\<close> stays there.
\<close>

theorem stop_strands_producers:
  assumes "reach pool_init pool_step s" and "\<not> running (pool s)" and "finished s = length (threads_of (pool s))"
    and "threads_of (pool s) \<noteq> []" and "queue_full (pool s)" and "pool_step\<^sup>*\<^sup>* s s'"
  shows "taskQueue (pool s') = taskQueue (pool s) \<and> added s' = added s \<and> executed s' = executed s \<and>
    adding s + blocked s \<subseteq># adding s' + blocked s' \<and>
    (\<forall>x self. addTask_section self (locked self) x (pool s') = Inr None)"
proof -
  have "pool_over s" using pools.reach_inv [OF assms(1)] assms by (simp add: pool_over_def pool_inv_def)
  from pool_over_steps [OF assms(6) this] show ?thesis
    by (simp add: stranded_def pool_over_def section_simps)
qed

theorem stop_strands_producers_witness:
  "\<exists>s. reach pool_init pool_step s \<and> blocked s = {#12 :: nat#} \<and> taskQueue (pool s) = [11] \<and>
     (\<forall>s'. pool_step\<^sup>*\<^sup>* s s' \<longrightarrow> 12 \<in># adding s' + blocked s' \<and> 11 \<notin># executed s')"
proof -
  let ?s = "sample_sys False [11] (0, 0, 0, 1) [10] {#} {#12#} [10]"
  have s: "\<not> running (pool ?s)" "finished ?s = length (threads_of (pool ?s))" "threads_of (pool ?s) \<noteq> []"
    "queue_full (pool ?s)" "blocked ?s = {#12#}" "taskQueue (pool ?s) = [11]" "executed ?s = {#10#}"
    by (simp_all add: sample_simps)
  have "12 \<in># adding s' + blocked s' \<and> 11 \<notin># executed s'" if "pool_step\<^sup>*\<^sup>* ?s s'" for s'
  proof -
    note st = stop_strands_producers [OF sample_over s(1-4) that]
    from s(5) have "12 \<in># adding ?s + blocked ?s" by simp
    with st have "12 \<in># adding s' + blocked s'" by (blast dest: mset_subset_eqD)
    moreover have "executed s' = {#10#}" using st s(7) by simp
    ultimately show ?thesis by simp
  qed
  with s(5,6) sample_over show ?thesis by (intro exI [of _ ?s]) blast
qed

end
