(* ===== verification/Pool_Threads.thy ===== *)
theory Pool_Threads
  imports Thread_Pool
begin

text \<open>
  The threads of a ThreadPool one by one (src/base/ThreadPool.cpp with Mutex.h, Condition.h): workers,
  threads that call \<open>addTask\<close>, tasks that call it themselves, and threads that call \<open>stop\<close>, around
  the one mutex of the pool and its two conditions. A step is one call of pthread, one assignment of
  the mutex's holder, one evaluation of a loop's test with what follows it up to the unlock, or an
  unlocked read of \<open>running_\<close>. A notification belongs to the step of the section it is in: until the
  unlock only the unlocked reads of \<open>running_\<close> can come between.

  The mutex and the places of the threads around it are the \<open>monitor\<close> of Monitors. The system
  simulates that one and, when its threads are counted, the system of Thread\_Pool, whose critical
  sections are single steps. A task that calls \<open>stop\<close> is not modelled.

  Two sections are about a pool that is stopped: when no task calls \<open>addTask\<close>, the workers have a bounded number of
  steps left and can always come to their end; when tasks do, the pool can jam.
\<close>

section \<open>State\<close>

text \<open>
  What a thread is doing: outside the pool (\<open>Idle\<close>); a worker before its loop, at the test of \<open>running_\<close>, in \<open>takeTask\<close>
  up to the end of its loop and behind it, in a task, and through its loop; a thread in \<open>addTask\<close> up to
  the end of its loop and behind it, with the task that it is running itself if it is a worker; a thread
  in the critical section of \<open>stop\<close>.
\<close>

datatype 't job =
    Idle
  | Starting
  | Testing
  | Take
  | Took "'t option"
  | Busy 't
  | Finished
  | Add 't "'t option"
  | Added "'t option"
  | Stop
  | Stopped

record 't pool_threads =
  mon :: monitor
  tp :: "'t tpool"
  jobs :: "tid \<Rightarrow> 't job"
  log_added :: "'t list"
  log_taken :: "'t list"
  log_executed :: "'t multiset"

abbreviation place_of :: "'t pool_threads \<Rightarrow> tid \<Rightarrow> mplace" where
  "place_of c t \<equiv> place (mon c) t"

definition go :: "tid \<Rightarrow> mplace \<Rightarrow> mutex_lock \<Rightarrow> 't pool_threads \<Rightarrow> 't pool_threads" where
  "go t p m c = c\<lparr>mon := goto_place t p m (mon c)\<rparr>"

definition set_job :: "tid \<Rightarrow> 't job \<Rightarrow> 't pool_threads \<Rightarrow> 't pool_threads" where
  "set_job t j c = c\<lparr>jobs := (jobs c)(t := j)\<rparr>"

text \<open>
  \<open>pthread_cond_signal\<close> wakes one of the threads that sleep on the condition, if there is one;
  \<open>W\<close> says which jobs sleep on it.
\<close>

definition on_notEmpty :: "'t job \<Rightarrow> bool" where
  "on_notEmpty j \<longleftrightarrow> j = Take"

definition on_notFull :: "'t job \<Rightarrow> bool" where
  "on_notFull j \<longleftrightarrow> (\<exists>x own. j = Add x own)"

definition sleeps :: "('t job \<Rightarrow> bool) \<Rightarrow> 't pool_threads \<Rightarrow> tid \<Rightarrow> bool" where
  "sleeps W c u \<longleftrightarrow> W (jobs c u) \<and> place_of c u = Asleep"

definition wake :: "tid \<Rightarrow> 't pool_threads \<Rightarrow> 't pool_threads" where
  "wake u c = go u Woken (mtx (mon c)) c"

definition signalled :: "('t job \<Rightarrow> bool) \<Rightarrow> 't pool_threads \<Rightarrow> 't pool_threads \<Rightarrow> bool" where
  "signalled W c c' \<longleftrightarrow> (\<exists>u. sleeps W c u \<and> c' = wake u c) \<or> (\<forall>u. \<not> sleeps W c u) \<and> c' = c"

definition broadcast :: "('t job \<Rightarrow> bool) \<Rightarrow> 't pool_threads \<Rightarrow> 't pool_threads" where
  "broadcast W c = c\<lparr>mon := (mon c)\<lparr>place := \<lambda>u. if sleeps W c u then Woken else place_of c u\<rparr>\<rparr>"

section \<open>Steps\<close>

text \<open>The jobs that take the mutex, those that hold it for the last time, and what follows the unlock.\<close>

definition enters :: "'t job \<Rightarrow> bool" where
  "enters j \<longleftrightarrow> j = Take \<or> (\<exists>x own. j = Add x own) \<or> j = Stop"

definition leaves :: "'t job \<Rightarrow> bool" where
  "leaves j \<longleftrightarrow> (\<exists>r. j = Took r) \<or> (\<exists>own. j = Added own) \<or> j = Stopped"

definition after_unlock :: "'t job \<Rightarrow> 't job" where
  "after_unlock j = (case j of
       Took None \<Rightarrow> Testing
     | Took (Some x) \<Rightarrow> Busy x
     | Added (Some x) \<Rightarrow> Busy x
     | _ \<Rightarrow> Idle)"

inductive pt_step :: "'t pool_threads \<Rightarrow> 't pool_threads \<Rightarrow> bool" where
  pt_direct: "threads_of (tp c) = [] \<Longrightarrow> pt_step c (c\<lparr>log_executed := add_mset x (log_executed c)\<rparr>)"
| pt_call: "threads_of (tp c) \<noteq> [] \<Longrightarrow> 0 < t \<Longrightarrow> jobs c t = Idle \<Longrightarrow> pt_step c (set_job t (Add x None) c)"
| pt_call_inside: "jobs c t = Busy y \<Longrightarrow> threads_of (tp c) \<noteq> [] \<Longrightarrow> pt_step c (set_job t (Add x (Some y)) c)"
| pt_stop: "0 < t \<Longrightarrow> jobs c t = Idle \<Longrightarrow> pt_step c (set_job t Stop c)"
| pt_started: "jobs c t = Starting \<Longrightarrow> pt_step c (set_job t Testing c)"
| pt_run: "jobs c t = Testing \<Longrightarrow> running (tp c) \<Longrightarrow> pt_step c (set_job t Take c)"
| pt_exit: "jobs c t = Testing \<Longrightarrow> \<not> running (tp c) \<Longrightarrow> pt_step c (set_job t Finished c)"
| pt_done: "jobs c t = Busy x \<Longrightarrow> runInThread_end e = Inr () \<Longrightarrow>
    pt_step c (set_job t Testing (c\<lparr>log_executed := add_mset x (log_executed c)\<rparr>))"
| pt_lock: "enters (jobs c t) \<Longrightarrow> place_of c t = Outside_cs \<Longrightarrow> pthread_lock t (mtx (mon c)) = Some m \<Longrightarrow> pt_step c (go t Taken m c)"
| pt_assign: "place_of c t = Taken \<Longrightarrow> pt_step c (go t Inside (assignHolder t (mtx (mon c))) c)"
| pt_add_wait: "jobs c t = Add x own \<Longrightarrow> place_of c t = Inside \<Longrightarrow> addTask_section t (mtx (mon c)) x (tp c) = Inr None \<Longrightarrow>
    pt_step c (go t Entering_wait (unassignHolder (mtx (mon c))) c)"
| pt_add: "jobs c t = Add x own \<Longrightarrow> place_of c t = Inside \<Longrightarrow> addTask_section t (mtx (mon c)) x (tp c) = Inr (Some p) \<Longrightarrow>
    signalled on_notEmpty (set_job t (Added own) (c\<lparr>tp := p, log_added := log_added c @ [x]\<rparr>)) c' \<Longrightarrow> pt_step c c'"
| pt_take_wait: "jobs c t = Take \<Longrightarrow> place_of c t = Inside \<Longrightarrow> takeTask_section (tp c) = None \<Longrightarrow>
    pt_step c (go t Entering_wait (unassignHolder (mtx (mon c))) c)"
| pt_take_none: "jobs c t = Take \<Longrightarrow> place_of c t = Inside \<Longrightarrow> takeTask_section (tp c) = Some (None, p, n) \<Longrightarrow>
    pt_step c (set_job t (Took None) (c\<lparr>tp := p\<rparr>))"
| pt_take: "jobs c t = Take \<Longrightarrow> place_of c t = Inside \<Longrightarrow> takeTask_section (tp c) = Some (Some x, p, n) \<Longrightarrow>
    d = set_job t (Took (Some x)) (c\<lparr>tp := p, log_taken := log_taken c @ [x]\<rparr>) \<Longrightarrow>
    (if n = Notify then signalled on_notFull d c' else c' = d) \<Longrightarrow> pt_step c c'"
| pt_stopping: "jobs c t = Stop \<Longrightarrow> place_of c t = Inside \<Longrightarrow>
    pt_step c (broadcast on_notEmpty (set_job t Stopped (c\<lparr>tp := stop_section (tp c)\<rparr>)))"
| pt_sleep: "place_of c t = Entering_wait \<Longrightarrow> pthread_unlock t (mtx (mon c)) = Inr m \<Longrightarrow> pt_step c (go t Asleep m c)"
| pt_spurious: "place_of c t = Asleep \<Longrightarrow> pt_step c (wake t c)"
| pt_retake: "place_of c t = Woken \<Longrightarrow> pthread_lock t (mtx (mon c)) = Some m \<Longrightarrow> pt_step c (go t Taken m c)"
| pt_unassign: "leaves (jobs c t) \<Longrightarrow> place_of c t = Inside \<Longrightarrow> pt_step c (go t Leaving (unassignHolder (mtx (mon c))) c)"
| pt_unlock: "place_of c t = Leaving \<Longrightarrow> pthread_unlock t (mtx (mon c)) = Inr m \<Longrightarrow>
    pt_step c (set_job t (after_unlock (jobs c t)) (go t Outside_cs m c))"

text \<open>\<open>start\<close> has returned: its workers are before their loops, and nobody is inside.\<close>

definition pt_init :: "'t pool_threads \<Rightarrow> bool" where
  "pt_init c \<longleftrightarrow> mon_init (mon c) \<and>
     (\<exists>name mx cb n k. ThreadPool_start n ((ThreadPool_new name)\<lparr>maxQueueSize := mx, init_callback := cb\<rparr>) = Inr (k, tp c)) \<and>
     (\<exists>ws. finite ws \<and> card ws = length (threads_of (tp c)) \<and> 0 \<notin> ws \<and> jobs c = (\<lambda>t. if t \<in> ws then Starting else Idle)) \<and>
     log_added c = [] \<and> log_taken c = [] \<and> log_executed c = {#}"

section \<open>The mutex\<close>

lemma frames [simp]:
  "mon (go t p m c) = goto_place t p m (mon c)" "tp (go t p m c) = tp c" "jobs (go t p m c) = jobs c"
  "log_added (go t p m c) = log_added c" "log_taken (go t p m c) = log_taken c" "log_executed (go t p m c) = log_executed c"
  "mon (set_job t j c) = mon c" "tp (set_job t j c) = tp c" "jobs (set_job t j c) = (jobs c)(t := j)"
  "log_added (set_job t j c) = log_added c" "log_taken (set_job t j c) = log_taken c" "log_executed (set_job t j c) = log_executed c"
  by (simp_all add: go_def set_job_def)

lemma wake_frames [simp]:
  "mon (wake u c) = goto_place u Woken (mtx (mon c)) (mon c)" "tp (wake u c) = tp c" "jobs (wake u c) = jobs c"
  "log_added (wake u c) = log_added c" "log_taken (wake u c) = log_taken c" "log_executed (wake u c) = log_executed c"
  by (simp_all add: wake_def)

lemma broadcast_frames [simp]:
  "place (mon (broadcast W c)) = (\<lambda>u. if sleeps W c u then Woken else place_of c u)" "mtx (mon (broadcast W c)) = mtx (mon c)"
  "tp (broadcast W c) = tp c" "jobs (broadcast W c) = jobs c"
  "log_added (broadcast W c) = log_added c" "log_taken (broadcast W c) = log_taken c" "log_executed (broadcast W c) = log_executed c"
  by (simp_all add: broadcast_def)

lemma signalled_cases:
  assumes "signalled W c c'"
  obtains u where "W (jobs c u)" "place_of c u = Asleep" "c' = wake u c" | "\<And>u. W (jobs c u) \<Longrightarrow> place_of c u \<noteq> Asleep" "c' = c"
  using assms by (auto simp: signalled_def sleeps_def)

text \<open>A job and the place of its thread.\<close>

definition job_at :: "'t job \<Rightarrow> mplace \<Rightarrow> bool" where
  "job_at j p \<longleftrightarrow> (if leaves j then p = Inside \<or> p = Leaving
     else if j = Stop then p = Outside_cs \<or> p = Taken \<or> p = Inside
     else if enters j then p \<noteq> Leaving
     else p = Outside_cs)"

definition pt_inv :: "'t pool_threads \<Rightarrow> bool" where
  "pt_inv c \<longleftrightarrow> holder_inv (mon c) \<and> finite {t. jobs c t \<noteq> Idle} \<and> (\<forall>t. jobs c t \<noteq> Idle \<longrightarrow> 0 < t) \<and>
     (\<forall>t. job_at (jobs c t) (place_of c t))"

lemma job_kinds [simp]:
  "enters Take" "enters (Add x own)" "enters Stop" "\<not> enters Idle" "\<not> enters Starting" "\<not> enters Testing" "\<not> enters (Took r)"
  "\<not> enters (Busy y)" "\<not> enters Finished" "\<not> enters (Added own)" "\<not> enters Stopped"
  "leaves (Took r)" "leaves (Added own)" "leaves Stopped" "\<not> leaves Idle" "\<not> leaves Starting" "\<not> leaves Testing" "\<not> leaves Take"
  "\<not> leaves (Busy y)" "\<not> leaves Finished" "\<not> leaves (Add x own)" "\<not> leaves Stop"
  by (simp_all add: enters_def leaves_def)

lemma pt_at: "pt_inv c \<Longrightarrow> job_at (jobs c t) (place_of c t)"
  by (simp add: pt_inv_def)

lemma pt_pos: "pt_inv c \<Longrightarrow> place_of c t \<noteq> Outside_cs \<Longrightarrow> 0 < t"
  by (simp add: pt_inv_def holder_inv_def excl_inv_def)

lemma pt_busy_pos: "pt_inv c \<Longrightarrow> jobs c t \<noteq> Idle \<Longrightarrow> 0 < t"
  by (simp add: pt_inv_def)

lemma wake_many:
  assumes "finite A" and "\<forall>u \<in> A. place s u = Asleep"
  shows "(mon_step timed)\<^sup>*\<^sup>* s (s\<lparr>place := \<lambda>u. if u \<in> A then Woken else place s u\<rparr>)"
  using assms
proof (induction A)
  case (insert a A)
  let ?s = "s\<lparr>place := \<lambda>u. if u \<in> A then Woken else place s u\<rparr>"
  have "mon_step timed ?s (goto_place a Woken (mtx ?s) ?s)" by (rule ms_wake) (use insert in auto)
  moreover have "goto_place a Woken (mtx ?s) ?s = s\<lparr>place := \<lambda>u. if u \<in> insert a A then Woken else place s u\<rparr>"
    by (auto simp: goto_place_def fun_eq_iff)
  ultimately show ?case using insert by (auto intro: rtranclp.rtrancl_into_rtrancl)
qed simp

lemma signalled_mon: "signalled W c c' \<Longrightarrow> (mon_step timed)\<^sup>*\<^sup>* (mon c) (mon c')"
  by (erule signalled_cases) (auto intro: ms_wake)

lemma broadcast_mon:
  assumes "finite {t. jobs c t \<noteq> Idle}" and "\<not> W Idle"
  shows "(mon_step timed)\<^sup>*\<^sup>* (mon c) (mon (broadcast W c))"
proof -
  let ?A = "{u. sleeps W c u}"
  have "?A \<subseteq> {t. jobs c t \<noteq> Idle}" using assms(2) by (auto simp: sleeps_def)
  then have "finite ?A" using assms(1) by (rule finite_subset)
  from wake_many [OF this, of "mon c" timed] show ?thesis by (simp add: broadcast_def sleeps_def)
qed

lemma pt_mon: "pt_step c c' \<Longrightarrow> pt_inv c \<Longrightarrow> (mon_step False)\<^sup>*\<^sup>* (mon c) (mon c')"
proof (induction rule: pt_step.induct)
  case (pt_lock c t m)
  then have "0 < t" using pt_busy_pos [of c t] by (auto simp: enters_def)
  with pt_lock show ?case by (auto intro: ms_lock)
next
  case (pt_add c t x own p c')
  from signalled_mon [OF pt_add.hyps(4)] show ?case by simp
next
  case (pt_take c t x p n d c')
  then show ?case using signalled_mon [of on_notFull d c'] by (auto split: if_splits)
next
  case (pt_stopping c t)
  then have "finite {u. jobs (set_job t Stopped (c\<lparr>tp := stop_section (tp c)\<rparr>)) u \<noteq> Idle}"
    by (auto simp: pt_inv_def intro: finite_subset [of _ "insert t {u. jobs c u \<noteq> Idle}"])
  from broadcast_mon [OF this, of on_notEmpty] show ?case by (simp add: on_notEmpty_def)
qed (auto intro: ms_assign ms_unassign ms_unlock ms_wait ms_sleep ms_wake ms_retake)

section \<open>Invariant\<close>

lemma pt_keep:
  assumes inv: "pt_inv c" and mon: "(mon_step False)\<^sup>*\<^sup>* (mon c) (mon c')" and job: "jobs c' = (jobs c)(t := j)" and pos: "j = Idle \<or> 0 < t"
    and at_t: "job_at j (place_of c' t)" and at_u: "\<And>u. u \<noteq> t \<Longrightarrow> place_of c' u = place_of c u \<or> place_of c u = Asleep \<and> place_of c' u = Woken"
  shows "pt_inv c'"
proof -
  from inv have i: "holder_inv (mon c)" "finite {t. jobs c t \<noteq> Idle}" by (simp_all add: pt_inv_def)
  have "job_at (jobs c' u) (place_of c' u)" for u
  proof (cases "u = t")
    case False
    with pt_at [OF inv, of u] at_u [OF False] show ?thesis by (auto simp: job job_at_def split: if_splits)
  qed (simp add: job at_t)
  moreover have "finite {u. jobs c' u \<noteq> Idle}" by (rule finite_subset [of _ "insert t {u. jobs c u \<noteq> Idle}"]) (use i(2) in \<open>auto simp: job\<close>)
  moreover have "jobs c' u \<noteq> Idle \<longrightarrow> 0 < u" for u using pos pt_busy_pos [OF inv, of u] by (auto simp: job)
  ultimately show ?thesis using held.steps_inv [OF mon i(1)] by (simp add: pt_inv_def)
qed

lemma pt_same:
  assumes "pt_inv c" and "(mon_step False)\<^sup>*\<^sup>* (mon c) (mon c')" and "jobs c' = jobs c" and "place (mon c') = (place (mon c))(t := p)"
    and "job_at (jobs c t) p"
  shows "pt_inv c'"
proof (rule pt_keep [OF assms(1,2)])
  show "jobs c' = (jobs c)(t := jobs c t)" using assms(3) by simp
  show "jobs c t = Idle \<or> 0 < t" using pt_busy_pos [OF assms(1)] by blast
qed (use assms(4,5) in auto)

text \<open>Where a thread at a place is with its job.\<close>

lemma at_place:
  assumes "pt_inv c"
  shows "place_of c t = Taken \<or> place_of c t = Woken \<or> place_of c t = Asleep \<or> place_of c t = Entering_wait \<Longrightarrow>
      enters (jobs c t) \<and> (place_of c t = Taken \<or> jobs c t \<noteq> Stop)"
    and "place_of c t = Leaving \<Longrightarrow> leaves (jobs c t)"
    and "jobs c t \<in> {Idle, Starting, Testing, Finished} \<Longrightarrow> place_of c t = Outside_cs"
    and "jobs c t = Busy x \<Longrightarrow> place_of c t = Outside_cs"
  using pt_at [OF assms, of t] by (auto simp: job_at_def leaves_def enters_def split: if_splits)

lemma pt_step_inv: "pt_step c c' \<Longrightarrow> pt_inv c \<Longrightarrow> pt_inv c'"
proof -
  assume step: "pt_step c c'" and inv: "pt_inv c"
  note mon = pt_mon [OF step inv]
  note A = at_place [OF inv]
  from step show ?thesis
  proof cases
    case (pt_direct x)
    then show ?thesis using inv by (simp add: pt_inv_def)
  next
    case (pt_call t x)
    then show ?thesis using A(3) [of t] by (intro pt_keep [OF inv mon, of t]) (auto simp: job_at_def)
  next
    case (pt_call_inside t y x)
    then show ?thesis using A(4) [of t] pt_busy_pos [OF inv, of t] by (intro pt_keep [OF inv mon, of t]) (auto simp: job_at_def)
  next
    case (pt_stop t)
    then show ?thesis using A(3) [of t] by (intro pt_keep [OF inv mon, of t]) (auto simp: job_at_def)
  next
    case (pt_started t)
    then show ?thesis using A(3) [of t] pt_busy_pos [OF inv, of t] by (intro pt_keep [OF inv mon, of t]) (auto simp: job_at_def)
  next
    case (pt_run t)
    then show ?thesis using A(3) [of t] pt_busy_pos [OF inv, of t] by (intro pt_keep [OF inv mon, of t]) (auto simp: job_at_def)
  next
    case (pt_exit t)
    then show ?thesis using A(3) [of t] pt_busy_pos [OF inv, of t] by (intro pt_keep [OF inv mon, of t]) (auto simp: job_at_def)
  next
    case (pt_done t x e)
    then show ?thesis using A(4) [of t] pt_busy_pos [OF inv, of t] by (intro pt_keep [OF inv mon, of t]) (auto simp: job_at_def)
  next
    case (pt_lock t m)
    then show ?thesis by (intro pt_same [OF inv mon, of t Taken]) (auto simp: job_at_def enters_def)
  next
    case (pt_assign t)
    then show ?thesis using A(1) [of t] by (intro pt_same [OF inv mon, of t Inside]) (auto simp: job_at_def enters_def)
  next
    case (pt_add_wait t x own)
    then show ?thesis by (intro pt_same [OF inv mon, of t Entering_wait]) (auto simp: job_at_def)
  next
    case (pt_add t x own p)
    then show ?thesis using pt_busy_pos [OF inv, of t]
      by (intro pt_keep [OF inv mon, of t "Added own"]) (auto simp: job_at_def elim!: signalled_cases split: if_splits)
  next
    case (pt_take_wait t)
    then show ?thesis by (intro pt_same [OF inv mon, of t Entering_wait]) (auto simp: job_at_def)
  next
    case (pt_take_none t p n)
    then show ?thesis using pt_busy_pos [OF inv, of t] by (intro pt_keep [OF inv mon, of t]) (auto simp: job_at_def)
  next
    case (pt_take t x p n d)
    then show ?thesis using pt_busy_pos [OF inv, of t]
      by (intro pt_keep [OF inv mon, of t "Took (Some x)"]) (auto simp: job_at_def elim!: signalled_cases split: if_splits)
  next
    case (pt_stopping t)
    then show ?thesis using pt_busy_pos [OF inv, of t]
      by (intro pt_keep [OF inv mon, of t Stopped]) (auto simp: job_at_def sleeps_def on_notEmpty_def)
  next
    case (pt_sleep t m)
    then show ?thesis using A(1) [of t] by (intro pt_same [OF inv mon, of t Asleep]) (auto simp: job_at_def enters_def)
  next
    case (pt_spurious t)
    then show ?thesis using A(1) [of t] by (intro pt_same [OF inv mon, of t Woken]) (auto simp: job_at_def enters_def)
  next
    case (pt_retake t m)
    then show ?thesis using A(1) [of t] by (intro pt_same [OF inv mon, of t Taken]) (auto simp: job_at_def enters_def)
  next
    case (pt_unassign t)
    then show ?thesis by (intro pt_same [OF inv mon, of t Leaving]) (auto simp: job_at_def leaves_def)
  next
    case (pt_unlock t m)
    then show ?thesis using A(2) [of t] pt_pos [OF inv, of t]
      by (intro pt_keep [OF inv mon, of t "after_unlock (jobs c t)"])
        (auto simp: job_at_def after_unlock_def leaves_def split: option.splits)
  qed
qed

lemma pt_init_inv: "pt_init c \<Longrightarrow> pt_inv c"
  by (auto simp: pt_init_def pt_inv_def holder_init job_at_def split: if_splits intro!: gr0I) (auto simp: mon_init_def)

interpretation pts: invariant_system pt_init pt_step pt_inv
  by unfold_locales (auto intro: pt_init_inv pt_step_inv)

section \<open>Counting the threads\<close>

text \<open>The sum of a function with finitely many values that are not empty, and its change at one place.\<close>

definition total :: "(tid \<Rightarrow> 'a multiset) \<Rightarrow> 'a multiset" where
  "total f = sum f {t. f t \<noteq> {#}}"

lemma total_superset: "finite S \<Longrightarrow> {t. f t \<noteq> {#}} \<subseteq> S \<Longrightarrow> total f = sum f S"
  unfolding total_def by (rule sum.mono_neutral_left) auto

lemma total_split:
  assumes "finite {t. f t \<noteq> {#}}"
  obtains R where "total f = f t + R" "\<And>b. total (f(t := b)) = b + R"
proof -
  let ?S = "insert t {u. f u \<noteq> {#}}"
  have S: "finite ?S" using assms by simp
  have "total (f(t := b)) = b + sum f (?S - {t})" for b
  proof -
    have "total (f(t := b)) = sum (f(t := b)) ?S" by (rule total_superset [OF S]) auto
    also have "\<dots> = b + sum (f(t := b)) (?S - {t})" using sum.remove [OF S, of t "f(t := b)"] by simp
    also have "sum (f(t := b)) (?S - {t}) = sum f (?S - {t})" by (rule sum.cong) auto
    finally show ?thesis .
  qed
  moreover from this [of "f t"] have "total f = f t + sum f (?S - {t})" by simp
  ultimately show thesis using that by blast
qed

lemma total_none: "(\<And>t. a \<notin># f t) \<Longrightarrow> a \<notin># total f"
proof -
  assume none: "\<And>t. a \<notin># f t"
  have "a \<notin># sum f S" for S by (induction S rule: infinite_finite_induct) (auto simp: none)
  then show ?thesis by (simp add: total_def)
qed

lemma total_image: "finite {t. f t \<noteq> {#}} \<Longrightarrow> total (\<lambda>t. image_mset h (f t)) = image_mset h (total f)"
proof -
  have "sum (\<lambda>t. image_mset h (f t)) S = image_mset h (sum f S)" if "finite S" for S
    using that by (induction S) auto
  then show "finite {t. f t \<noteq> {#}} \<Longrightarrow> total (\<lambda>t. image_mset h (f t)) = image_mset h (total f)" by (simp add: total_def)
qed

lemma total_const: "finite ws \<Longrightarrow> total (\<lambda>t. if t \<in> ws then {#a#} else {#}) = replicate_mset (card ws) a"
proof -
  assume ws: "finite ws"
  then have "total (\<lambda>t. if t \<in> ws then {#a#} else {#}) = (\<Sum>t \<in> ws. {#a#})"
    by (subst total_superset [OF ws]) auto
  also have "\<dots> = replicate_mset (card ws) a" using ws by (induction ws) auto
  finally show ?thesis .
qed

text \<open>
  What a thread counts as in Thread\_Pool: a worker and a caller of \<open>addTask\<close> one thing each, a worker whose task
  calls \<open>addTask\<close> both.
\<close>

datatype 't token =
    AtStart
  | AtTest
  | AtTake
  | AtSleep
  | InTask 't
  | AtEnd
  | ToAdd 't
  | ToSleep 't

definition in_wait :: "mplace \<Rightarrow> bool" where
  "in_wait p \<longleftrightarrow> p = Entering_wait \<or> p = Asleep"

fun own_task :: "'t option \<Rightarrow> 't token multiset" where
  "own_task None = {#}"
| "own_task (Some x) = {#InTask x#}"

fun tokens :: "'t job \<Rightarrow> bool \<Rightarrow> 't token multiset" where
  "tokens Starting w = {#AtStart#}"
| "tokens Testing w = {#AtTest#}"
| "tokens Take w = {#if w then AtSleep else AtTake#}"
| "tokens (Took r) w = (case r of None \<Rightarrow> {#AtTest#} | Some x \<Rightarrow> {#InTask x#})"
| "tokens (Busy x) w = {#InTask x#}"
| "tokens Finished w = {#AtEnd#}"
| "tokens (Add x own) w = add_mset (if w then ToSleep x else ToAdd x) (own_task own)"
| "tokens (Added own) w = own_task own"
| "tokens Idle w = {#}"
| "tokens Stop w = {#}"
| "tokens Stopped w = {#}"

definition tok :: "'t pool_threads \<Rightarrow> tid \<Rightarrow> 't token multiset" where
  "tok c t = tokens (jobs c t) (in_wait (place_of c t))"

abbreviation bag :: "'t pool_threads \<Rightarrow> 't token multiset" where
  "bag c \<equiv> total (tok c)"

definition tasks_in :: "('t token \<Rightarrow> 't option) \<Rightarrow> 't token multiset \<Rightarrow> 't multiset" where
  "tasks_in g m = image_mset (\<lambda>a. the (g a)) (filter_mset (\<lambda>a. g a \<noteq> None) m)"

definition running_task :: "'t token \<Rightarrow> 't option" where
  "running_task a = (case a of InTask x \<Rightarrow> Some x | _ \<Rightarrow> None)"

definition adding_task :: "'t token \<Rightarrow> 't option" where
  "adding_task a = (case a of ToAdd x \<Rightarrow> Some x | _ \<Rightarrow> None)"

definition blocked_task :: "'t token \<Rightarrow> 't option" where
  "blocked_task a = (case a of ToSleep x \<Rightarrow> Some x | _ \<Rightarrow> None)"

definition counted_bag :: "'t token multiset \<Rightarrow> 't pool_threads \<Rightarrow> 't pool_sys" where
  "counted_bag m c = \<lparr>pool = tp c, starting = count m AtStart, at_test = count m AtTest, taking = count m AtTake,
     sleeping = count m AtSleep, busy = tasks_in running_task m, finished = count m AtEnd,
     adding = tasks_in adding_task m, blocked = tasks_in blocked_task m,
     added = log_added c, taken = log_taken c, executed = log_executed c\<rparr>"

definition counted :: "'t pool_threads \<Rightarrow> 't pool_sys" where
  "counted c = counted_bag (bag c) c"

lemma tasks_in_simps [simp]:
  "tasks_in g {#} = {#}" "tasks_in g (m + n) = tasks_in g m + tasks_in g n"
  "tasks_in g (add_mset a m) = (case g a of None \<Rightarrow> tasks_in g m | Some x \<Rightarrow> add_mset x (tasks_in g m))"
  by (auto simp: tasks_in_def split: option.splits)

lemma task_simps [simp]:
  "running_task (InTask x) = Some x" "running_task AtStart = None" "running_task AtTest = None" "running_task AtTake = None"
  "running_task AtSleep = None" "running_task AtEnd = None" "running_task (ToAdd x) = None" "running_task (ToSleep x) = None"
  "adding_task (InTask x) = None" "adding_task AtStart = None" "adding_task AtTest = None" "adding_task AtTake = None"
  "adding_task AtSleep = None" "adding_task AtEnd = None" "adding_task (ToAdd x) = Some x" "adding_task (ToSleep x) = None"
  "blocked_task (InTask x) = None" "blocked_task AtStart = None" "blocked_task AtTest = None" "blocked_task AtTake = None"
  "blocked_task AtSleep = None" "blocked_task AtEnd = None" "blocked_task (ToAdd x) = None" "blocked_task (ToSleep x) = Some x"
  by (simp_all add: running_task_def adding_task_def blocked_task_def)

lemma own_task_simps [simp]:
  "tasks_in adding_task (own_task own) = {#}" "tasks_in blocked_task (own_task own) = {#}"
  "count (own_task own) AtStart = 0" "count (own_task own) AtTest = 0" "count (own_task own) AtTake = 0"
  "count (own_task own) AtSleep = 0" "count (own_task own) AtEnd = 0"
  by (cases own; simp)+

lemma tok_go: "tok (go t p m c) = (tok c)(t := tokens (jobs c t) (in_wait p))"
  by (auto simp: tok_def fun_eq_iff)

lemma tok_set: "tok (set_job t j c) = (tok c)(t := tokens j (in_wait (place_of c t)))"
  by (auto simp: tok_def fun_eq_iff)

lemma tok_fields [simp]:
  "tok (c\<lparr>tp := p\<rparr>) = tok c" "tok (c\<lparr>log_added := xs\<rparr>) = tok c" "tok (c\<lparr>log_taken := xs\<rparr>) = tok c"
  "tok (c\<lparr>log_executed := m\<rparr>) = tok c"
  by (simp_all add: tok_def fun_eq_iff)

lemma tok_finite: "pt_inv c \<Longrightarrow> finite {t. tok c t \<noteq> {#}}"
  unfolding pt_inv_def by (auto elim!: rev_finite_subset simp: tok_def)

section \<open>Simulation\<close>

text \<open>A step that changes what one thread counts as.\<close>

lemma counted_change:
  assumes inv: "pt_inv c" and tok': "tok c' = (tok c)(t := b)"
  obtains R where "counted c = counted_bag (tok c t + R) c" "counted c' = counted_bag (b + R) c'"
proof -
  obtain R where "bag c = tok c t + R" "\<And>b. total ((tok c)(t := b)) = b + R" by (rule total_split [OF tok_finite [OF inv], of t]) (rule that)
  then show thesis using that tok' by (simp add: counted_def)
qed

lemma counted_same: "tok c' = tok c \<Longrightarrow> tp c' = tp c \<Longrightarrow> log_added c' = log_added c \<Longrightarrow> log_taken c' = log_taken c \<Longrightarrow>
    log_executed c' = log_executed c \<Longrightarrow> counted c' = counted c"
  by (simp add: counted_def counted_bag_def)

text \<open>While a thread holds the mutex, the others in a wait are asleep.\<close>

lemma wait_asleep:
  assumes inv: "pt_inv c" and t: "place_of c t = Inside" and u: "u \<noteq> t" "in_wait (place_of c u)"
  shows "place_of c u = Asleep"
proof -
  have "excl_inv (mon c)" using inv by (simp add: pt_inv_def holder_inv_def)
  from excl_only [OF this, of u t] t u show ?thesis by (auto simp: in_wait_def)
qed

lemma holds_mutex: "pt_inv c \<Longrightarrow> place_of c t = Inside \<Longrightarrow> holder (mtx (mon c)) = t"
  using pt_pos [of c t] by (simp add: pt_inv_def holder_inv_def)

lemma section_locked:
  assumes "pt_inv c" and "place_of c t = Inside"
  shows "addTask_section t (mtx (mon c)) x p = addTask_section t (locked t) x p"
  using holds_mutex [OF assms] by (simp add: addTask_section_def isFull_def assertLocked_def isLockedByThisThread_def)

text \<open>A signal after the section of the thread \<open>t\<close>, which is still inside.\<close>

lemma signalled_notEmpty:
  assumes inv: "pt_inv c" and t: "place_of c t = Inside" and s: "signalled on_notEmpty c c'"
  shows "counted c' = notify_worker (counted c)"
  using s
proof (cases rule: signalled_cases)
  case (1 u)
  have u: "jobs c u = Take" "place_of c u = Asleep" using 1 by (simp_all add: on_notEmpty_def)
  have "tok c' = (tok c)(u := {#AtTake#})" using u 1 by (simp add: wake_def tok_go in_wait_def)
  from counted_change [OF inv this] obtain R where R: "counted c = counted_bag (tok c u + R) c" "counted c' = counted_bag ({#AtTake#} + R) c'"
    by blast
  moreover have "tok c u = {#AtSleep#}" using u by (simp add: tok_def in_wait_def)
  ultimately show ?thesis using 1 by (simp add: counted_bag_def notify_worker_def)
next
  case 2
  have "AtSleep \<notin># tok c u" for u
  proof
    assume a: "AtSleep \<in># tok c u"
    then have "jobs c u = Take \<and> in_wait (place_of c u)"
      by (cases "jobs c u") (auto simp: tok_def split: if_splits option.splits dest!: multi_member_split elim!: own_task.elims)
    moreover from this t have "u \<noteq> t" by (auto simp: in_wait_def)
    ultimately show False using wait_asleep [OF inv t] 2(1) by (auto simp: on_notEmpty_def)
  qed
  then have "AtSleep \<notin># bag c" by (rule total_none)
  then have "sleeping (counted c) = 0" by (simp add: counted_def counted_bag_def count_eq_zero_iff)
  with 2(2) show ?thesis by (simp add: notify_worker_def)
qed

lemma signalled_notFull:
  assumes inv: "pt_inv c" and t: "place_of c t = Inside" and s: "signalled on_notFull c c'"
  shows "(blocked (counted c) = {#} \<and> c' = c) \<or> (\<exists>y. y \<in># blocked (counted c) \<and> counted c' = wake_producer y (counted c))"
  using s
proof (cases rule: signalled_cases)
  case (1 u)
  then obtain y own where u: "jobs c u = Add y own" "place_of c u = Asleep" by (auto simp: on_notFull_def)
  have "tok c' = (tok c)(u := add_mset (ToAdd y) (own_task own))" using u 1 by (simp add: wake_def tok_go in_wait_def)
  from counted_change [OF inv this] obtain R where R: "counted c = counted_bag (tok c u + R) c"
    "counted c' = counted_bag (add_mset (ToAdd y) (own_task own) + R) c'" by blast
  moreover have "tok c u = add_mset (ToSleep y) (own_task own)" using u by (simp add: tok_def in_wait_def)
  ultimately have "y \<in># blocked (counted c) \<and> counted c' = wake_producer y (counted c)"
    using 1 by (simp add: counted_bag_def wake_producer_def)
  then show ?thesis by blast
next
  case 2
  have "ToSleep y \<notin># tok c u" for y u
  proof
    assume a: "ToSleep y \<in># tok c u"
    then have "(\<exists>own. jobs c u = Add y own) \<and> in_wait (place_of c u)"
      by (cases "jobs c u") (auto simp: tok_def split: if_splits option.splits dest!: multi_member_split elim!: own_task.elims)
    moreover from this t have "u \<noteq> t" by (auto simp: in_wait_def)
    ultimately show False using wait_asleep [OF inv t] 2(1) by (auto simp: on_notFull_def)
  qed
  then have "ToSleep y \<notin># bag c" for y by (rule total_none)
  then have "set_mset (filter_mset (\<lambda>a. blocked_task a \<noteq> None) (bag c)) = {}"
    by (auto simp: blocked_task_def split: token.splits)
  then have "filter_mset (\<lambda>a. blocked_task a \<noteq> None) (bag c) = {#}" by (simp only: set_mset_eq_empty_iff)
  with 2(2) show ?thesis by (simp add: counted_def counted_bag_def tasks_in_def)
qed

lemma broadcast_notEmpty:
  assumes inv: "pt_inv c" and t: "place_of c t = Inside"
  shows "counted (broadcast on_notEmpty c) = notify_workers (counted c)"
proof -
  let ?h = "\<lambda>a. case a of AtSleep \<Rightarrow> AtTake | _ \<Rightarrow> a"
  have own: "image_mset ?h (own_task own) = own_task own" for own :: "'a option" by (cases own) simp_all
  have "tok (broadcast on_notEmpty c) u = image_mset ?h (tok c u)" for u
  proof (cases "sleeps on_notEmpty c u")
    case True
    then show ?thesis by (simp add: tok_def sleeps_def on_notEmpty_def in_wait_def)
  next
    case False
    then have "tok (broadcast on_notEmpty c) u = tok c u" by (simp add: tok_def)
    moreover have "image_mset ?h (tok c u) = tok c u"
    proof (cases "jobs c u = Take")
      case True
      have "u \<noteq> t \<Longrightarrow> in_wait (place_of c u) \<Longrightarrow> place_of c u = Asleep" by (rule wait_asleep [OF inv t])
      with True False t have "\<not> in_wait (place_of c u)" by (cases "u = t") (auto simp: sleeps_def on_notEmpty_def in_wait_def)
      with True show ?thesis by (simp add: tok_def)
    next
      case other: False
      then show ?thesis by (cases "jobs c u") (auto simp: tok_def own split: option.splits)
    qed
    ultimately show ?thesis by simp
  qed
  then have "tok (broadcast on_notEmpty c) = (\<lambda>u. image_mset ?h (tok c u))" by (simp add: fun_eq_iff)
  then have bag: "bag (broadcast on_notEmpty c) = image_mset ?h (bag c)" using total_image [OF tok_finite [OF inv]] by simp
  have "count (image_mset ?h m) AtTake = count m AtTake + count m AtSleep" "count (image_mset ?h m) AtSleep = 0"
    "count (image_mset ?h m) AtStart = count m AtStart" "count (image_mset ?h m) AtTest = count m AtTest"
    "count (image_mset ?h m) AtEnd = count m AtEnd"
    "tasks_in running_task (image_mset ?h m) = tasks_in running_task m" "tasks_in adding_task (image_mset ?h m) = tasks_in adding_task m"
    "tasks_in blocked_task (image_mset ?h m) = tasks_in blocked_task m" for m :: "'a token multiset"
    by (induction m) (auto split: token.splits)
  with bag show ?thesis by (simp add: counted_def counted_bag_def notify_workers_def)
qed

lemma tok_job: "jobs c t = j \<Longrightarrow> tok c t = tokens j (in_wait (place_of c t))"
  by (simp add: tok_def)

lemma counted_swap:
  assumes "pt_inv c" and "tok c t = A" and "tok c' = (tok c)(t := B)"
  shows "\<exists>R. counted c = counted_bag (A + R) c \<and> counted c' = counted_bag (B + R) c'"
proof -
  obtain R where "counted c = counted_bag (tok c t + R) c" "counted c' = counted_bag (B + R) c'"
    by (rule counted_change [OF assms(1,3)])
  with assms(2) show ?thesis by blast
qed

lemma counted_stay: "in_wait p = in_wait (place_of c t) \<Longrightarrow> counted (go t p m c) = counted c"
  by (rule counted_same) (auto simp: tok_go tok_def fun_eq_iff)

lemma counted_bag_fields [simp]:
  "pool (counted_bag m c) = tp c" "starting (counted_bag m c) = count m AtStart" "at_test (counted_bag m c) = count m AtTest"
  "taking (counted_bag m c) = count m AtTake" "sleeping (counted_bag m c) = count m AtSleep" "busy (counted_bag m c) = tasks_in running_task m"
  "finished (counted_bag m c) = count m AtEnd" "adding (counted_bag m c) = tasks_in adding_task m"
  "blocked (counted_bag m c) = tasks_in blocked_task m" "added (counted_bag m c) = log_added c" "taken (counted_bag m c) = log_taken c"
  "executed (counted_bag m c) = log_executed c"
  by (simp_all add: counted_bag_def)

lemma counted_pool [simp]: "pool (counted c) = tp c"
  by (simp add: counted_def)

lemma out_of_wait: "pt_inv c \<Longrightarrow> jobs c t \<in> {Idle, Starting, Testing, Finished} \<or> jobs c t = Busy x \<Longrightarrow> \<not> in_wait (place_of c t)"
  using at_place(3) [of c t] at_place(4) [of c t x] by (auto simp: in_wait_def)

lemma inside_no_wait [simp]: "\<not> in_wait Inside" "\<not> in_wait Taken" "\<not> in_wait Outside_cs" "\<not> in_wait Woken" "\<not> in_wait Leaving"
  "in_wait Entering_wait" "in_wait Asleep"
  by (simp_all add: in_wait_def)

lemma pt_inv_section:
  assumes inv: "pt_inv c" and t: "place_of c t = Inside" and j: "jobs c t = Take \<or> jobs c t = Add x own \<or> jobs c t = Stop" and j': "leaves j'"
    and d: "mon d = mon c" "jobs d = (jobs c)(t := j')"
  shows "pt_inv d"
proof (rule pt_keep [OF inv _ d(2)])
  show "j' = Idle \<or> 0 < t" using pt_pos [OF inv] t by simp
qed (use t j' d in \<open>auto simp: job_at_def\<close>)

lemma pt_sim_workers:
  assumes inv: "pt_inv c"
  shows "jobs c t = Starting \<Longrightarrow> pool_step (counted c) (counted (set_job t Testing c))"
    and "jobs c t = Testing \<Longrightarrow> running (tp c) \<Longrightarrow> pool_step (counted c) (counted (set_job t Take c))"
    and "jobs c t = Testing \<Longrightarrow> \<not> running (tp c) \<Longrightarrow> pool_step (counted c) (counted (set_job t Finished c))"
    and "jobs c t = Busy x \<Longrightarrow> runInThread_end e = Inr () \<Longrightarrow>
      pool_step (counted c) (counted (set_job t Testing (c\<lparr>log_executed := add_mset x (log_executed c)\<rparr>)))"
proof -
  have swap: "\<exists>R. counted c = counted_bag (A + R) c \<and> counted c' = counted_bag (B + R) c'"
    if "jobs c t \<in> {Starting, Testing} \<or> jobs c t = Busy x" "\<And>w. tokens (jobs c t) w = A" "tok c' = tok (set_job t j c)" "tokens j False = B"
    for A B j and c' :: "'a pool_threads"
  proof (rule counted_swap [OF inv])
    have "\<not> in_wait (place_of c t)" by (rule out_of_wait [OF inv, of t x]) (use that(1) in auto)
    with that show "tok c t = A" "tok c' = (tok c)(t := B)" by (auto simp: tok_def tok_set)
  qed
  show "jobs c t = Starting \<Longrightarrow> pool_step (counted c) (counted (set_job t Testing c))"
    using swap [of "{#AtStart#}" "set_job t Testing c" Testing "{#AtTest#}"] ps_started [of "counted c"] by (auto simp: counted_bag_def)
  show "jobs c t = Testing \<Longrightarrow> running (tp c) \<Longrightarrow> pool_step (counted c) (counted (set_job t Take c))"
    using swap [of "{#AtTest#}" "set_job t Take c" Take "{#AtTake#}"] ps_run [of "counted c"] by (auto simp: counted_bag_def)
  show "jobs c t = Testing \<Longrightarrow> \<not> running (tp c) \<Longrightarrow> pool_step (counted c) (counted (set_job t Finished c))"
    using swap [of "{#AtTest#}" "set_job t Finished c" Finished "{#AtEnd#}"] ps_exit [of "counted c"] by (auto simp: counted_bag_def)
  show "jobs c t = Busy x \<Longrightarrow> runInThread_end e = Inr () \<Longrightarrow>
      pool_step (counted c) (counted (set_job t Testing (c\<lparr>log_executed := add_mset x (log_executed c)\<rparr>)))"
    using swap [of "{#InTask x#}" "set_job t Testing (c\<lparr>log_executed := add_mset x (log_executed c)\<rparr>)" Testing "{#AtTest#}"]
      ps_done [of x "counted c" e] by (auto simp: counted_bag_def tok_set)
qed

lemma pt_sim_calls:
  assumes inv: "pt_inv c" and th: "threads_of (tp c) \<noteq> []"
  shows "jobs c t = Idle \<Longrightarrow> pool_step (counted c) (counted (set_job t (Add x None) c))"
    and "jobs c t = Busy y \<Longrightarrow> pool_step (counted c) (counted (set_job t (Add x (Some y)) c))"
proof -
  have swap: "\<exists>R. counted c = counted_bag (own_task own + R) c \<and>
      counted (set_job t (Add x own) c) = counted_bag (add_mset (ToAdd x) (own_task own) + R) (set_job t (Add x own) c)"
    if "jobs c t = Idle \<and> own = None \<or> jobs c t = Busy y \<and> own = Some y" for own
  proof (rule counted_swap [OF inv])
    have "\<not> in_wait (place_of c t)" by (rule out_of_wait [OF inv, of t y]) (use that in auto)
    with that show "tok c t = own_task own" "tok (set_job t (Add x own) c) = (tok c)(t := add_mset (ToAdd x) (own_task own))"
      by (auto simp: tok_def tok_set)
  qed
  show "jobs c t = Idle \<Longrightarrow> pool_step (counted c) (counted (set_job t (Add x None) c))"
    using swap [of None] ps_call [of "counted c" x] th by (auto simp: counted_bag_def)
  show "jobs c t = Busy y \<Longrightarrow> pool_step (counted c) (counted (set_job t (Add x (Some y)) c))"
    using swap [of "Some y"] ps_call [of "counted c" x] th by (auto simp: counted_bag_def)
qed

text \<open>The critical sections.\<close>

lemma pt_sim_wait:
  assumes inv: "pt_inv c" and t: "place_of c t = Inside"
  shows "jobs c t = Add x own \<Longrightarrow> addTask_section t (mtx (mon c)) x (tp c) = Inr None \<Longrightarrow>
      pool_step (counted c) (counted (go t Entering_wait m c))"
    and "jobs c t = Take \<Longrightarrow> takeTask_section (tp c) = None \<Longrightarrow> pool_step (counted c) (counted (go t Entering_wait m c))"
proof -
  assume j: "jobs c t = Add x own" and s: "addTask_section t (mtx (mon c)) x (tp c) = Inr None"
  have "\<exists>R. counted c = counted_bag (add_mset (ToAdd x) (own_task own) + R) c \<and>
      counted (go t Entering_wait m c) = counted_bag (add_mset (ToSleep x) (own_task own) + R) (go t Entering_wait m c)"
    by (rule counted_swap [OF inv]) (simp_all add: tok_go tok_def j t)
  then show "pool_step (counted c) (counted (go t Entering_wait m c))"
    using ps_block [of x "counted c" t] s [unfolded section_locked [OF inv t]] by (auto simp: counted_bag_def)
next
  assume j: "jobs c t = Take" and s: "takeTask_section (tp c) = None"
  have "\<exists>R. counted c = counted_bag ({#AtTake#} + R) c \<and>
      counted (go t Entering_wait m c) = counted_bag ({#AtSleep#} + R) (go t Entering_wait m c)"
    by (rule counted_swap [OF inv]) (simp_all add: tok_go tok_def j t)
  then show "pool_step (counted c) (counted (go t Entering_wait m c))"
    using ps_sleep [of "counted c"] s by (auto simp: counted_bag_def)
qed

lemma pt_sim_add:
  assumes inv: "pt_inv c" and t: "place_of c t = Inside" and j: "jobs c t = Add x own"
    and s: "addTask_section t (mtx (mon c)) x (tp c) = Inr (Some p)"
    and c': "signalled on_notEmpty (set_job t (Added own) (c\<lparr>tp := p, log_added := log_added c @ [x]\<rparr>)) c'"
  shows "pool_step (counted c) (counted c')"
proof -
  let ?d = "set_job t (Added own) (c\<lparr>tp := p, log_added := log_added c @ [x]\<rparr>)"
  have d: "pt_inv ?d" by (rule pt_inv_section [OF inv t, of x own "Added own"]) (simp_all add: j)
  have "\<exists>R. counted c = counted_bag (add_mset (ToAdd x) (own_task own) + R) c \<and> counted ?d = counted_bag (own_task own + R) ?d"
    by (rule counted_swap [OF inv]) (simp_all add: tok_set tok_def j t)
  then have "pool_step (counted c) (notify_worker (counted ?d))"
    using ps_add [of x "counted c" t p] s [unfolded section_locked [OF inv t]] by (auto simp: counted_bag_def)
  then show ?thesis using signalled_notEmpty [OF d _ c'] t by simp
qed

lemma pt_sim_take:
  assumes inv: "pt_inv c" and t: "place_of c t = Inside" and j: "jobs c t = Take"
  shows "takeTask_section (tp c) = Some (None, p, n) \<Longrightarrow> pool_step (counted c) (counted (set_job t (Took None) (c\<lparr>tp := p\<rparr>)))"
    and "takeTask_section (tp c) = Some (Some x, p, n) \<Longrightarrow> d = set_job t (Took (Some x)) (c\<lparr>tp := p, log_taken := log_taken c @ [x]\<rparr>) \<Longrightarrow>
      (if n = Notify then signalled on_notFull d c' else c' = d) \<Longrightarrow> pool_step (counted c) (counted c')"
proof -
  assume s: "takeTask_section (tp c) = Some (None, p, n)"
  let ?d = "set_job t (Took None) (c\<lparr>tp := p\<rparr>)"
  have "\<exists>R. counted c = counted_bag ({#AtTake#} + R) c \<and> counted ?d = counted_bag ({#AtTest#} + R) ?d"
    by (rule counted_swap [OF inv]) (simp_all add: tok_set tok_def j t)
  then show "pool_step (counted c) (counted ?d)" using ps_no_task [of "counted c" p n] s by (auto simp: counted_bag_def)
next
  assume s: "takeTask_section (tp c) = Some (Some x, p, n)"
    and d: "d = set_job t (Took (Some x)) (c\<lparr>tp := p, log_taken := log_taken c @ [x]\<rparr>)"
    and c': "if n = Notify then signalled on_notFull d c' else c' = d"
  have di: "pt_inv d" by (rule pt_inv_section [OF inv t, of x None "Took (Some x)"]) (simp_all add: j d)
  have "\<exists>R. counted c = counted_bag ({#AtTake#} + R) c \<and> counted d = counted_bag ({#InTask x#} + R) d"
    by (rule counted_swap [OF inv]) (simp_all add: d tok_set tok_def j t)
  then have eq: "counted d = (counted c)\<lparr>pool := p, taking := taking (counted c) - 1, busy := add_mset x (busy (counted c)),
      taken := taken (counted c) @ [x]\<rparr>" and pos: "0 < taking (counted c)" and bl: "blocked (counted d) = blocked (counted c)"
    by (auto simp: counted_bag_def d)
  show "pool_step (counted c) (counted c')"
  proof (cases "n = Notify")
    case False
    then have "n = Silent" using s by (auto simp: takeTask_Some split: if_splits)
    with c' eq ps_take [OF pos, of x p n] s show ?thesis by simp
  next
    case True
    with c' have "signalled on_notFull d c'" by simp
    moreover have "place_of d t = Inside" using t by (simp add: d)
    ultimately consider "blocked (counted c) = {#}" "c' = d"
      | y where "y \<in># blocked (counted c)" "counted c' = wake_producer y (counted d)"
      using signalled_notFull [OF di] unfolding bl by blast
    then show ?thesis
    proof cases
      case 1
      with eq ps_take [OF pos, of x p n] s show ?thesis by simp
    next
      case 2
      with eq ps_take_notify [OF pos, of x p y] s True show ?thesis by simp
    qed
  qed
qed

lemma pt_sim_stop:
  assumes inv: "pt_inv c" and t: "place_of c t = Inside" and j: "jobs c t = Stop"
  shows "pool_step (counted c) (counted (broadcast on_notEmpty (set_job t Stopped (c\<lparr>tp := stop_section (tp c)\<rparr>))))"
proof -
  let ?d = "set_job t Stopped (c\<lparr>tp := stop_section (tp c)\<rparr>)"
  have d: "pt_inv ?d" by (rule pt_inv_section [OF inv t, of undefined undefined Stopped]) (simp_all add: j)
  have "tok ?d = tok c" by (auto simp: tok_def fun_eq_iff j)
  then have "counted ?d = (counted c)\<lparr>pool := stop_section (tp c)\<rparr>" by (simp add: counted_def counted_bag_def)
  then show ?thesis using broadcast_notEmpty [OF d, of t] t ps_stop [of "counted c"] by simp
qed

lemma pt_sim_wake:
  assumes inv: "pt_inv c" and t: "place_of c t = Asleep"
  shows "pool_step (counted c) (counted (wake t c))"
proof -
  from at_place(1) [OF inv, of t] t have "jobs c t = Take \<or> (\<exists>x own. jobs c t = Add x own)" by (auto simp: enters_def)
  then consider "jobs c t = Take" | x own where "jobs c t = Add x own" by blast
  then show ?thesis
  proof cases
    case 1
    have "\<exists>R. counted c = counted_bag ({#AtSleep#} + R) c \<and> counted (wake t c) = counted_bag ({#AtTake#} + R) (wake t c)"
      by (rule counted_swap [OF inv]) (simp_all add: tok_go tok_def wake_def 1 t)
    then show ?thesis using ps_spurious_worker [of "counted c"] by (auto simp: counted_bag_def)
  next
    case 2
    have "\<exists>R. counted c = counted_bag (add_mset (ToSleep x) (own_task own) + R) c \<and>
        counted (wake t c) = counted_bag (add_mset (ToAdd x) (own_task own) + R) (wake t c)"
      by (rule counted_swap [OF inv]) (simp_all add: tok_go tok_def wake_def 2 t)
    then show ?thesis using ps_spurious_producer [of x "counted c"] by (auto simp: counted_bag_def wake_producer_def)
  qed
qed

text \<open>An unlock is no step of Thread\_Pool.\<close>

lemma pt_sim_unlock:
  assumes inv: "pt_inv c" and t: "place_of c t = Leaving"
  shows "counted (set_job t (after_unlock (jobs c t)) (go t Outside_cs m c)) = counted c"
proof (rule counted_same)
  have "leaves (jobs c t)" by (rule at_place(2) [OF inv t])
  then have "tokens (after_unlock (jobs c t)) False = tokens (jobs c t) False"
    by (auto simp: leaves_def after_unlock_def split: option.splits)
  then show "tok (set_job t (after_unlock (jobs c t)) (go t Outside_cs m c)) = tok c"
    using t by (auto simp: tok_def fun_eq_iff)
qed simp_all

lemma pt_sim: "pt_step c c' \<Longrightarrow> pt_inv c \<Longrightarrow> pool_step\<^sup>*\<^sup>* (counted c) (counted c')"
proof (induction rule: pt_step.induct)
  case (pt_direct c x)
  have "counted (c\<lparr>log_executed := add_mset x (log_executed c)\<rparr>) = (counted c)\<lparr>executed := add_mset x (executed (counted c))\<rparr>"
    by (simp add: counted_def counted_bag_def)
  with pt_direct ps_direct [of "counted c" x] show ?case by (simp add: r_into_rtranclp)
next
  case (pt_stop t c)
  then have "counted (set_job t Stop c) = counted c" by (intro counted_same) (auto simp: tok_def fun_eq_iff)
  then show ?case by simp
next
  case (pt_call c t x)
  then show ?case by (simp add: r_into_rtranclp pt_sim_calls)
next
  case (pt_call_inside c t y x)
  then show ?case by (simp add: r_into_rtranclp pt_sim_calls)
next
  case (pt_add c t x own p c')
  then show ?case using pt_sim_add [of c t x own p c'] by blast
next
  case (pt_take c t x p n d c')
  then show ?case using pt_sim_take(2) [of c t x p n d c'] by blast
qed (simp_all add: r_into_rtranclp pt_sim_workers pt_sim_wait pt_sim_take(1) pt_sim_stop pt_sim_wake pt_sim_unlock counted_stay)

lemma counted_init: "pt_init c \<Longrightarrow> pool_init (counted c)"
proof -
  assume init: "pt_init c"
  then obtain ws where ws: "finite ws" "card ws = length (threads_of (tp c))" "jobs c = (\<lambda>t. if t \<in> ws then Starting else Idle)"
    by (auto simp: pt_init_def)
  have "tok c = (\<lambda>t. if t \<in> ws then {#AtStart#} else {#})" by (auto simp: tok_def ws(3) fun_eq_iff)
  then have "bag c = replicate_mset (length (threads_of (tp c))) AtStart" using total_const [OF ws(1), of AtStart] ws(2) by simp
  moreover have "tasks_in g (replicate_mset k AtStart) = {#}" if "g AtStart = None" for g :: "'a token \<Rightarrow> 'a option" and k
    using that by (induction k) simp_all
  ultimately show ?thesis using init by (auto simp: pool_init_def pt_init_def counted_def counted_bag_def)
qed

interpretation pool_sim: simulation pt_init pt_step pt_inv pool_init pool_step counted
  by unfold_locales (auto intro: counted_init pt_sim)

interpretation mon_sim: simulation pt_init pt_step pt_inv mon_init "mon_step False" mon
  by unfold_locales (auto simp: pt_init_def intro: pt_mon)

section \<open>Threads that go alone\<close>

text \<open>While nobody is in the way, \<open>addTask\<close> returns and \<open>takeTask\<close> gives the first task.\<close>

definition quiet :: "'t pool_threads \<Rightarrow> bool" where
  "quiet c \<longleftrightarrow> mtx (mon c) = MutexLock_new \<and> (\<forall>u. place_of c u = Outside_cs)"

lemma goto_goto [simp]: "goto_place t p m (goto_place t p' m' s) = goto_place t p m s"
  by (simp add: goto_place_def)

lemma goto_back: "quiet c \<Longrightarrow> goto_place t Outside_cs \<lparr>owner = None, holder = 0\<rparr> (mon c) = mon c"
  by (rule monitor.equality) (auto simp: quiet_def MutexLock_new_def goto_place_def fun_eq_iff)

lemma steps_cons: "pt_step c d \<Longrightarrow> pt_step\<^sup>*\<^sup>* d e \<Longrightarrow> pt_step\<^sup>*\<^sup>* c e"
  by (rule converse_rtranclp_into_rtranclp)

lemma add_alone:
  assumes q: "quiet c" and t: "0 < t" "jobs c t = Idle" and th: "threads_of (tp c) \<noteq> []" and room: "\<not> queue_full (tp c)"
  shows "pt_step\<^sup>*\<^sup>* c (c\<lparr>tp := (tp c)\<lparr>taskQueue := taskQueue (tp c) @ [x]\<rparr>, log_added := log_added c @ [x]\<rparr>)"
proof -
  let ?p = "(tp c)\<lparr>taskQueue := taskQueue (tp c) @ [x]\<rparr>"
  let ?c1 = "set_job t (Add x None) c"
  let ?c2 = "go t Taken \<lparr>owner = Some t, holder = 0\<rparr> ?c1"
  let ?c3 = "go t Inside (locked t) ?c2"
  let ?c4 = "set_job t (Added None) (?c3\<lparr>tp := ?p, log_added := log_added ?c3 @ [x]\<rparr>)"
  let ?c5 = "go t Leaving \<lparr>owner = Some t, holder = 0\<rparr> ?c4"
  let ?c6 = "set_job t (after_unlock (Added None)) (go t Outside_cs \<lparr>owner = None, holder = 0\<rparr> ?c5)"
  have m: "mtx (mon c) = \<lparr>owner = None, holder = 0\<rparr>" "place_of c u = Outside_cs" for u
    using q by (simp_all add: quiet_def MutexLock_new_def)
  have 1: "pt_step c ?c1" by (rule pt_call [OF th t])
  have 2: "pt_step ?c1 ?c2" by (rule pt_lock) (simp_all add: m pthread_lock_def)
  have 3: "pt_step ?c2 ?c3" using pt_assign [of ?c2 t] by (simp add: assignHolder_def)
  have 4: "pt_step ?c3 ?c4"
  proof (rule pt_add)
    show "signalled on_notEmpty ?c4 ?c4" by (simp add: signalled_def sleeps_def m)
  qed (use room in \<open>simp_all add: addTask_section_eq\<close>)
  have 5: "pt_step ?c4 ?c5" using pt_unassign [of ?c4 t] by (simp add: unassignHolder_def)
  have 6: "pt_step ?c5 ?c6" using pt_unlock [of ?c5 t] by (simp add: pthread_unlock_def)
  have "?c6 = c\<lparr>tp := ?p, log_added := log_added c @ [x]\<rparr>"
    by (rule pool_threads.equality) (use goto_back [OF q] t(2) in \<open>simp_all add: after_unlock_def fun_upd_idem\<close>)
  with 6 have "pt_step ?c5 (c\<lparr>tp := ?p, log_added := log_added c @ [x]\<rparr>)" by simp
  then show ?thesis
    by (intro steps_cons [OF 1] steps_cons [OF 2] steps_cons [OF 3] steps_cons [OF 4] steps_cons [OF 5] r_into_rtranclp)
qed

lemma take_alone:
  assumes q: "quiet c" and t: "jobs c t = Testing" "0 < t" and run: "running (tp c)" and task: "taskQueue (tp c) = x # xs"
  shows "pt_step\<^sup>*\<^sup>* c (set_job t (Busy x) (c\<lparr>tp := (tp c)\<lparr>taskQueue := xs\<rparr>, log_taken := log_taken c @ [x]\<rparr>))"
proof -
  let ?p = "(tp c)\<lparr>taskQueue := xs\<rparr>"
  let ?c1 = "set_job t Take c"
  let ?c2 = "go t Taken \<lparr>owner = Some t, holder = 0\<rparr> ?c1"
  let ?c3 = "go t Inside (locked t) ?c2"
  let ?c4 = "set_job t (Took (Some x)) (?c3\<lparr>tp := ?p, log_taken := log_taken ?c3 @ [x]\<rparr>)"
  let ?c5 = "go t Leaving \<lparr>owner = Some t, holder = 0\<rparr> ?c4"
  let ?c6 = "set_job t (after_unlock (Took (Some x))) (go t Outside_cs \<lparr>owner = None, holder = 0\<rparr> ?c5)"
  have m: "mtx (mon c) = \<lparr>owner = None, holder = 0\<rparr>" "place_of c u = Outside_cs" for u
    using q by (simp_all add: quiet_def MutexLock_new_def)
  have 1: "pt_step c ?c1" by (rule pt_run [OF t(1) run])
  have 2: "pt_step ?c1 ?c2" by (rule pt_lock) (simp_all add: m pthread_lock_def)
  have 3: "pt_step ?c2 ?c3" using pt_assign [of ?c2 t] by (simp add: assignHolder_def)
  have 4: "pt_step ?c3 ?c4"
  proof (rule pt_take)
    show "takeTask_section (tp ?c3) = Some (Some x, ?p, if 0 < maxQueueSize (tp c) then Notify else Silent)"
      using task by (simp add: takeTask_section_def)
    show "if (if 0 < maxQueueSize (tp c) then Notify else Silent) = Notify then signalled on_notFull ?c4 ?c4 else ?c4 = ?c4"
      by (simp add: signalled_def sleeps_def m)
  qed simp_all
  have 5: "pt_step ?c4 ?c5" using pt_unassign [of ?c4 t] by (simp add: unassignHolder_def)
  have 6: "pt_step ?c5 ?c6" using pt_unlock [of ?c5 t] by (simp add: pthread_unlock_def)
  let ?e = "set_job t (Busy x) (c\<lparr>tp := ?p, log_taken := log_taken c @ [x]\<rparr>)"
  have "?c6 = ?e"
    by (rule pool_threads.equality) (use goto_back [OF q] in \<open>simp_all add: after_unlock_def\<close>)
  with 6 have "pt_step ?c5 ?e" by simp
  then show ?thesis
    by (intro steps_cons [OF 1] steps_cons [OF 2] steps_cons [OF 3] steps_cons [OF 4] steps_cons [OF 5] r_into_rtranclp)
qed

section \<open>Stopping a pool whose tasks add no tasks\<close>

definition is_worker :: "'t job \<Rightarrow> bool" where
  "is_worker j \<longleftrightarrow> (case j of Idle \<Rightarrow> False | Add _ _ \<Rightarrow> False | Added _ \<Rightarrow> False | Stop \<Rightarrow> False | Stopped \<Rightarrow> False | _ \<Rightarrow> True)"

text \<open>No worker is in a call of \<open>addTask\<close> by its own task.\<close>

definition no_inner_adds :: "'t pool_threads \<Rightarrow> bool" where
  "no_inner_adds c \<longleftrightarrow> (\<forall>t x y. jobs c t \<noteq> Add x (Some y) \<and> jobs c t \<noteq> Added (Some y))"

definition calm_step :: "'t pool_threads \<Rightarrow> 't pool_threads \<Rightarrow> bool" where
  "calm_step c c' \<longleftrightarrow> pt_step c c' \<and> no_inner_adds c'"

text \<open>How many steps a worker of a stopped pool has left at most, and all of them together.\<close>

definition rank :: "'t job \<Rightarrow> mplace \<Rightarrow> nat" where
  "rank j p = (case j of
       Starting \<Rightarrow> 2
     | Testing \<Rightarrow> 1
     | Take \<Rightarrow> if p = Inside then 5 else if p = Taken then 6 else 7
     | Took _ \<Rightarrow> if p = Leaving then 3 else 4
     | Busy _ \<Rightarrow> 2
     | _ \<Rightarrow> 0)"

definition rank_of :: "'t pool_threads \<Rightarrow> tid \<Rightarrow> nat" where
  "rank_of c t = rank (jobs c t) (place_of c t)"

definition job_work :: "'t pool_threads \<Rightarrow> nat" where
  "job_work c = sum (rank_of c) {t. jobs c t \<noteq> Idle}"

definition workers_same :: "'t pool_threads \<Rightarrow> 't pool_threads \<Rightarrow> bool" where
  "workers_same c c' \<longleftrightarrow> (\<forall>t. is_worker (jobs c t) \<longrightarrow> jobs c' t = jobs c t \<and> place_of c' t = place_of c t)"

definition stopped_ok :: "'t pool_threads \<Rightarrow> bool" where
  "stopped_ok c \<longleftrightarrow> pt_inv c \<and> pool_inv (counted c) \<and> \<not> running (tp c) \<and> no_inner_adds c"

lemma is_worker_simps [simp]:
  "is_worker Starting" "is_worker Testing" "is_worker Take" "is_worker (Took r)" "is_worker (Busy x)" "is_worker Finished"
  "\<not> is_worker Idle" "\<not> is_worker (Add x own)" "\<not> is_worker (Added own)" "\<not> is_worker Stop" "\<not> is_worker Stopped"
  by (simp_all add: is_worker_def)

lemma rank_simps [simp]:
  "rank Starting p = 2" "rank Testing p = 1" "rank (Busy x) p = 2" "rank Finished p = 0" "rank Idle p = 0"
  "rank (Add x own) p = 0" "rank (Added own) p = 0" "rank Stop p = 0" "rank Stopped p = 0"
  "rank Take p = (if p = Inside then 5 else if p = Taken then 6 else 7)" "rank (Took r) p = (if p = Leaving then 3 else 4)"
  by (simp_all add: rank_def)

text \<open>In a stopped pool no worker is in a wait.\<close>

lemma stopped_awake:
  assumes "stopped_ok c" and "jobs c t = Take"
  shows "\<not> in_wait (place_of c t)"
proof
  assume w: "in_wait (place_of c t)"
  from assms(1) have inv: "pt_inv c" by (simp add: stopped_ok_def)
  obtain R where "bag c = tok c t + R" using total_split [OF tok_finite [OF inv], of t] by blast
  then have "0 < sleeping (counted c)" using w assms(2) by (simp add: counted_def counted_bag_def tok_def)
  with assms(1) show False by (auto simp: stopped_ok_def pool_inv_def signal_inv_def)
qed

text \<open>The sum changes with the one thread that moves.\<close>

lemma work_change:
  fixes c c' :: "'t pool_threads"
  assumes "pt_inv c" and "pt_inv c'" and same: "\<And>u. u \<noteq> t \<Longrightarrow> rank_of c' u = rank_of c u"
  shows "job_work c' + rank_of c t = job_work c + rank_of c' t"
proof -
  let ?S = "insert t ({u. jobs c u \<noteq> Idle} \<union> {u. jobs c' u \<noteq> Idle})"
  have S: "finite ?S" using assms(1,2) by (simp add: pt_inv_def)
  have "job_work c = sum (rank_of c) ?S" unfolding job_work_def
    by (rule sum.mono_neutral_left [OF S]) (auto simp: rank_of_def)
  moreover have "job_work c' = sum (rank_of c') ?S" unfolding job_work_def
    by (rule sum.mono_neutral_left [OF S]) (auto simp: rank_of_def)
  moreover have "sum (rank_of c') (?S - {t}) = sum (rank_of c) (?S - {t})" by (rule sum.cong) (auto simp: same)
  moreover have "sum (rank_of d) ?S = rank_of d t + sum (rank_of d) (?S - {t})" for d :: "'t pool_threads"
    by (rule sum.remove [OF S]) simp
  note this [of c] this [of c']
  ultimately show ?thesis by linarith
qed

lemma stopped_ok_step: "stopped_ok c \<Longrightarrow> calm_step c c' \<Longrightarrow> running (tp c') = running (tp c) \<Longrightarrow> stopped_ok c'"
  using pt_step_inv [of c c'] pt_sim [of c c'] pools.steps_inv [of "counted c" "counted c'"]
  by (auto simp: stopped_ok_def calm_step_def)

text \<open>A step either leaves all workers where they are or takes one of the steps they have left.\<close>

definition fewer :: "'t pool_threads \<Rightarrow> 't pool_threads \<Rightarrow> bool" where
  "fewer c c' \<longleftrightarrow> \<not> running (tp c') \<and> (job_work c' < job_work c \<or> job_work c' = job_work c \<and> workers_same c c')"

lemma fewerI:
  assumes "pt_inv c" and "pt_inv c'" and "\<not> running (tp c')"
    and other: "\<And>u. u \<noteq> t \<Longrightarrow> jobs c' u = jobs c u \<and> (place_of c' u = place_of c u \<or> place_of c u = Asleep \<and> place_of c' u = Woken)"
    and awake: "\<And>u. jobs c u = Take \<Longrightarrow> \<not> in_wait (place_of c u)"
    and t: "rank_of c' t < rank_of c t \<or> \<not> is_worker (jobs c t) \<and> \<not> is_worker (jobs c' t) \<or>
      jobs c' t = jobs c t \<and> place_of c' t = place_of c t"
  shows "fewer c c'"
proof -
  have still: "jobs c' u = jobs c u \<and> place_of c' u = place_of c u" if "u \<noteq> t" "is_worker (jobs c u)" for u
  proof -
    from at_place(1) [OF assms(1), of u] that(2) awake [of u] have "place_of c u \<noteq> Asleep"
      by (auto simp: enters_def)
    with other [OF that(1)] show ?thesis by auto
  qed
  have "rank_of c' u = rank_of c u" if "u \<noteq> t" for u
    using other [OF that] by (auto simp: rank_of_def rank_def split: job.split)
  then have w: "job_work c' + rank_of c t = job_work c + rank_of c' t" by (rule work_change [OF assms(1,2)])
  have zero: "\<not> is_worker j \<Longrightarrow> rank j p = 0" for j :: "'a job" and p by (cases j) simp_all
  from t show ?thesis
  proof (elim disjE conjE)
    assume "rank_of c' t < rank_of c t"
    with w assms(3) show ?thesis by (simp add: fewer_def)
  next
    assume n: "\<not> is_worker (jobs c t)" "\<not> is_worker (jobs c' t)"
    then have "rank_of c t = 0" "rank_of c' t = 0" by (simp_all add: rank_of_def zero)
    moreover have "workers_same c c'" using still n(1) by (auto simp: workers_same_def) (metis n(1))+
    ultimately show ?thesis using w assms(3) by (simp add: fewer_def)
  next
    assume s: "jobs c' t = jobs c t" "place_of c' t = place_of c t"
    then have "workers_same c c'" using still unfolding workers_same_def by metis
    with w s assms(3) show ?thesis by (simp add: fewer_def rank_of_def)
  qed
qed

lemma stopped_fewer:
  assumes ok: "stopped_ok c" and step: "calm_step c c'"
  shows "fewer c c'"
proof -
  from ok have inv: "pt_inv c" and stop: "\<not> running (tp c)" and plain: "no_inner_adds c" by (simp_all add: stopped_ok_def)
  from step have st: "pt_step c c'" and plain': "no_inner_adds c'" by (simp_all add: calm_step_def)
  note inv' = pt_step_inv [OF st inv]
  note awake = stopped_awake [OF ok]
  note I = fewerI [OF inv inv' _ _ awake]
  note A = at_place [OF inv]
  from st show ?thesis
  proof cases
    case (pt_direct x)
    then show ?thesis using stop by (intro I [of 0]) simp_all
  next
    case (pt_call t x)
    then show ?thesis using stop by (intro I [of t]) simp_all
  next
    case (pt_call_inside t y x)
    then have "jobs c' t = Add x (Some y)" by simp
    with plain' show ?thesis by (simp add: no_inner_adds_def)
  next
    case (pt_stop t)
    then show ?thesis using stop by (intro I [of t]) simp_all
  next
    case (pt_started t)
    then show ?thesis using stop by (intro I [of t]) (simp_all add: rank_of_def)
  next
    case (pt_run t)
    with stop show ?thesis by simp
  next
    case (pt_exit t)
    then show ?thesis using stop by (intro I [of t]) (simp_all add: rank_of_def)
  next
    case (pt_done t x e)
    then show ?thesis using stop by (intro I [of t]) (simp_all add: rank_of_def)
  next
    case (pt_lock t m)
    then show ?thesis using stop by (intro I [of t]) (auto simp: rank_of_def enters_def)
  next
    case (pt_assign t)
    then show ?thesis using stop A(1) [of t] by (intro I [of t]) (auto simp: rank_of_def enters_def)
  next
    case (pt_add_wait t x own)
    then show ?thesis using stop by (intro I [of t]) simp_all
  next
    case (pt_add t x own p)
    then have p: "\<not> running p" using stop section_locked [OF inv, of t x "tp c"] by (auto simp: addTask_section_eq split: if_splits)
    show ?thesis using pt_add(4,1,2) p
      by (intro I [of t]; elim signalled_cases) (auto simp: wake_def)
  next
    case (pt_take_wait t)
    with stop show ?thesis by (simp add: takeTask_None)
  next
    case (pt_take_none t p n)
    then show ?thesis using stop by (intro I [of t]) (simp_all add: takeTask_empty rank_of_def)
  next
    case (pt_take t x p n d)
    then have p: "\<not> running p" using stop by (auto simp: takeTask_Some)
    show ?thesis using pt_take p
      by (intro I [of t]) (auto simp: rank_of_def on_notFull_def wake_def elim!: signalled_cases split: if_splits)
  next
    case (pt_stopping t)
    then show ?thesis by (intro I [of t]) (auto simp: sleeps_def stop_section_def)
  next
    case (pt_sleep t m)
    then show ?thesis using stop A(1) [of t] awake [of t] by (intro I [of t]) (auto simp: enters_def)
  next
    case (pt_spurious t)
    then show ?thesis using stop A(1) [of t] awake [of t] by (intro I [of t]) (auto simp: enters_def wake_def)
  next
    case (pt_retake t m)
    then show ?thesis using stop A(1) [of t] by (intro I [of t]) (auto simp: rank_of_def enters_def)
  next
    case (pt_unassign t)
    then show ?thesis using stop by (intro I [of t]) (auto simp: rank_of_def leaves_def)
  next
    case (pt_unlock t m)
    with plain A(2) [of t] stop show ?thesis
      by (intro I [of t]) (auto simp: rank_of_def leaves_def after_unlock_def no_inner_adds_def split: option.splits)
  qed
qed


text \<open>The threads of the workers are as many as \<open>start\<close> made.\<close>

definition of_worker :: "'t token \<Rightarrow> bool" where
  "of_worker a \<longleftrightarrow> (case a of ToAdd _ \<Rightarrow> False | ToSleep _ \<Rightarrow> False | _ \<Rightarrow> True)"

lemma of_worker_simps [simp]:
  "of_worker AtStart" "of_worker AtTest" "of_worker AtTake" "of_worker AtSleep" "of_worker (InTask x)" "of_worker AtEnd"
  "\<not> of_worker (ToAdd x)" "\<not> of_worker (ToSleep x)"
  by (simp_all add: of_worker_def)

lemma worker_tokens:
  "size (filter_mset of_worker m) = count m AtStart + count m AtTest + count m AtTake + count m AtSleep +
     size (tasks_in running_task m) + count m AtEnd"
proof (induction m)
  case (add a m)
  then show ?case by (cases a) simp_all
qed simp

lemma worker_sum: "finite S \<Longrightarrow> size (filter_mset P (sum f S)) = (\<Sum>t\<in>S. size (filter_mset P (f t)))"
  by (induction S rule: finite_induct) simp_all

lemma worker_count:
  assumes "stopped_ok c"
  shows "card {t. is_worker (jobs c t)} = length (threads_of (tp c))" and "finite {t. is_worker (jobs c t)}"
proof -
  let ?S = "{t. jobs c t \<noteq> Idle}"
  from assms have inv: "pt_inv c" and "worker_inv (counted c)" and plain: "no_inner_adds c"
    by (simp_all add: stopped_ok_def pool_inv_def)
  then have "length (threads_of (tp c)) = size (filter_mset of_worker (bag c))"
    unfolding worker_tokens by (simp add: worker_inv_def counted_def)
  also have fin: "finite ?S" using inv by (simp add: pt_inv_def)
  have "bag c = sum (tok c) ?S" by (rule total_superset [OF fin]) (auto simp: tok_def)
  also have "size (filter_mset of_worker (sum (tok c) ?S)) = (\<Sum>t\<in>?S. size (filter_mset of_worker (tok c t)))"
    using fin by (rule worker_sum)
  also have "\<dots> = (\<Sum>t\<in>?S. if is_worker (jobs c t) then 1 else 0)"
  proof (rule sum.cong)
    fix t
    have "own = None" if "jobs c t = Add x own \<or> jobs c t = Added own" for x own
      using that plain by (cases own) (auto simp: no_inner_adds_def)
    then show "size (filter_mset of_worker (tok c t)) = (if is_worker (jobs c t) then 1 else 0)"
      by (cases "jobs c t") (auto simp: tok_def split: option.split)
  qed simp
  also have "\<dots> = card (?S \<inter> {t. is_worker (jobs c t)})" using fin by (simp add: sum.If_cases)
  also have "?S \<inter> {t. is_worker (jobs c t)} = {t. is_worker (jobs c t)}" by auto
  finally show "card {t. is_worker (jobs c t)} = length (threads_of (tp c))" by simp
  show "finite {t. is_worker (jobs c t)}" by (rule finite_subset [OF _ fin]) auto
qed

lemma job_work_bound:
  assumes ok: "stopped_ok c"
  shows "job_work c \<le> 7 * length (threads_of (tp c))"
proof -
  have fin: "finite {t. jobs c t \<noteq> Idle}" using ok by (simp add: stopped_ok_def pt_inv_def)
  have "job_work c = sum (rank_of c) {t. is_worker (jobs c t)}"
    unfolding job_work_def by (rule sum.mono_neutral_right [OF fin]) (auto simp: rank_of_def rank_def is_worker_def split: job.splits)
  also have "\<dots> \<le> (\<Sum>t | is_worker (jobs c t). 7)"
    by (rule sum_mono) (auto simp: rank_of_def rank_def split: job.split)
  finally show ?thesis using worker_count(1) [OF ok] by simp
qed

lemma keeps_threads: "pt_step c c' \<Longrightarrow> threads_of (tp c') = threads_of (tp c)"
  by (induction rule: pt_step.induct)
    (auto simp: takeTask_empty takeTask_Some stop_section_def addTask_section_def isFull_def assertLocked_def result_simps wake_def
      elim!: signalled_cases split: if_splits)

lemma stopped_next:
  assumes "stopped_ok c" and "calm_step c c'"
  shows "stopped_ok c'" and "threads_of (tp c') = threads_of (tp c)"
  using stopped_ok_step [OF assms] stopped_fewer [OF assms] assms keeps_threads [of c c']
  by (simp_all add: fewer_def stopped_ok_def calm_step_def)

text \<open>The steps in which a worker moves, on a run.\<close>

fun calm_run :: "'t pool_threads list \<Rightarrow> bool" where
  "calm_run (c # c' # cs) \<longleftrightarrow> calm_step c c' \<and> calm_run (c' # cs)"
| "calm_run cs \<longleftrightarrow> True"

fun worker_moves :: "'t pool_threads list \<Rightarrow> nat" where
  "worker_moves (c # c' # cs) = (if \<forall>t. is_worker (jobs c t) \<longrightarrow> jobs c' t = jobs c t \<and> place_of c' t = place_of c t then 0 else 1) +
     worker_moves (c' # cs)"
| "worker_moves cs = 0"

lemma moves_bounded: "calm_run (c # cs) \<Longrightarrow> stopped_ok c \<Longrightarrow> worker_moves (c # cs) \<le> job_work c"
proof (induction cs arbitrary: c)
  case (Cons d cs)
  then have st: "calm_step c d" "calm_run (d # cs)" by simp_all
  from Cons.IH [OF st(2) stopped_next(1) [OF Cons.prems(2) st(1)]] stopped_fewer [OF Cons.prems(2) st(1)]
  show ?case by (auto simp: fewer_def workers_same_def)
qed simp

text \<open>
  Someone can always go on: the thread that owns the mutex has at most five steps before it lets it go, and
  when nobody owns it a worker that is not through can take its next step.
\<close>

definition owner_left :: "'t pool_threads \<Rightarrow> nat" where
  "owner_left c = (case owner (mtx (mon c)) of
       None \<Rightarrow> 0
     | Some u \<Rightarrow> if place_of c u = Taken then 5 else if place_of c u = Inside then if leaves (jobs c u) then 3 else 4 else 2)"

lemma owner_left_le: "owner_left c \<le> 5"
  by (simp add: owner_left_def split: option.split)

lemma signalled_some:
  obtains d where "signalled W c d" "jobs d = jobs c" "tp d = tp c" "mtx (mon d) = mtx (mon c)"
    "\<And>u. place_of c u \<noteq> Asleep \<Longrightarrow> place_of d u = place_of c u"
proof (cases "\<exists>u. sleeps W c u")
  case True
  then obtain u where u: "sleeps W c u" ..
  show thesis by (rule that [of "wake u c"]) (use u in \<open>auto simp: signalled_def sleeps_def\<close>)
next
  case False
  show thesis by (rule that [of c]) (use False in \<open>auto simp: signalled_def\<close>)
qed

lemma section_goes:
  assumes ok: "stopped_ok c" and u: "owner (mtx (mon c)) = Some u" "place_of c u = Inside" and j: "\<not> leaves (jobs c u)"
  shows "\<exists>c'. calm_step c c' \<and> owner_left c' < owner_left c"
proof -
  from ok have inv: "pt_inv c" and stop: "\<not> running (tp c)" and plain: "no_inner_adds c" by (simp_all add: stopped_ok_def)
  have four: "owner_left c = 4" using u j by (simp add: owner_left_def)
  from pt_at [OF inv, of u] u(2) j consider "jobs c u = Take" | x own where "jobs c u = Add x own" | "jobs c u = Stop"
    by (auto simp: job_at_def enters_def split: if_splits)
  then show ?thesis
  proof cases
    case 1
    show ?thesis
    proof (cases "taskQueue (tp c)")
      case Nil
      let ?d = "set_job u (Took None) (c\<lparr>tp := tp c\<rparr>)"
      have "pt_step c ?d" by (rule pt_take_none [OF 1 u(2)]) (use Nil stop in \<open>simp add: takeTask_empty\<close>)
      with u plain four show ?thesis by (intro exI [of _ ?d]) (auto simp: calm_step_def no_inner_adds_def owner_left_def)
    next
      case (Cons x xs)
      let ?d = "set_job u (Took (Some x)) (c\<lparr>tp := (tp c)\<lparr>taskQueue := xs\<rparr>, log_taken := log_taken c @ [x]\<rparr>)"
      obtain n where n: "takeTask_section (tp c) = Some (Some x, (tp c)\<lparr>taskQueue := xs\<rparr>, n)" using Cons by (auto simp: takeTask_Some)
      obtain e where e: "signalled on_notFull ?d e" "jobs e = jobs ?d" "mtx (mon e) = mtx (mon c)" "place_of e u = Inside"
        by (rule signalled_some [of on_notFull ?d]) (use u in auto)
      let ?e = "if n = Notify then e else ?d"
      have "pt_step c ?e" by (rule pt_take [OF 1 u(2) n refl]) (use e in simp)
      with u e plain four show ?thesis by (intro exI [of _ ?e]) (auto simp: calm_step_def no_inner_adds_def owner_left_def)
    qed
  next
    case (2 x own)
    then have none: "own = None" using plain by (cases own) (auto simp: no_inner_adds_def)
    note sec = section_locked [OF inv u(2), of x "tp c", unfolded addTask_section_eq]
    show ?thesis
    proof (cases "queue_full (tp c)")
      case True
      let ?d = "go u Entering_wait (unassignHolder (mtx (mon c))) c"
      have "pt_step c ?d" by (rule pt_add_wait [OF 2 u(2)]) (use True sec in simp)
      with u plain four show ?thesis by (intro exI [of _ ?d]) (auto simp: calm_step_def no_inner_adds_def owner_left_def unassignHolder_def)
    next
      case False
      let ?d = "set_job u (Added own) (c\<lparr>tp := (tp c)\<lparr>taskQueue := taskQueue (tp c) @ [x]\<rparr>, log_added := log_added c @ [x]\<rparr>)"
      obtain e where e: "signalled on_notEmpty ?d e" "jobs e = jobs ?d" "mtx (mon e) = mtx (mon c)" "place_of e u = Inside"
        by (rule signalled_some [of on_notEmpty ?d]) (use u in auto)
      have "pt_step c e" by (rule pt_add [OF 2 u(2) _ e(1)]) (use False sec in simp)
      with u e plain none four show ?thesis by (intro exI [of _ e]) (auto simp: calm_step_def no_inner_adds_def owner_left_def)
    qed
  next
    case 3
    let ?d = "broadcast on_notEmpty (set_job u Stopped (c\<lparr>tp := stop_section (tp c)\<rparr>))"
    have "pt_step c ?d" by (rule pt_stopping [OF 3 u(2)])
    with u plain four show ?thesis by (intro exI [of _ ?d]) (auto simp: calm_step_def no_inner_adds_def owner_left_def sleeps_def)
  qed
qed

lemma owner_goes:
  assumes ok: "stopped_ok c" and u: "owner (mtx (mon c)) = Some u"
  shows "\<exists>c'. calm_step c c' \<and> owner_left c' < owner_left c"
proof -
  from ok have inv: "pt_inv c" and plain: "no_inner_adds c" by (simp_all add: stopped_ok_def)
  have "owning (place_of c u)" using inv u by (auto simp: pt_inv_def holder_inv_def excl_inv_def)
  then consider "place_of c u = Taken" | "place_of c u = Inside" "leaves (jobs c u)" | "place_of c u = Inside" "\<not> leaves (jobs c u)"
    | "place_of c u = Leaving" | "place_of c u = Entering_wait" by (auto simp: owning_def)
  then show ?thesis
  proof cases
    case 1
    let ?d = "go u Inside (assignHolder u (mtx (mon c))) c"
    have "pt_step c ?d" by (rule pt_assign [OF 1])
    with u 1 plain show ?thesis by (intro exI [of _ ?d]) (auto simp: calm_step_def no_inner_adds_def owner_left_def assignHolder_def)
  next
    case 2
    let ?d = "go u Leaving (unassignHolder (mtx (mon c))) c"
    have "pt_step c ?d" by (rule pt_unassign [OF 2(2,1)])
    with u 2 plain show ?thesis by (intro exI [of _ ?d]) (auto simp: calm_step_def no_inner_adds_def owner_left_def unassignHolder_def)
  next
    case 3
    then show ?thesis by (rule section_goes [OF ok u])
  next
    case 4
    let ?m = "(mtx (mon c))\<lparr>owner := None\<rparr>"
    let ?d = "set_job u (after_unlock (jobs c u)) (go u Outside_cs ?m c)"
    have "pt_step c ?d" by (rule pt_unlock [OF 4]) (use u in \<open>simp add: pthread_unlock_def\<close>)
    with u 4 plain show ?thesis
      by (intro exI [of _ ?d]) (auto simp: calm_step_def no_inner_adds_def owner_left_def after_unlock_def split: job.splits option.splits)
  next
    case 5
    let ?m = "(mtx (mon c))\<lparr>owner := None\<rparr>"
    let ?d = "go u Asleep ?m c"
    have "pt_step c ?d" by (rule pt_sleep [OF 5]) (use u in \<open>simp add: pthread_unlock_def\<close>)
    with u 5 plain show ?thesis by (intro exI [of _ ?d]) (auto simp: calm_step_def no_inner_adds_def owner_left_def)
  qed
qed

lemma worker_goes:
  assumes ok: "stopped_ok c" and free: "owner (mtx (mon c)) = None" and t: "is_worker (jobs c t)" "jobs c t \<noteq> Finished"
  shows "\<exists>c'. calm_step c c' \<and> job_work c' < job_work c"
proof -
  from ok have inv: "pt_inv c" and stop: "\<not> running (tp c)" and plain: "no_inner_adds c" by (simp_all add: stopped_ok_def)
  have out: "\<not> owning (place_of c t)" using inv free by (simp add: pt_inv_def holder_inv_def excl_inv_def)
  have untimed: "place_of c t \<noteq> Timed_asleep" "place_of c t \<noteq> Timed_woken" using inv by (simp_all add: pt_inv_def holder_inv_def)
  have less: ?thesis if "calm_step c c'" "jobs c' t \<noteq> jobs c t \<or> place_of c' t \<noteq> place_of c t" for c'
    using stopped_fewer [OF ok that(1)] that t(1) by (auto simp: fewer_def workers_same_def)
  have lock: "pthread_lock t (mtx (mon c)) = Some ((mtx (mon c))\<lparr>owner := Some t\<rparr>)" using free by (simp add: pthread_lock_def)
  from t consider "jobs c t = Starting" | "jobs c t = Testing" | "jobs c t = Take" | r where "jobs c t = Took r" | x where "jobs c t = Busy x"
    by (cases "jobs c t") auto
  then show ?thesis
  proof cases
    case 1
    show ?thesis using pt_started [OF 1] 1 plain by (intro less [of "set_job t Testing c"]) (auto simp: calm_step_def no_inner_adds_def)
  next
    case 2
    show ?thesis using pt_exit [OF 2 stop] 2 plain by (intro less [of "set_job t Finished c"]) (auto simp: calm_step_def no_inner_adds_def)
  next
    case 3
    have "place_of c t = Outside_cs \<or> place_of c t = Woken"
      using stopped_awake [OF ok 3] out untimed by (cases "place_of c t") auto
    then have "pt_step c (go t Taken ((mtx (mon c))\<lparr>owner := Some t\<rparr>) c)"
      using pt_lock [OF _ _ lock] pt_retake [OF _ lock] 3 by auto
    then show ?thesis using out plain
      by (intro less [of "go t Taken ((mtx (mon c))\<lparr>owner := Some t\<rparr>) c"]) (auto simp: calm_step_def no_inner_adds_def owning_def)
  next
    case (4 r)
    with pt_at [OF inv, of t] out show ?thesis by (auto simp: job_at_def)
  next
    case (5 x)
    let ?d = "set_job t Testing (c\<lparr>log_executed := add_mset x (log_executed c)\<rparr>)"
    have "pt_step c ?d" by (rule pt_done [OF 5, of Returned]) (simp add: runInThread_end_def)
    then show ?thesis using 5 plain by (intro less [of ?d]) (auto simp: calm_step_def no_inner_adds_def)
  qed
qed

lemma workers_finish:
  assumes "stopped_ok c"
  shows "\<exists>c'. calm_step\<^sup>*\<^sup>* c c' \<and> card {t. jobs c' t = Finished} = length (threads_of (tp c))"
  using assms
proof (induction "6 * job_work c + owner_left c" arbitrary: c rule: less_induct)
  case less
  show ?case
  proof (cases "\<forall>t. is_worker (jobs c t) \<longrightarrow> jobs c t = Finished")
    case True
    then have "{t. jobs c t = Finished} = {t. is_worker (jobs c t)}" by auto
    with worker_count(1) [OF less.prems] show ?thesis by auto
  next
    case False
    then obtain t where t: "is_worker (jobs c t)" "jobs c t \<noteq> Finished" by blast
    obtain d where d: "calm_step c d" and o: "job_work d < job_work c \<or> owner_left d < owner_left c"
    proof (cases "owner (mtx (mon c))")
      case None
      from worker_goes [OF less.prems None t] show thesis using that by blast
    next
      case (Some u)
      from owner_goes [OF less.prems Some] show thesis using that by blast
    qed
    have "job_work d \<le> job_work c" using stopped_fewer [OF less.prems d] by (auto simp: fewer_def)
    with o owner_left_le [of d] have "6 * job_work d + owner_left d < 6 * job_work c + owner_left c" by auto
    from less.hyps [OF this stopped_next(1) [OF less.prems d]] stopped_next(2) [OF less.prems d] d
    show ?thesis by (metis converse_rtranclp_into_rtranclp)
  qed
qed

lemma stopped_later: "calm_step\<^sup>*\<^sup>* c c' \<Longrightarrow> stopped_ok c \<Longrightarrow> stopped_ok c' \<and> threads_of (tp c') = threads_of (tp c)"
  by (induction rule: rtranclp_induct) (use stopped_next in \<open>force+\<close>)

text \<open>A pool with one worker, stopped while a task is queued.\<close>

lemma stop_alone:
  assumes q: "quiet c" and t: "0 < t" "jobs c t = Idle"
  shows "pt_step\<^sup>*\<^sup>* c (c\<lparr>tp := stop_section (tp c)\<rparr>)"
proof -
  let ?c1 = "set_job t Stop c"
  let ?c2 = "go t Taken \<lparr>owner = Some t, holder = 0\<rparr> ?c1"
  let ?c3 = "go t Inside (locked t) ?c2"
  let ?c4 = "broadcast on_notEmpty (set_job t Stopped (?c3\<lparr>tp := stop_section (tp c)\<rparr>))"
  let ?c5 = "go t Leaving \<lparr>owner = Some t, holder = 0\<rparr> ?c4"
  let ?c6 = "set_job t (after_unlock Stopped) (go t Outside_cs \<lparr>owner = None, holder = 0\<rparr> ?c5)"
  have m: "mtx (mon c) = \<lparr>owner = None, holder = 0\<rparr>" "place_of c u = Outside_cs" for u
    using q by (simp_all add: quiet_def MutexLock_new_def)
  have 1: "pt_step c ?c1" by (rule pt_stop [OF t])
  have 2: "pt_step ?c1 ?c2" by (rule pt_lock) (simp_all add: m pthread_lock_def)
  have 3: "pt_step ?c2 ?c3" using pt_assign [of ?c2 t] by (simp add: assignHolder_def)
  have 4: "pt_step ?c3 ?c4" using pt_stopping [of ?c3 t] by simp
  have 5: "pt_step ?c4 ?c5" using pt_unassign [of ?c4 t] by (simp add: unassignHolder_def sleeps_def)
  have 6: "pt_step ?c5 ?c6" using pt_unlock [of ?c5 t] by (simp add: pthread_unlock_def)
  have "place_of c = (\<lambda>_. Outside_cs)" using m by (simp add: fun_eq_iff)
  then have "?c6 = c\<lparr>tp := stop_section (tp c)\<rparr>"
    by (intro pool_threads.equality monitor.equality)
      (use m t(2) in \<open>auto simp: after_unlock_def sleeps_def fun_eq_iff\<close>)
  with 6 have "pt_step ?c5 (c\<lparr>tp := stop_section (tp c)\<rparr>)" by simp
  then show ?thesis
    by (intro steps_cons [OF 1] steps_cons [OF 2] steps_cons [OF 3] steps_cons [OF 4] steps_cons [OF 5] r_into_rtranclp)
qed

section \<open>Tasks that add tasks\<close>

text \<open>
  Every worker is in a call of \<open>addTask\<close> by its own task, and the queue is full: nobody will ever take a
  task, also when the pool is stopped.
\<close>

definition jammed :: "'t pool_threads \<Rightarrow> bool" where
  "jammed c \<longleftrightarrow> threads_of (tp c) \<noteq> [] \<and> queue_full (tp c) \<and>
     (\<forall>t. jobs c t = Idle \<or> jobs c t = Stop \<or> jobs c t = Stopped \<or> (\<exists>x own. jobs c t = Add x own))"

lemma jammed_step:
  assumes step: "pt_step c c'" and inv: "pt_inv c" and jam: "jammed c"
  shows "jammed c' \<and> taskQueue (tp c') = taskQueue (tp c) \<and> log_executed c' = log_executed c \<and>
    (\<forall>t x y. jobs c t = Add x (Some y) \<longrightarrow> jobs c' t = Add x (Some y))"
proof -
  have no: "jobs c t \<noteq> Starting" "jobs c t \<noteq> Testing" "jobs c t \<noteq> Take" "jobs c t \<noteq> Busy x" for t x
  proof -
    from jam have "jobs c t = Idle \<or> jobs c t = Stop \<or> jobs c t = Stopped \<or> (\<exists>x own. jobs c t = Add x own)" by (simp add: jammed_def)
    then show "jobs c t \<noteq> Starting" "jobs c t \<noteq> Testing" "jobs c t \<noteq> Take" "jobs c t \<noteq> Busy x" by auto
  qed
  from step show ?thesis
  proof cases
    case (pt_add t x own p)
    with section_locked [OF inv, of t x "tp c"] jam show ?thesis by (simp add: addTask_section_eq jammed_def)
  next
    case (pt_unlock t m)
    from at_place(2) [OF inv, of t] pt_unlock jam have "jobs c t = Stopped" by (auto simp: jammed_def dest: spec [of _ t])
    with pt_unlock jam show ?thesis by (auto simp: jammed_def after_unlock_def)
  next
    case (pt_stopping t)
    with jam show ?thesis by (auto simp: jammed_def stop_section_def queue_full_def)
  qed (use jam no in \<open>auto simp: jammed_def wake_def\<close>)
qed

lemma jammed_steps:
  assumes "pt_step\<^sup>*\<^sup>* c c'" and "pt_inv c" and "jammed c"
  shows "jammed c' \<and> taskQueue (tp c') = taskQueue (tp c) \<and> log_executed c' = log_executed c \<and>
    (\<forall>t x y. jobs c t = Add x (Some y) \<longrightarrow> jobs c' t = Add x (Some y))"
  using assms(1)
proof (induction rule: rtranclp_induct)
  case (step d e)
  from pts.steps_inv [OF step.hyps(1) assms(2)] jammed_step [OF step.hyps(2)] step.IH show ?case by metis
qed (simp add: assms(3))

section \<open>Properties\<close>

text \<open>
  A pool with one worker, the thread 1, and a queue of one place: the worker runs task 10, which adds 12, while 11 is queued.
\<close>

definition sample_pt :: "nat job \<Rightarrow> nat list \<Rightarrow> nat list \<Rightarrow> nat list \<Rightarrow> nat pool_threads" where
  "sample_pt j q ad tk = \<lparr>mon = \<lparr>mtx = MutexLock_new, place = \<lambda>_. Outside_cs\<rparr>, tp = sample_pool True q,
     jobs = (\<lambda>_. Idle)(1 := j), log_added = ad, log_taken = tk, log_executed = {#}\<rparr>"

lemma sample_pt_simps [simp]:
  "quiet (sample_pt j q ad tk)" "tp (sample_pt j q ad tk) = sample_pool True q" "jobs (sample_pt j q ad tk) = (\<lambda>_. Idle)(1 := j)"
  "set_job (Suc 0) j' (sample_pt j q ad tk) = sample_pt j' q ad tk"
  "(sample_pt j q ad tk)\<lparr>tp := sample_pool True q', log_added := ad'\<rparr> = sample_pt j q' ad' tk"
  "(sample_pt j q ad tk)\<lparr>tp := sample_pool True q', log_taken := tk'\<rparr> = sample_pt j q' ad tk'"
  "log_added (sample_pt j q ad tk) = ad" "log_taken (sample_pt j q ad tk) = tk" "log_executed (sample_pt j q ad tk) = {#}"
  by (simp_all add: sample_pt_def quiet_def set_job_def fun_eq_iff)

lemma sample_pool_simps [simp]:
  "taskQueue (sample_pool r q) = q" "(sample_pool r q)\<lparr>taskQueue := q'\<rparr> = sample_pool r q'" "running (sample_pool r q) = r"
  "threads_of (sample_pool r q) = [''p1'']" "queue_full (sample_pool r q) \<longleftrightarrow> q \<noteq> []"
  by (cases q; simp add: sample_pool_def queue_full_def)+

lemma sample_busy: "reach pt_init pt_step (sample_pt (Busy 10) [11] [10, 11] [10])"
proof -
  have "jobs (sample_pt Starting [] [] []) = (\<lambda>t. if t \<in> {1} then Starting else Idle)" by (auto simp: fun_eq_iff)
  moreover have "card {1 :: nat} = length (threads_of (tp (sample_pt Starting [] [] [])))" by simp
  moreover have "mon_init (mon (sample_pt Starting [] [] []))" by (simp add: mon_init_def sample_pt_def)
  ultimately have "pt_init (sample_pt Starting [] [] [])"
    unfolding pt_init_def using sample_started
    by (intro conjI exI [of _ "{1}"] exI [of _ "''p''"] exI [of _ 1] exI [of _ False]) (simp_all)
  then have r0: "reach pt_init pt_step (sample_pt Starting [] [] [])" by (rule reach_init)
  have 1: "pt_step (sample_pt Starting [] [] []) (sample_pt Testing [] [] [])"
    using pt_started [of "sample_pt Starting [] [] []" 1] by simp
  have 2: "pt_step\<^sup>*\<^sup>* (sample_pt Testing [] [] []) (sample_pt Testing [10] [10] [])"
    using add_alone [of "sample_pt Testing [] [] []" 2 10] by simp
  have 3: "pt_step\<^sup>*\<^sup>* (sample_pt Testing [10] [10] []) (sample_pt (Busy 10) [] [10] [10])"
    using take_alone [of "sample_pt Testing [10] [10] []" 1 10 "[]"] by simp
  have 4: "pt_step\<^sup>*\<^sup>* (sample_pt (Busy 10) [] [10] [10]) (sample_pt (Busy 10) [11] [10, 11] [10])"
    using add_alone [of "sample_pt (Busy 10) [] [10] [10]" 2 11] by simp
  from reach_steps [OF 4 reach_steps [OF 3 reach_steps [OF 2 reach_step [OF r0 1]]]] show ?thesis .
qed

lemma sample_jam: "reach pt_init pt_step (sample_pt (Add 12 (Some 10)) [11] [10, 11] [10])"
  using reach_step [OF sample_busy, of "sample_pt (Add 12 (Some 10)) [11] [10, 11] [10]"]
    pt_call_inside [of "sample_pt (Busy 10) [11] [10, 11] [10]" 1 10 12] by simp

text \<open>
  C32. The threads of a pool are what Thread\_Pool counts. However the threads interleave their locks, unlocks, waits,
  wake-ups and unlocked reads of \<open>running_\<close>, a state of the threads, counted, is a state that the
  system of whole critical sections can reach, so that its properties hold of the threads; the mutex is used as
  Monitors describes; and a thread in the critical section of \<open>addTask\<close> passes its assertions and adds its task or
  waits as the queue has a place or has none.
\<close>

theorem threads_refine_pool:
  assumes "reach pt_init pt_step c"
  shows "reach pool_init pool_step (counted c) \<and> reach mon_init (mon_step False) (mon c) \<and>
    (\<forall>t x own. jobs c t = Add x own \<longrightarrow> place_of c t = Inside \<longrightarrow> addTask_section t (mtx (mon c)) x (tp c) =
      Inr (if queue_full (tp c) then None else Some ((tp c)\<lparr>taskQueue := taskQueue (tp c) @ [x]\<rparr>)))"
proof (intro conjI allI impI)
  fix t x own assume "jobs c t = Add x own" and "place_of c t = Inside"
  then show "addTask_section t (mtx (mon c)) x (tp c) =
      Inr (if queue_full (tp c) then None else Some ((tp c)\<lparr>taskQueue := taskQueue (tp c) @ [x]\<rparr>))"
    using section_locked [OF pts.reach_inv [OF assms], of t x "tp c"] by (simp add: addTask_section_eq)
qed (use pool_sim.reach_view [OF assms] mon_sim.reach_view [OF assms] in simp_all)

theorem threads_refine_pool_witness:
  "\<exists>c. reach pt_init pt_step c \<and> jobs c 1 = Add 12 (Some (10 :: nat)) \<and> reach pool_init pool_step (counted c) \<and> pool (counted c) = tp c"
  using threads_refine_pool [OF sample_jam] sample_jam
  by (intro exI [of _ "sample_pt (Add 12 (Some 10)) [11] [10, 11] [10]"]) simp

text \<open>
  C33. Tasks that add tasks can stop a bounded pool for ever. Once the queue is full and every worker is in
  a call of \<open>addTask\<close> by the task it runs, then whatever happens next, a call of \<open>stop\<close> included, no task is taken or executed,
  every worker stays in that call, and none leaves its loop, so that \<open>stop\<close> never joins them.
\<close>

theorem pool_jams:
  assumes "reach pt_init pt_step c" and "jammed c" and "pt_step\<^sup>*\<^sup>* c c'"
  shows "taskQueue (tp c') = taskQueue (tp c) \<and> log_executed c' = log_executed c \<and>
    (\<forall>t x y. jobs c t = Add x (Some y) \<longrightarrow> jobs c' t = Add x (Some y)) \<and> (\<forall>t. jobs c' t \<noteq> Finished)"
proof -
  note j = jammed_steps [OF assms(3) pts.reach_inv [OF assms(1)] assms(2)]
  then have "jobs c' t \<noteq> Finished" for t by (auto simp: jammed_def dest!: spec [of _ t])
  with j show ?thesis by blast
qed

theorem pool_jams_witness:
  "\<exists>c. reach pt_init pt_step c \<and> taskQueue (tp c) = [11 :: nat] \<and> jobs c 1 = Add 12 (Some 10) \<and>
     (\<forall>c'. pt_step\<^sup>*\<^sup>* c c' \<longrightarrow> taskQueue (tp c') = [11] \<and> jobs c' 1 = Add 12 (Some 10))"
proof -
  let ?c = "sample_pt (Add 12 (Some 10)) [11] [10, 11] [10]"
  have "jammed ?c" by (simp add: jammed_def)
  from pool_jams [OF sample_jam this] have "taskQueue (tp c') = [11] \<and> jobs c' 1 = Add 12 (Some 10)" if "pt_step\<^sup>*\<^sup>* ?c c'" for c'
    using that by (auto dest: spec [of _ 1])
  with sample_jam show ?thesis by (intro exI [of _ ?c]) simp
qed

text \<open>
  C31. \<open>stop\<close> can join the workers when tasks do not call \<open>addTask\<close> (C33 shows what happens when they do). From any reachable
  state of a stopped pool, whatever the workers, the callers of \<open>addTask\<close> and of \<open>stop\<close> do and however they are
  scheduled, the workers take at most seven more steps each, a task that returns being one; and there is no deadlock:
  every state that can follow leads to one in which as many threads as \<open>start\<close> made are through their loops. That a run gets
  there is left to the scheduler and to a mutex that is fair to the workers.
\<close>

theorem stop_terminates:
  assumes "reach pt_init pt_step c" and "\<not> running (tp c)" and "no_inner_adds c"
  shows "(\<forall>cs. calm_run (c # cs) \<longrightarrow> worker_moves (c # cs) \<le> 7 * length (threads_of (tp c))) \<and>
    (\<forall>c'. calm_step\<^sup>*\<^sup>* c c' \<longrightarrow>
      (\<exists>c''. calm_step\<^sup>*\<^sup>* c' c'' \<and> card {t. jobs c'' t = Finished} = length (threads_of (tp c))))"
proof -
  have "pool_inv (counted c)" by (rule pools.reach_inv [OF pool_sim.reach_view [OF assms(1)]])
  with pts.reach_inv [OF assms(1)] assms(2,3) have ok: "stopped_ok c" by (simp add: stopped_ok_def)
  have "worker_moves (c # cs) \<le> 7 * length (threads_of (tp c))" if "calm_run (c # cs)" for cs
    using moves_bounded [OF that ok] job_work_bound [OF ok] by simp
  moreover have "\<exists>c''. calm_step\<^sup>*\<^sup>* c' c'' \<and> card {t. jobs c'' t = Finished} = length (threads_of (tp c))"
    if "calm_step\<^sup>*\<^sup>* c c'" for c'
    using stopped_later [OF that ok] workers_finish [of c'] by auto
  ultimately show ?thesis by blast
qed

theorem stop_terminates_witness:
  "\<exists>c c'. reach pt_init pt_step c \<and> \<not> running (tp c) \<and> taskQueue (tp c) = [11] \<and> jobs c 1 = Busy (10 :: nat) \<and>
     calm_step\<^sup>*\<^sup>* c c' \<and> card {t. jobs c' t = Finished} = 1"
proof -
  let ?b = "sample_pt (Busy 10) [11] [10, 11] [10]"
  let ?c = "?b\<lparr>tp := stop_section (tp ?b)\<rparr>"
  have r: "reach pt_init pt_step ?c" by (rule reach_steps [OF stop_alone [of ?b 2] sample_busy]) simp_all
  have c: "\<not> running (tp ?c)" "no_inner_adds ?c" "threads_of (tp ?c) = [''p1'']" "taskQueue (tp ?c) = [11]" "jobs ?c 1 = Busy 10"
    by (simp_all add: stop_section_def no_inner_adds_def)
  from stop_terminates [OF r c(1,2)] obtain c' where "calm_step\<^sup>*\<^sup>* ?c c'" "card {t. jobs c' t = Finished} = 1"
    unfolding c(3) by auto
  with r c show ?thesis by blast
qed

end
