(* ===== verification/Loop_Threads.thy ===== *)
theory Loop_Threads
  imports Threads Event_Loop
begin

text \<open>
  EventLoopThread and EventLoopThreadPool (src/net/EventLoopThread.h, EventLoopThread.cpp,
  EventLoopThreadPool.h, EventLoopThreadPool.cpp): a thread with an event loop of its own, and the
  loops among which a server distributes its connections.

  The EventLoop is a local variable of \<open>threadFunc\<close>; the object holds a pointer to it, \<open>loop_\<close>, which
  \<open>startLoop\<close> waits for and nothing resets. The handshake is the waiting loop of Monitors on that
  pointer; the run of the loop itself is the step relation of Event_Loop.
\<close>

section \<open>EventLoopThread\<close>

type_synonym lref = nat

record event_loop_thread =
  loop_ptr :: "lref option"
  exiting :: bool
  elt_thread :: thread

definition EventLoopThread_new :: "tid \<Rightarrow> event_loop_thread" where
  "EventLoopThread_new self = \<lparr>loop_ptr = None, exiting = False, elt_thread = Thread_new self []\<rparr>"

text \<open>\<open>startLoop\<close>: it starts the thread, waits for the pointer, and returns it.\<close>

definition startLoop_begin :: "nat syscall \<Rightarrow> event_loop_thread \<Rightarrow> event_loop_thread result" where
  "startLoop_begin answer e = assertC (\<not> started (elt_thread e))
     (rbind (Thread_start answer (elt_thread e)) (\<lambda>th. Inr (e\<lparr>elt_thread := th\<rparr>)))"

definition startLoop_ready :: "event_loop_thread \<Rightarrow> bool" where
  "startLoop_ready e \<longleftrightarrow> \<not> loop_ptr e = None"

text \<open>The critical section of \<open>threadFunc\<close>, with its notification; \<open>l\<close> is the address of its loop.\<close>

definition threadFunc_section :: "lref \<Rightarrow> event_loop_thread \<Rightarrow> event_loop_thread \<times> notice" where
  "threadFunc_section l e = (e\<lparr>loop_ptr := Some l\<rparr>, Notify)"

text \<open>
  The destructor up to \<open>join\<close>: the pointer it calls \<open>quit\<close> on, and the pthread it waits for. \<open>alive\<close>
  says which loops exist.
\<close>

definition EventLoopThread_dtor :: "(lref \<Rightarrow> bool) \<Rightarrow> event_loop_thread \<Rightarrow> (lref \<times> nat \<times> event_loop_thread) result" where
  "EventLoopThread_dtor alive e =
     (let e = e\<lparr>exiting := True\<rparr> in
      case loop_ptr e of
        None \<Rightarrow> Inl NullDeref
      | Some l \<Rightarrow> if alive l then rbind (Thread_join (elt_thread e)) (\<lambda>(i, th). Inr (l, i, e\<lparr>elt_thread := th\<rparr>))
                  else Inl Dangling)"

subsection \<open>The handshake\<close>

text \<open>
  What the two threads share: the object, and whether \<open>threadFunc\<close> has its loop, and has left it. The
  loop is destroyed when \<open>loop()\<close> returns.
\<close>

datatype loop_life = Not_yet | Alive lref | Gone lref

record elt_shared =
  elt :: event_loop_thread
  life :: loop_life

inductive elt_ops :: "elt_shared \<Rightarrow> elt_shared \<Rightarrow> notice \<Rightarrow> bool" where
  publish: "life s = Not_yet \<Longrightarrow> threadFunc_section l (elt s) = (e, n) \<Longrightarrow> elt_ops s (s\<lparr>elt := e, life := Alive l\<rparr>) n"
| loop_returns: "life s = Alive l \<Longrightarrow> elt_ops s (s\<lparr>life := Gone l\<rparr>) Silent"

definition elt_init :: "nat \<Rightarrow> elt_shared \<Rightarrow> bool" where
  "elt_init i s \<longleftrightarrow> (\<exists>self. startLoop_begin (Ret i) (EventLoopThread_new self) = Inr (elt s)) \<and> life s = Not_yet"

abbreviation elt_reach :: "nat \<Rightarrow> tid \<Rightarrow> elt_shared waiters \<Rightarrow> bool" where
  "elt_reach i starter \<equiv> reach (wl_init (elt_init i)) (wl_step (\<lambda>s. startLoop_ready (elt s)) elt_ops (\<lambda>t. t = starter))"

definition loop_alive :: "loop_life \<Rightarrow> lref \<Rightarrow> bool" where
  "loop_alive f l \<longleftrightarrow> f = Alive l"

interpretation handshake: wait_loop "\<lambda>s. startLoop_ready (elt s)" elt_ops "\<lambda>t. t = starter" for starter
  by unfold_locales (auto simp: startLoop_ready_def threadFunc_section_def elim!: elt_ops.cases)

definition elt_shared_inv :: "nat \<Rightarrow> elt_shared \<Rightarrow> bool" where
  "elt_shared_inv i s \<longleftrightarrow> started (elt_thread (elt s)) \<and> \<not> joined (elt_thread (elt s)) \<and> pthreadId (elt_thread (elt s)) = i \<and>
     (case life s of Not_yet \<Rightarrow> loop_ptr (elt s) = None | Alive l \<Rightarrow> loop_ptr (elt s) = Some l | Gone l \<Rightarrow> loop_ptr (elt s) = Some l)"

lemma elt_shared_init:
  assumes "elt_init i s"
  shows "elt_shared_inv i s"
proof -
  from assms obtain self where self: "startLoop_begin (Ret i) (EventLoopThread_new self) = Inr (elt s)" "life s = Not_yet"
    by (auto simp: elt_init_def)
  let ?e = "\<lparr>loop_ptr = None, exiting = False, elt_thread = (Thread_new self [])\<lparr>started := True, pthreadId := i\<rparr>\<rparr>"
  have "startLoop_begin (Ret i) (EventLoopThread_new self) = Inr ?e"
    by (simp add: startLoop_begin_def EventLoopThread_new_def Thread_start_def Thread_new_idle)
  with self have "elt s = ?e" "life s = Not_yet" by simp_all
  then show ?thesis by (simp add: elt_shared_inv_def Thread_new_idle)
qed

lemma elt_shared_ops: "elt_ops s s' n \<Longrightarrow> elt_shared_inv i s \<Longrightarrow> elt_shared_inv i s'"
  by (induction rule: elt_ops.induct) (auto simp: elt_shared_inv_def threadFunc_section_def)

section \<open>EventLoopThreadPool\<close>

record loop_pool =
  baseLoop :: lref
  pool_started :: bool
  numThreads :: int
  next_loop :: int
  pool_threads :: "event_loop_thread list"
  loops_of :: "lref list"

definition EventLoopThreadPool_new :: "lref \<Rightarrow> loop_pool" where
  "EventLoopThreadPool_new base = \<lparr>baseLoop = base, pool_started = False, numThreads = 0, next_loop = 0,
     pool_threads = [], loops_of = []\<rparr>"

definition pool_setThreadNum :: "int \<Rightarrow> loop_pool \<Rightarrow> loop_pool" where
  "pool_setThreadNum n p = p\<lparr>numThreads := n\<rparr>"

text \<open>\<open>owner_of l\<close> is the thread of the loop \<open>l\<close>.\<close>

definition base_assert :: "(lref \<Rightarrow> tid) \<Rightarrow> tid \<Rightarrow> loop_pool \<Rightarrow> 'b result \<Rightarrow> 'b result" where
  "base_assert owner_of self p k = (if owner_of (baseLoop p) = self then k else Inl Aborted)"

text \<open>One turn of the loop in \<open>start\<close>, for an answer of \<open>pthread_create\<close> and the loop of the new thread.\<close>

definition pool_add_thread :: "tid \<Rightarrow> nat syscall \<times> lref \<Rightarrow> loop_pool \<Rightarrow> loop_pool result" where
  "pool_add_thread self al p =
     rbind (startLoop_begin (fst al) (EventLoopThread_new self)) (\<lambda>t.
     let t = fst (threadFunc_section (snd al) t)
     in Inr (p\<lparr>pool_threads := pool_threads p @ [t], loops_of := loops_of p @ [the (loop_ptr t)]\<rparr>))"

definition pool_start :: "(lref \<Rightarrow> tid) \<Rightarrow> tid \<Rightarrow> (nat \<Rightarrow> nat syscall \<times> lref) \<Rightarrow> loop_pool \<Rightarrow> loop_pool result" where
  "pool_start owner_of self answers p =
     assertC (\<not> pool_started p) (base_assert owner_of self p
       (rfold (\<lambda>i. pool_add_thread self (answers i)) [0..<nat (numThreads p)] (p\<lparr>pool_started := True\<rparr>)))"

definition getNextLoop :: "(lref \<Rightarrow> tid) \<Rightarrow> tid \<Rightarrow> loop_pool \<Rightarrow> (lref \<times> loop_pool) result" where
  "getNextLoop owner_of self p = base_assert owner_of self p
     (if loops_of p \<noteq> []
      then if 0 \<le> next_loop p \<and> nat (next_loop p) < length (loops_of p)
           then (let l = loops_of p ! nat (next_loop p); nxt = next_loop p + 1
                 in Inr (l, p\<lparr>next_loop := (if int (length (loops_of p)) \<le> nxt then 0 else nxt)\<rparr>))
           else Inl OutOfBounds
      else Inr (baseLoop p, p))"

text \<open>The answers of \<open>k\<close> calls of \<open>getNextLoop\<close>.\<close>

fun getNextLoops :: "(lref \<Rightarrow> tid) \<Rightarrow> tid \<Rightarrow> nat \<Rightarrow> loop_pool \<Rightarrow> (lref list \<times> loop_pool) result" where
  "getNextLoops owner_of self 0 p = Inr ([], p)"
| "getNextLoops owner_of self (Suc k) p =
     rbind (getNextLoop owner_of self p) (\<lambda>(l, p).
     rbind (getNextLoops owner_of self k p) (\<lambda>(ls, p). Inr (l # ls, p)))"

definition pool_ok :: "loop_pool \<Rightarrow> bool" where
  "pool_ok p \<longleftrightarrow> 0 \<le> next_loop p \<and> (if loops_of p = [] then next_loop p = 0 else next_loop p < int (length (loops_of p)))"

lemma getNextLoop_ok:
  assumes "pool_ok p" and "owner_of (baseLoop p) = self" and "loops_of p \<noteq> []"
  shows "getNextLoop owner_of self p =
    Inr (loops_of p ! nat (next_loop p), p\<lparr>next_loop := (next_loop p + 1) mod int (length (loops_of p))\<rparr>)"
proof -
  have "(next_loop p + 1) mod int (length (loops_of p)) = (if int (length (loops_of p)) \<le> next_loop p + 1 then 0 else next_loop p + 1)"
    using assms(1,3) by (cases "next_loop p + 1 = int (length (loops_of p))") (auto simp: pool_ok_def)
  with assms show ?thesis by (auto simp: getNextLoop_def base_assert_def pool_ok_def Let_def)
qed

lemma pool_ok_next: "pool_ok p \<Longrightarrow> loops_of p \<noteq> [] \<Longrightarrow> pool_ok (p\<lparr>next_loop := j mod int (length (loops_of p))\<rparr>)"
  by (simp add: pool_ok_def)

lemma getNextLoops_ok:
  assumes "pool_ok p" and "owner_of (baseLoop p) = self" and "loops_of p \<noteq> []"
  shows "\<exists>p'. getNextLoops owner_of self k p =
    Inr (map (\<lambda>i. loops_of p ! ((nat (next_loop p) + i) mod length (loops_of p))) [0..<k], p')"
  using assms
proof (induction k arbitrary: p)
  case 0
  then show ?case by simp
next
  case (Suc k)
  let ?n = "length (loops_of p)"
  let ?q = "p\<lparr>next_loop := (next_loop p + 1) mod int ?n\<rparr>"
  from Suc.IH [OF pool_ok_next [OF Suc.prems(1,3)], of "next_loop p + 1"] Suc.prems(2,3) obtain p' where
    p': "getNextLoops owner_of self k ?q = Inr (map (\<lambda>i. loops_of p ! ((nat (next_loop ?q) + i) mod ?n)) [0..<k], p')" by auto
  have j: "0 \<le> next_loop p" "nat (next_loop p) < ?n" using Suc.prems(1,3) by (auto simp: pool_ok_def)
  then have "next_loop p + 1 = int (Suc (nat (next_loop p)))" by simp
  then have "next_loop ?q = int (Suc (nat (next_loop p)) mod ?n)" by (simp only: zmod_int) simp
  then have "nat (next_loop ?q) = Suc (nat (next_loop p)) mod ?n" by (simp only: nat_int)
  then have "(nat (next_loop ?q) + i) mod ?n = (nat (next_loop p) + Suc i) mod ?n" for i by (simp add: mod_simps)
  then show ?case
    using getNextLoop_ok [of p owner_of self, OF Suc.prems] p' j by (simp add: map_upt_Suc del: upt_Suc)
qed

lemma pool_add_thread_Inr:
  "pool_add_thread self al p = Inr p' \<Longrightarrow>
    loops_of p' = loops_of p @ [snd al] \<and> baseLoop p' = baseLoop p \<and> next_loop p' = next_loop p \<and> pool_started p' = pool_started p"
  by (auto simp: pool_add_thread_def threadFunc_section_def Let_def result_simps)

lemma pool_threads_Inr:
  assumes "rfold (\<lambda>i. pool_add_thread self (answers i)) xs p = Inr p'"
  shows "loops_of p' = loops_of p @ map (snd \<circ> answers) xs \<and> baseLoop p' = baseLoop p \<and> next_loop p' = next_loop p"
  using assms
proof (induction xs arbitrary: p)
  case (Cons x xs)
  then obtain q where q: "pool_add_thread self (answers x) p = Inr q"
    "rfold (\<lambda>i. pool_add_thread self (answers i)) xs q = Inr p'" by (auto simp: result_simps)
  from pool_add_thread_Inr [OF q(1)] Cons.IH [OF q(2)] show ?case by simp
qed simp

lemma pool_start_Inr:
  assumes "pool_start owner_of self answers (pool_setThreadNum n (EventLoopThreadPool_new base)) = Inr p"
  shows "loops_of p = map (snd \<circ> answers) [0..<nat n]" "owner_of (baseLoop p) = self" "baseLoop p = base" "next_loop p = 0"
proof -
  let ?p = "(pool_setThreadNum n (EventLoopThreadPool_new base))\<lparr>pool_started := True\<rparr>"
  have b: "owner_of base = self" "rfold (\<lambda>i. pool_add_thread self (answers i)) [0..<nat n] ?p = Inr p"
    using assms by (auto simp: pool_start_def base_assert_def pool_setThreadNum_def EventLoopThreadPool_new_def
        assertC_def split: if_splits)
  from pool_threads_Inr [OF b(2)] b(1)
  show "loops_of p = map (snd \<circ> answers) [0..<nat n]" "owner_of (baseLoop p) = self" "baseLoop p = base" "next_loop p = 0"
    by (simp_all add: pool_setThreadNum_def EventLoopThreadPool_new_def)
qed

lemma getNextLoops_base:
  "owner_of (baseLoop p) = self \<Longrightarrow> loops_of p = [] \<Longrightarrow> getNextLoops owner_of self k p = Inr (replicate k (baseLoop p), p)"
  by (induction k) (simp_all add: getNextLoop_def base_assert_def)

lemma pool_add_thread_ok:
  "pool_add_thread self (Ret i, l) p = Inr (p\<lparr>pool_threads := pool_threads p @
     [\<lparr>loop_ptr = Some l, exiting = False, elt_thread = (Thread_new self [])\<lparr>started := True, pthreadId := i\<rparr>\<rparr>],
     loops_of := loops_of p @ [l]\<rparr>)"
  by (simp add: pool_add_thread_def startLoop_begin_def EventLoopThread_new_def Thread_start_def Thread_new_idle
      threadFunc_section_def)

section \<open>Properties\<close>

text \<open>
  C36. \<open>startLoop\<close> returns the loop of the new thread: in every interleaving of the caller and the
  thread, with spurious wake-ups, the caller is through its wait only when \<open>loop_\<close> points to the
  thread's loop, and once the thread has its loop the caller is never asleep and is through with
  its next test. The pointer may be dangling by then, if the loop has already been left.
\<close>

theorem startLoop_handshake:
  assumes "elt_reach i starter w"
  shows "(wat w starter = Passed \<longrightarrow> (\<exists>l. loop_ptr (elt (shared w)) = Some l \<and> (life (shared w) = Alive l \<or> life (shared w) = Gone l))) \<and>
    (life (shared w) \<noteq> Not_yet \<longrightarrow> wat w starter = Passed \<or>
      wat (wl_test (\<lambda>s. startLoop_ready (elt s)) starter w) starter = Passed \<and>
      wl_step (\<lambda>s. startLoop_ready (elt s)) elt_ops (\<lambda>t. t = starter) w (wl_test (\<lambda>s. startLoop_ready (elt s)) starter w))"
proof -
  have inv: "elt_shared_inv i (shared w)"
    by (rule handshake.shared_inv [OF assms elt_shared_init elt_shared_ops])
  have "wat w starter = Passed \<Longrightarrow> startLoop_ready (elt (shared w))" by (rule handshake.passed_ready [OF assms])
  moreover have "life (shared w) \<noteq> Not_yet \<Longrightarrow> startLoop_ready (elt (shared w))"
    using inv by (auto simp: elt_shared_inv_def startLoop_ready_def split: loop_life.splits)
  ultimately show ?thesis
    using inv handshake.ready_returns [OF assms _ refl]
    by (auto simp: elt_shared_inv_def startLoop_ready_def split: loop_life.splits)
qed

definition sample_elt :: "lref option \<Rightarrow> event_loop_thread" where
  "sample_elt p = \<lparr>loop_ptr = p, exiting = False, elt_thread = (Thread_new 9 [])\<lparr>started := True, pthreadId := 5\<rparr>\<rparr>"

text \<open>The starter 9 sleeps, the thread publishes its loop 64 and wakes it.\<close>

lemma sample_handshake:
  "elt_reach 5 9 \<lparr>shared = \<lparr>elt = sample_elt (Some 64), life = Alive 64\<rparr>, wat = (\<lambda>_. Away)(9 := Awake)\<rparr>"
proof -
  let ?s0 = "\<lparr>elt = sample_elt None, life = Not_yet\<rparr>"
  let ?s1 = "\<lparr>elt = sample_elt (Some 64), life = Alive 64\<rparr>"
  let ?w0 = "\<lparr>shared = ?s0, wat = \<lambda>_. Away\<rparr>"
  let ?w1 = "\<lparr>shared = ?s0, wat = (\<lambda>_. Away)(9 := Sleeping)\<rparr>"
  note steps = reach_step [of "wl_init (elt_init 5)" "wl_step (\<lambda>s. startLoop_ready (elt s)) elt_ops (\<lambda>t. t = 9)"]
  have "startLoop_begin (Ret 5) (EventLoopThread_new 9) = Inr (sample_elt None)"
    by (simp add: startLoop_begin_def EventLoopThread_new_def Thread_start_def Thread_new_idle sample_elt_def)
  then have "elt_reach 5 9 ?w0" by (intro reach_init) (auto simp: wl_init_def elt_init_def)
  moreover have "wl_test (\<lambda>s. startLoop_ready (elt s)) 9 ?w0 = ?w1"
    by (simp add: wl_test_def startLoop_ready_def sample_elt_def)
  ultimately have 1: "elt_reach 5 9 ?w1" using steps [OF _ wl_arrive] by fastforce
  have "elt_ops ?s0 ?s1 Notify"
    using publish [of ?s0 64 "sample_elt (Some 64)" Notify] by (simp add: threadFunc_section_def sample_elt_def)
  then show ?thesis using steps [OF 1 wl_notify, of ?s1 9] by simp
qed

theorem startLoop_handshake_witness:
  "wat (wl_test (\<lambda>s. startLoop_ready (elt s)) 9
     \<lparr>shared = \<lparr>elt = sample_elt (Some 64), life = Alive 64\<rparr>, wat = (\<lambda>_. Away)(9 := Awake)\<rparr>) 9 = Passed"
  using startLoop_handshake [OF sample_handshake, THEN conjunct2] by simp

text \<open>
  The destructor of an EventLoopThread trusts \<open>loop_\<close>: it quits and joins the thread if the
  thread is in its loop, but it dereferences a null pointer if the thread has no loop yet or was
  never started, and a dangling one if the loop has been left, which nothing tells it.
\<close>

theorem EventLoopThread_dtor_faults:
  assumes "elt_reach i starter w"
  shows "EventLoopThread_dtor (loop_alive (life (shared w))) (elt (shared w)) =
      (case life (shared w) of
         Not_yet \<Rightarrow> Inl NullDeref
       | Alive l \<Rightarrow> Inr (l, i, (elt (shared w))\<lparr>exiting := True, elt_thread := (elt_thread (elt (shared w)))\<lparr>joined := True\<rparr>\<rparr>)
       | Gone l \<Rightarrow> Inl Dangling) \<and>
    EventLoopThread_dtor alive (EventLoopThread_new starter) = Inl NullDeref"
proof -
  have "elt_shared_inv i (shared w)"
    by (rule handshake.shared_inv [OF assms elt_shared_init elt_shared_ops])
  then show ?thesis
    by (auto simp: elt_shared_inv_def EventLoopThread_dtor_def Thread_join_def loop_alive_def EventLoopThread_new_def
        Let_def split: loop_life.splits)
qed

theorem EventLoopThread_dtor_faults_witness:
  "\<exists>e. EventLoopThread_dtor (loop_alive (Alive 64)) (sample_elt (Some 64)) = Inr (64, 5, e)"
  using EventLoopThread_dtor_faults [OF sample_handshake, THEN conjunct1] by simp

text \<open>
  The destructor may wait for ever: \<open>startLoop\<close> returns before the thread has entered \<open>loop()\<close>,
  and the \<open>quit()\<close> of a destructor that comes in between is undone when the thread enters it. From
  then on the thread does not leave its loop, whatever happens, unless somebody calls \<open>quit()\<close>
  again, and the destructor does not return from \<open>join\<close>.
\<close>

theorem dtor_quit_is_undone:
  assumes "pc w = Outside" and "idle w" and "w0 = w\<lparr>lp := el_quit self (lp w)\<rparr>"
  shows "quit_flag (lp w0) \<and>
    (\<exists>w1. el_step fb hb w0 w1 \<and> looping (lp w1) \<and>
      (\<forall>w'. (\<lambda>v v'. el_step fb hb v v' \<and> (quit_flag (lp v') \<longrightarrow> quit_flag (lp v)))\<^sup>*\<^sup>* w1 w' \<longrightarrow> pc w' \<noteq> Outside))"
proof -
  have "thread_id (lp w0) = thread_id (lp w)" using assms(3) by (simp add: el_quit_def)
  then have pc: "pc w0 = Outside" "idle w0" using assms by (simp_all add: idle_def)
  have s: "el_step fb hb w0 (entered w0)" by (rule enter [OF pc])
  have "quit_flag (lp w0)" using assms(3) by (simp add: el_quit_eq Let_def)
  moreover have "pc w' \<noteq> Outside"
    if "(\<lambda>v v'. el_step fb hb v v' \<and> (quit_flag (lp v') \<longrightarrow> quit_flag (lp v)))\<^sup>*\<^sup>* (entered w0) w'" for w'
    using early_quit_is_lost [OF pc(1) s _ that] by (simp add: entered_def)
  ultimately show ?thesis using s by (intro conjI exI [of _ "entered w0"]) (auto simp: entered_def)
qed

theorem dtor_quit_is_undone_witness:
  "\<exists>w1. el_step (\<lambda>_ _. True) (\<lambda>_ _. True) (sample_start\<lparr>lp := el_quit 2 (lp sample_start)\<rparr>) w1 \<and> looping (lp w1) \<and> pc w1 \<noteq> Outside"
proof -
  have "pc sample_start = Outside" "idle sample_start" by (simp_all add: sample_start_def idle_def)
  from dtor_quit_is_undone [OF this refl, of 2] show ?thesis by blast
qed

text \<open>
  C37. Round robin: after \<open>start\<close> with \<open>n\<close> threads the pool has their \<open>n\<close> loops, and the \<open>k\<close>-th call of
  \<open>getNextLoop\<close> in the base loop's thread returns the one with number \<open>k mod n\<close>, without ever leaving
  the vector; with no threads it always returns the base loop.
\<close>

theorem getNextLoop_round_robin:
  assumes "pool_start owner_of self answers (pool_setThreadNum n (EventLoopThreadPool_new base)) = Inr p"
  shows "length (loops_of p) = nat n \<and>
    (\<exists>p'. getNextLoops owner_of self k p =
      Inr (map (\<lambda>i. if 0 < n then snd (answers (i mod nat n)) else base) [0..<k], p'))"
proof -
  note st = pool_start_Inr [OF assms]
  show ?thesis
  proof (cases "0 < n")
    case True
    then have "pool_ok p" "loops_of p \<noteq> []" using st by (simp_all add: pool_ok_def)
    from getNextLoops_ok [of p owner_of self k, OF this(1) st(2) this(2)] True st show ?thesis by simp
  next
    case False
    with st getNextLoops_base [of owner_of p self k] show ?thesis by (simp add: map_replicate_const)
  qed
qed

theorem getNextLoop_round_robin_witness:
  "\<exists>p p'. pool_start (\<lambda>_. 1) 1 (\<lambda>i. (Ret (100 + i), 10 + i)) (pool_setThreadNum 2 (EventLoopThreadPool_new 7)) = Inr p \<and>
     getNextLoops (\<lambda>_. 1) 1 3 p = Inr ([10, 11, 10], p')"
proof -
  obtain p where p: "pool_start (\<lambda>_. 1) 1 (\<lambda>i. (Ret (100 + i), 10 + i)) (pool_setThreadNum 2 (EventLoopThreadPool_new 7)) = Inr p"
    by (simp add: pool_start_def pool_setThreadNum_def EventLoopThreadPool_new_def base_assert_def pool_add_thread_ok
        numeral_2_eq_2)
  from getNextLoop_round_robin [OF p, of 3] p show ?thesis by (auto simp: numeral_eq_Suc)
qed

end
