(* ===== verification/Conn_Store.thy ===== *)
theory Conn_Store
  imports Tcp_Connection Loop_Threads
begin

text \<open>
  Connections as shared objects: what TcpServer and TcpClient do with their \<open>TcpConnectionPtr\<close>s and
  with the functors that refer to them.

  A TcpConnection lives on the heap with the number of its references; the last one that goes
  destroys it, wherever that happens. A variable of type \<open>TcpConnectionPtr\<close> that somebody refers to
  (a local variable, a temporary, a copy inside \<open>std::bind\<close>) has an address in \<open>vars\<close> and is one
  reference. A lambda \<open>[&]{ conn->f(); }\<close> holds the address of such a variable and no reference: when
  it runs after the variable has gone, the access is \<open>Dangling\<close>. Each loop has its reactor and its
  queue of functors.

  An operation of TcpConnection runs on the \<open>conn_world\<close> of one object: the object, the reactor of
  its loop, and the functors it queues there.
\<close>

section \<open>State\<close>

type_synonym caddr = nat
type_synonym vaddr = nat

record conn_obj =
  body :: tcp_conn
  obj_loop :: lref
  refs :: nat

datatype conn_functor =
    EstablishVia vaddr
  | DestroyVia vaddr
  | RemoveInLoop vaddr
  | SetClose vaddr
  | ConnTask caddr conn_task

record conn_store =
  objs :: "caddr \<Rightarrow> conn_obj option"
  vars :: "vaddr \<Rightarrow> caddr option"
  rxs :: "lref \<Rightarrow> conn_handler reactor"
  queues :: "lref \<Rightarrow> conn_functor list"
  store_io :: "io_event list"

section \<open>Operations on one object\<close>

definition view_of :: "conn_obj \<Rightarrow> 'z conn_store_scheme \<Rightarrow> conn_world" where
  "view_of ob s = \<lparr>conn = body ob, rx = rxs s (obj_loop ob), io = store_io s, tasks = []\<rparr>"

text \<open>A queued \<open>writeCompleteCallback_\<close> holds a reference (\<open>shared_from_this()\<close>), the other functors a bare pointer.\<close>

definition task_refs :: "conn_task list \<Rightarrow> nat" where
  "task_refs ts = length (filter (\<lambda>t. t = TWriteComplete) ts)"

definition put_view :: "caddr \<Rightarrow> conn_obj \<Rightarrow> conn_world \<Rightarrow> 'z conn_store_scheme \<Rightarrow> 'z conn_store_scheme" where
  "put_view a ob w s = s\<lparr>objs := (objs s)(a \<mapsto> ob\<lparr>body := conn w, refs := refs ob + task_refs (tasks w)\<rparr>),
     rxs := (rxs s)(obj_loop ob := rx w), store_io := io w,
     queues := (queues s)(obj_loop ob := queues s (obj_loop ob) @ map (ConnTask a) (tasks w))\<rparr>"

definition on_obj :: "caddr \<Rightarrow> (conn_world \<Rightarrow> conn_world result) \<Rightarrow> 'z conn_store_scheme \<Rightarrow> 'z conn_store_scheme result" where
  "on_obj a f s = (case objs s a of
       None \<Rightarrow> Inl Dangling
     | Some ob \<Rightarrow> rbind (f (view_of ob s)) (\<lambda>w. Inr (put_view a ob w s)))"

section \<open>References\<close>

definition add_ref :: "caddr \<Rightarrow> 'z conn_store_scheme \<Rightarrow> 'z conn_store_scheme result" where
  "add_ref a s = (case objs s a of
       None \<Rightarrow> Inl Dangling
     | Some ob \<Rightarrow> Inr (s\<lparr>objs := (objs s)(a \<mapsto> ob\<lparr>refs := refs ob + 1\<rparr>)\<rparr>))"

definition release :: "caddr \<Rightarrow> 'z conn_store_scheme \<Rightarrow> 'z conn_store_scheme result" where
  "release a s = (case objs s a of
       None \<Rightarrow> Inl Dangling
     | Some ob \<Rightarrow>
         if refs ob \<le> 1
         then rbind (TcpConnection_dtor (view_of ob s)) (\<lambda>w. Inr ((put_view a ob w s)\<lparr>objs := (objs s)(a := None)\<rparr>))
         else Inr (s\<lparr>objs := (objs s)(a \<mapsto> ob\<lparr>refs := refs ob - 1\<rparr>)\<rparr>))"

definition new_var :: "vaddr \<Rightarrow> caddr \<Rightarrow> 'z conn_store_scheme \<Rightarrow> 'z conn_store_scheme result" where
  "new_var v a s = rbind (add_ref a s) (\<lambda>s. Inr (s\<lparr>vars := (vars s)(v \<mapsto> a)\<rparr>))"

definition via :: "vaddr \<Rightarrow> (caddr \<Rightarrow> 'z conn_store_scheme \<Rightarrow> 'b result) \<Rightarrow> 'z conn_store_scheme \<Rightarrow> 'b result" where
  "via v f s = (case vars s v of None \<Rightarrow> Inl Dangling | Some a \<Rightarrow> f a s)"

definition drop_var :: "vaddr \<Rightarrow> 'z conn_store_scheme \<Rightarrow> 'z conn_store_scheme result" where
  "drop_var v = via v (\<lambda>a s. release a (s\<lparr>vars := (vars s)(v := None)\<rparr>))"

text \<open>\<open>TcpConnectionPtr conn(new TcpConnection(...))\<close>: the object at \<open>a\<close>, the variable at \<open>v\<close>.\<close>

definition make_conn ::
  "vaddr \<Rightarrow> caddr \<Rightarrow> lref \<Rightarrow> string \<Rightarrow> int \<Rightarrow> sockaddr_in \<Rightarrow> sockaddr_in \<Rightarrow> chref \<Rightarrow> 'z conn_store_scheme \<Rightarrow> 'z conn_store_scheme result" where
  "make_conn v a l name fd localAddr peerAddr ref s =
     rbind (TcpConnection_new name fd localAddr peerAddr ref (rxs s l)) (\<lambda>w.
     Inr (s\<lparr>objs := (objs s)(a \<mapsto> \<lparr>body = conn w, obj_loop = l, refs = 1\<rparr>), vars := (vars s)(v \<mapsto> a),
           rxs := (rxs s)(l := rx w)\<rparr>))"

section \<open>Functors\<close>

definition queue_functor :: "lref \<Rightarrow> conn_functor \<Rightarrow> 'z conn_store_scheme \<Rightarrow> 'z conn_store_scheme" where
  "queue_functor l f s = s\<lparr>queues := (queues s)(l := queues s l @ [f])\<rparr>"

definition in_thread_of :: "tid \<Rightarrow> lref \<Rightarrow> 'z conn_store_scheme \<Rightarrow> bool" where
  "in_thread_of self l s \<longleftrightarrow> self = loop_tid (rxs s l)"

text \<open>
  Running a functor (\<open>SetClose\<close> calls \<open>setCloseCallback\<close> on the connection, whose close callback is an
  argument of the events below); \<open>remove v\<close> is the \<open>removeConnectionInLoop\<close> of the owner. When a batch is over the
  functors are destroyed, with the references they hold.
\<close>

definition run_functor ::
  "(vaddr \<Rightarrow> 'z conn_store_scheme \<Rightarrow> 'z conn_store_scheme result) \<Rightarrow> conn_callbacks \<Rightarrow> tid \<Rightarrow> nat syscall \<Rightarrow>
   conn_functor \<Rightarrow> 'z conn_store_scheme \<Rightarrow> 'z conn_store_scheme result" where
  "run_functor remove cbs self wr f s = (case f of
       EstablishVia v \<Rightarrow> via v (\<lambda>a. on_obj a (connectEstablished cbs self)) s
     | DestroyVia v \<Rightarrow> via v (\<lambda>a. on_obj a (connectDestroyed cbs self)) s
     | RemoveInLoop v \<Rightarrow> remove v s
     | SetClose v \<Rightarrow> via v (\<lambda>a. on_obj a Inr) s
     | ConnTask a t \<Rightarrow> on_obj a (run_task cbs self wr t) s)"

definition drop_functor :: "conn_functor \<Rightarrow> 'z conn_store_scheme \<Rightarrow> 'z conn_store_scheme result" where
  "drop_functor f s = (case f of
       RemoveInLoop v \<Rightarrow> drop_var v s
     | SetClose v \<Rightarrow> drop_var v s
     | ConnTask a TWriteComplete \<Rightarrow> release a s
     | _ \<Rightarrow> Inr s)"

definition run_batch ::
  "(vaddr \<Rightarrow> 'z conn_store_scheme \<Rightarrow> 'z conn_store_scheme result) \<Rightarrow> conn_callbacks \<Rightarrow> tid \<Rightarrow> nat syscall \<Rightarrow>
   lref \<Rightarrow> 'z conn_store_scheme \<Rightarrow> 'z conn_store_scheme result" where
  "run_batch remove cbs self wr l s =
     (let fs = queues s l in
      rbind (rfold (run_functor remove cbs self wr) fs (s\<lparr>queues := (queues s)(l := [])\<rparr>)) (rfold drop_functor fs))"

section \<open>Events\<close>

text \<open>
  The channel's callbacks of the connection at \<open>a\<close>. \<open>handleClose\<close> ends with the close callback of the
  owner, \<open>on_closed v\<close>, whose argument is the temporary made by \<open>shared_from_this()\<close> (at the address \<open>v\<close>);
  \<open>handleRead\<close> reaches it when the read gives 0 bytes.
\<close>

definition read_eof :: "conn_inputs \<Rightarrow> bool" where
  "read_eof os \<longleftrightarrow> in_read os = ReadBytes []"

definition closing :: "conn_inputs \<Rightarrow> conn_handler \<Rightarrow> bool" where
  "closing os h \<longleftrightarrow> h = ConnClose \<or> h = ConnRead \<and> read_eof os"

definition store_dispatch ::
  "(vaddr \<Rightarrow> 'z conn_store_scheme \<Rightarrow> 'z conn_store_scheme result) \<Rightarrow> conn_callbacks \<Rightarrow> tid \<Rightarrow> conn_inputs \<Rightarrow> vaddr \<Rightarrow> caddr \<Rightarrow>
   conn_handler \<Rightarrow> event_call \<Rightarrow> 'z conn_store_scheme \<Rightarrow> 'z conn_store_scheme result" where
  "store_dispatch on_closed cbs self os v a h call s =
     rbind (on_obj a (conn_dispatch (cbs\<lparr>on_close := Some Inr\<rparr>) self os h call) s) (\<lambda>s.
     if closing os h then rbind (new_var v a s) (\<lambda>s. rbind (on_closed v s) (drop_var v)) else Inr s)"

definition store_handleEvent ::
  "(vaddr \<Rightarrow> 'z conn_store_scheme \<Rightarrow> 'z conn_store_scheme result) \<Rightarrow> conn_callbacks \<Rightarrow> tid \<Rightarrow> conn_inputs \<Rightarrow> vaddr \<Rightarrow> caddr \<Rightarrow>
   lref \<Rightarrow> chref \<Rightarrow> timestamp \<Rightarrow> 'z conn_store_scheme \<Rightarrow> 'z conn_store_scheme result" where
  "store_handleEvent on_closed cbs self os v a l ref t =
     handleEvent (\<lambda>s. chans (rxs s l) ref) (\<lambda>c s. s\<lparr>rxs := (rxs s)(l := put_chan ref c (rxs s l))\<rparr>)
       (store_dispatch on_closed cbs self os v a) t"

section \<open>Lemmas\<close>

lemma view_simps [simp]:
  "conn (view_of ob s) = body ob" "rx (view_of ob s) = rxs s (obj_loop ob)" "io (view_of ob s) = store_io s"
  "tasks (view_of ob s) = []"
  by (simp_all add: view_of_def)

lemma task_refs_simps [simp]: "task_refs [] = 0" "task_refs (xs @ ys) = task_refs xs + task_refs ys"
  by (simp_all add: task_refs_def)

lemma on_obj_eq: "objs s a = Some ob \<Longrightarrow> f (view_of ob s) = Inr w \<Longrightarrow> on_obj a f s = Inr (put_view a ob w s)"
  by (simp add: on_obj_def)

lemma put_view_frames [simp]:
  "vars (put_view a ob w s) = vars s" "objs (put_view a ob w s) a = Some (ob\<lparr>body := conn w, refs := refs ob + task_refs (tasks w)\<rparr>)"
  "a' \<noteq> a \<Longrightarrow> objs (put_view a ob w s) a' = objs s a'"
  "rxs (put_view a ob w s) = (rxs s)(obj_loop ob := rx w)" "store_io (put_view a ob w s) = io w"
  "queues (put_view a ob w s) = (queues s)(obj_loop ob := queues s (obj_loop ob) @ map (ConnTask a) (tasks w))"
  by (simp_all add: put_view_def)

lemma new_var_eq: "objs s a = Some ob \<Longrightarrow>
    new_var v a s = Inr (s\<lparr>objs := (objs s)(a \<mapsto> ob\<lparr>refs := refs ob + 1\<rparr>), vars := (vars s)(v \<mapsto> a)\<rparr>)"
  by (simp add: new_var_def add_ref_def)

lemma via_eq: "vars s v = Some a \<Longrightarrow> via v f s = f a s"
  by (simp add: via_def)

lemma release_more: "objs s a = Some ob \<Longrightarrow> 1 < refs ob \<Longrightarrow>
    release a s = Inr (s\<lparr>objs := (objs s)(a \<mapsto> ob\<lparr>refs := refs ob - 1\<rparr>)\<rparr>)"
  by (simp add: release_def)

text \<open>The last reference goes while the channel handles an event: the destructor of the channel asserts.\<close>

lemma release_in_event:
  assumes "objs s a = Some ob" and "refs ob \<le> 1"
    and "chans (rxs s (obj_loop ob)) (cref (body ob)) = Some c" and "eventHandling c"
  shows "release a s = Inl AssertFail"
  using assms by (simp add: release_def TcpConnection_dtor_def on_poller_def delete_chan_def deref_def Channel_dtor_def)

text \<open>Otherwise the object goes; its channel goes with it, and its registration stays.\<close>

lemma release_last:
  assumes "objs s a = Some ob" and "refs ob \<le> 1"
    and "chans (rxs s (obj_loop ob)) (cref (body ob)) = Some c" and "\<not> eventHandling c"
  shows "release a s = Inr (s\<lparr>objs := (objs s)(a := None), store_io := store_io s @ [Sys (SysClose (sockfd (csocket (body ob))))],
    rxs := (rxs s)(obj_loop ob := (rxs s (obj_loop ob))\<lparr>chans := (chans (rxs s (obj_loop ob)))(cref (body ob) := None)\<rparr>)\<rparr>)"
  using assms by (simp add: release_def TcpConnection_dtor_def on_poller_def delete_chan_def deref_def Channel_dtor_def
      Socket_dtor_def sock_close_def log_io_def put_view_def view_of_def)

lemma readFd_eof:
  assumes "buf_inv b"
  shows "readFd (ReadBytes []) 0 b = Inr (0, 0, b)"
proof -
  have "unat (writerIndex b) \<le> length (storage b)" using assms by (simp add: buf_inv_def)
  then show ?thesis by (simp add: readFd_def mem_write_def Let_def)
qed

text \<open>The events and the read that make a connection close.\<close>

definition close_event :: "event_bits \<Rightarrow> conn_inputs \<Rightarrow> bool" where
  "close_event r os \<longleftrightarrow> bit r 4 \<and> \<not> bit r 0 \<and> \<not> bit r 1 \<and> \<not> bit r 13 \<or>
     (bit r 0 \<or> (bit r 1 \<or> bit r 13) \<and> \<not> bit r 4) \<and> read_eof os"

text \<open>What the close of a connection leaves of it: all events off, everything else as it was.\<close>

lemma closing_dispatch:
  assumes inv: "conn_inv w" and up: "cstate (conn w) \<in> {Connected, Disconnecting}" and self: "self = loop_tid (rx w)"
    and c: "chans (rx w) (cref (conn w)) = Some c" and h: "closing os h" "h = ConnRead \<longrightarrow> (\<exists>t. call = ReadCall t)"
  shows "\<exists>w'. conn_dispatch (cbs\<lparr>on_close := Some Inr\<rparr>) self os h call w = Inr w' \<and> tasks w' = tasks w \<and> io w' = io w \<and>
    cname (conn w') = cname (conn w) \<and> cref (conn w') = cref (conn w) \<and> loop_tid (rx w') = loop_tid (rx w) \<and>
    chans (rx w') (cref (conn w)) = Some (c\<lparr>events := kNoneEvent\<rparr>)"
proof -
  from change_total [OF inv up self c, of "\<lambda>_. kNoneEvent"] obtain r where
    r: "disableAll self (cref (conn w)) (rx w) = Inr r" "loop_tid r = loop_tid (rx w)"
      "chans r (cref (conn w)) = Some (c\<lparr>events := kNoneEvent\<rparr>)"
    unfolding disableAll_def by blast
  have close: "conn_handleClose (cbs\<lparr>on_close := Some Inr\<rparr>) self (set_inbuf b w) = Inr ((set_inbuf b w)\<lparr>rx := r\<rparr>)"
    "conn_handleClose (cbs\<lparr>on_close := Some Inr\<rparr>) self w = Inr (w\<lparr>rx := r\<rparr>)" for b
    using r(1) up self by (auto simp: conn_handleClose_def on_poller_def call_cb_def conn_simps)
  show ?thesis
  proof (cases "h = ConnClose")
    case True
    then show ?thesis using close(2) r by (auto simp: conn_dispatch_def)
  next
    case False
    with h obtain t where t: "h = ConnRead" "call = ReadCall t" "in_read os = ReadBytes []"
      by (auto simp: closing_def read_eof_def)
    from inv have "buf_inv (inbuf (conn w))" by (simp add: conn_inv_def)
    from readFd_eof [OF this] show ?thesis using close(1) r t by (auto simp: conn_dispatch_def conn_handleRead_def conn_simps)
  qed
qed

text \<open>The error callback only logs, and so does the write callback while write events are off.\<close>

lemma put_own_view: "objs s a = Some ob \<Longrightarrow> put_view a ob (view_of ob s) s = s"
  by (simp add: put_view_def view_of_def fun_upd_idem)

lemma store_error_quiet:
  "objs s a = Some ob \<Longrightarrow> store_dispatch on_closed cbs self os v a ConnError call s = Inr s"
  using on_obj_eq [of s a ob "conn_dispatch (cbs\<lparr>on_close := Some Inr\<rparr>) self os ConnError call" "view_of ob s"]
  by (simp add: store_dispatch_def conn_dispatch_def conn_handleError_def closing_def put_own_view)

lemma store_write_quiet:
  assumes "objs s a = Some ob" and "chans (rxs s (obj_loop ob)) (cref (body ob)) = Some c" and "\<not> isWriting c"
    and "self = loop_tid (rxs s (obj_loop ob))"
  shows "store_dispatch on_closed cbs self os v a ConnWrite call s = Inr s"
proof -
  have "conn_dispatch (cbs\<lparr>on_close := Some Inr\<rparr>) self os ConnWrite call (view_of ob s) = Inr (view_of ob s)"
    using assms(2-4) by (simp add: conn_dispatch_def conn_handleWrite_def on_chan_eq [of _ c])
  from on_obj_eq [of s a ob "conn_dispatch (cbs\<lparr>on_close := Some Inr\<rparr>) self os ConnWrite call", OF assms(1) this] show ?thesis
    by (simp add: store_dispatch_def closing_def put_own_view [OF assms(1)])
qed

text \<open>A test of \<open>handleEvent\<close> that fails, or whose callback changes nothing.\<close>

lemma call_quiet:
  assumes "getc w = Some c" and "test (revents c) \<Longrightarrow> \<exists>h. sel c = Some h \<and> run h call w = Inr w"
  shows "call_if getc test sel call run w = Inr w"
  using assms by (auto simp: call_if_def with_chan_def)

lemma call_made:
  assumes "getc w = Some c" and "test (revents c)" and "sel c = Some h"
  shows "call_if getc test sel call run w = run h call w"
  using assms by (simp add: call_if_def with_chan_def)

text \<open>
  A batch with a functor that refers to a variable that is gone, after others that do not make
  variables: it ends there, if the others let it come that far.
\<close>

lemma run_functor_vars:
  assumes "\<forall>v s s'. remove v s = Inr s' \<longrightarrow> (\<forall>x. vars s x = None \<longrightarrow> vars s' x = None)"
    and "run_functor remove cbs self wr f s = Inr s'" and "vars s x = None"
  shows "vars s' x = None"
  using assms by (cases f) (auto simp: run_functor_def via_def on_obj_def result_simps split: option.splits)

lemma batch_dangles:
  assumes rem: "\<forall>v s s'. remove v s = Inr s' \<longrightarrow> (\<forall>x. vars s x = None \<longrightarrow> vars s' x = None)"
    and q: "queues s l = fs @ [DestroyVia x]" and x: "vars s x = None"
  shows "run_batch remove cbs self wr l s =
    rbind (rfold (run_functor remove cbs self wr) fs (s\<lparr>queues := (queues s)(l := [])\<rparr>)) (\<lambda>_. Inl Dangling)"
proof (cases "rfold (run_functor remove cbs self wr) fs (s\<lparr>queues := (queues s)(l := [])\<rparr>)")
  case (Inl e)
  then show ?thesis by (simp add: run_batch_def q rfold_append)
next
  case (Inr s')
  have "vars s' x = None"
  proof (rule rfold_inv [of fs "\<lambda>s. vars s x = None", OF _ _ Inr])
    show "vars u' x = None" if "vars u x = None" "run_functor remove cbs self wr f u = Inr u'" for f u u'
      by (rule run_functor_vars [OF rem that(2,1)])
  qed (simp add: x)
  with Inr show ?thesis by (simp add: run_batch_def q rfold_append run_functor_def via_def)
qed

text \<open>The same for a connection, whose channel it is.\<close>

lemma put_same_conn:
  assumes inv: "conn_inv w" and c: "chans (rx w) (cref (conn w)) = Some c"
    and d: "chan_fd d = chan_fd c" "index d = index c" "events d = events c"
    and w': "conn w' = conn w" "rx w' = put_chan (cref (conn w)) d (rx w)"
  shows "conn_inv w'"
proof -
  from inv obtain e where e: "reactor_inv (rx w)" "buf_inv (inbuf (conn w))" "buf_inv (outbuf (conn w))"
    "chans (rx w) (cref (conn w)) = Some e" "chan_agrees w e" by (rule conn_invD)
  with c have "e = c" by simp
  have "isWriting d = isWriting c" "isNoneEvent d = isNoneEvent c" using d(3) by (simp_all add: isWriting_def isNoneEvent_def)
  then show ?thesis
    using e \<open>e = c\<close> put_same_inv [OF e(1) c d] d(1)
    by (intro conn_invI [of _ d]) (simp_all add: w' chan_agrees_def conn_fd_def, simp_all add: put_chan_def)
qed

section \<open>Establishing\<close>

text \<open>A connection callback that returns and leaves the connection up and consistent.\<close>

definition callback_keeps :: "(conn_world \<Rightarrow> conn_world result) \<Rightarrow> bool" where
  "callback_keeps f \<longleftrightarrow> (\<forall>w. conn_inv w \<and> cstate (conn w) = Connected \<longrightarrow>
     (\<exists>w'. f w = Inr w' \<and> conn_inv w' \<and> same_conn w w' \<and> cstate (conn w') \<in> {Connected, Disconnecting} \<and>
       channel_map (rx w') = channel_map (rx w)))"

text \<open>What \<open>connectEstablished\<close> does to a new connection, with a callback of the user.\<close>

lemma establish_new:
  assumes w: "conn_inv w" "cstate (conn w) = Connecting" "self = loop_tid (rx w)"
    and c: "chans (rx w) (cref (conn w)) = Some c" "index c < 0" "channel_map (rx w) (conn_fd w) = None"
    and f: "on_connection cbs = Some f" "callback_keeps f"
  shows "\<exists>w'. connectEstablished cbs self w = Inr w' \<and> conn_inv w' \<and> same_conn w w' \<and>
    cstate (conn w') \<in> {Connected, Disconnecting} \<and> channel_map (rx w') (conn_fd w) = Some (cref (conn w))"
proof -
  let ?ref = "cref (conn w)"
  from w(1) c(1) have fd: "chan_fd c = conn_fd w" by (auto simp: conn_inv_def chan_agrees_def)
  let ?r = "added ?ref (c\<lparr>events := events c OR kReadEvent\<rparr>) (rx w)"
  have en: "enableReading self ?ref (rx w) = Inr ?r"
    using change_events_new [OF c(1,2) w(3), of "\<lambda>e. e OR kReadEvent"] c(3) fd unfolding enableReading_def by simp
  let ?w1 = "(set_state Connected w)\<lparr>rx := ?r\<rparr>"
  have "connectEstablished (quiet_cbs False) self w = Inr ?w1"
    using w en by (simp add: connectEstablished_def on_poller_def quiet_cbs_def call_cb_def conn_simps)
  from established_ok [OF w(1) this] have w1: "conn_inv ?w1" "same_conn w ?w1" "cstate (conn ?w1) = Connected" by blast+
  have m: "channel_map (rx ?w1) (conn_fd w) = Some ?ref" using fd by (simp add: added_def)
  from f(2) w1 obtain w' where w': "f ?w1 = Inr w'" "conn_inv w'" "same_conn ?w1 w'"
    "cstate (conn w') \<in> {Connected, Disconnecting}" "channel_map (rx w') = channel_map (rx ?w1)"
    unfolding callback_keeps_def by blast
  have "connectEstablished cbs self w = Inr w'"
    using w en f(1) w'(1) by (simp add: connectEstablished_def on_poller_def call_cb_def conn_simps)
  with w' m same_conn_trans [OF w1(2) w'(3)] show ?thesis by auto
qed

lemma conn_inv_view:
  "conn_inv \<lparr>conn = k, rx = r, io = xs, tasks = ts\<rparr> = conn_inv \<lparr>conn = k, rx = r, io = ys, tasks = us\<rparr>"
  by (simp add: conn_inv_def chan_agrees_def conn_fd_def)

text \<open>
  A connection that is new in the store, with a second reference beside the variable \<open>v\<close>:
  \<open>connectEstablished\<close> and the end of the variable.
\<close>

lemma established_object:
  assumes ob: "objs s a = Some \<lparr>body = conn w, obj_loop = l, refs = 2\<rparr>" "rxs s l = rx w" "vars s v = Some a"
    and w: "conn_inv w" "cstate (conn w) = Connecting" "self = loop_tid (rx w)" "conn_fd w = fd"
    and c: "chans (rx w) (cref (conn w)) = Some c" "index c < 0" "channel_map (rx w) fd = None"
    and f: "on_connection cbs = Some f" "callback_keeps f"
  shows "\<exists>s2 s3 ob. on_obj a (connectEstablished cbs self) s = Inr s2 \<and> drop_var v s2 = Inr s3 \<and>
    objs s3 a = Some ob \<and> 1 \<le> refs ob \<and> obj_loop ob = l \<and> cname (body ob) = cname (conn w) \<and>
    cstate (body ob) \<in> {Connected, Disconnecting} \<and> channel_map (rxs s3 l) fd = Some (cref (conn w)) \<and>
    conn_inv (view_of ob s3) \<and> vars s3 v = None \<and> (\<forall>b. b \<noteq> a \<longrightarrow> objs s3 b = objs s b) \<and> conn_store.more s3 = conn_store.more s"
proof -
  let ?ob = "\<lparr>body = conn w, obj_loop = l, refs = 2\<rparr>"
  let ?w = "view_of ?ob s"
  have "?w = \<lparr>conn = conn w, rx = rx w, io = store_io s, tasks = []\<rparr>" using ob(2) by (simp add: view_of_def)
  moreover have "w = \<lparr>conn = conn w, rx = rx w, io = io w, tasks = tasks w\<rparr>" by simp
  ultimately have vw: "conn_inv ?w" "conn ?w = conn w" "rx ?w = rx w" "conn_fd ?w = fd"
    using w(1,4) ob(2) conn_inv_view by (metis, simp_all add: conn_fd_def)
  have "cstate (conn ?w) = Connecting" "self = loop_tid (rx ?w)" "chans (rx ?w) (cref (conn ?w)) = Some c"
    "channel_map (rx ?w) (conn_fd ?w) = None" using vw w c by simp_all
  from establish_new [OF vw(1) this(1,2,3) c(2) this(4) f] obtain w' where
    w': "connectEstablished cbs self ?w = Inr w'" "conn_inv w'" "same_conn ?w w'" "cstate (conn w') \<in> {Connected, Disconnecting}"
      "channel_map (rx w') fd = Some (cref (conn w))" using vw by auto
  let ?s2 = "put_view a ?ob w' s"
  have est: "on_obj a (connectEstablished cbs self) s = Inr ?s2"
    using on_obj_eq [of s a ?ob "connectEstablished cbs self" w', OF ob(1) w'(1)] .
  let ?ob3 = "\<lparr>body = conn w', obj_loop = l, refs = 1 + task_refs (tasks w')\<rparr>"
  let ?s3 = "?s2\<lparr>vars := (vars ?s2)(v := None), objs := (objs ?s2)(a \<mapsto> ?ob3)\<rparr>"
  have "drop_var v ?s2 = Inr ?s3"
    using release_more [of "?s2\<lparr>vars := (vars ?s2)(v := None)\<rparr>" a "?ob\<lparr>body := conn w', refs := 2 + task_refs (tasks w')\<rparr>"] ob(3)
    by (simp add: drop_var_def via_def)
  moreover have rx: "rxs ?s3 l = rx w'" by simp
  then have "view_of ?ob3 ?s3 = \<lparr>conn = conn w', rx = rx w', io = store_io ?s3, tasks = []\<rparr>" by (simp add: view_of_def)
  then have "conn_inv (view_of ?ob3 ?s3)" using w'(2) conn_inv_view by (metis conn_world.surjective old.unit.exhaust)
  moreover have "cname (conn w') = cname (conn w)" using w'(3) vw(2) by (simp add: same_conn_def)
  ultimately show ?thesis
    using est rx w'(4,5) by (intro exI [of _ ?s2] exI [of _ ?s3] exI [of _ ?ob3]) (simp add: put_view_def)
qed

section \<open>Owners of connections\<close>

text \<open>
  What TcpServer and TcpClient have in common when a connection closes in the thread of its loop:
  the close callback gives up the owner's reference and queues a functor for \<open>connectDestroyed\<close> that
  refers to a \<open>TcpConnectionPtr\<close> variable, the temporary itself or one that is gone when the callback
  returns. \<open>owns a\<close> says that the owner has the connection at \<open>a\<close>; it depends only on the owner's part
  of the state, the threads of the loops, and the name and loop of the connection.
\<close>

definition same_owner :: "caddr \<Rightarrow> 'z conn_store_scheme \<Rightarrow> 'z conn_store_scheme \<Rightarrow> bool" where
  "same_owner a s s' \<longleftrightarrow> conn_store.more s' = conn_store.more s \<and> (\<forall>l. loop_tid (rxs s' l) = loop_tid (rxs s l)) \<and>
     (\<forall>ob. objs s a = Some ob \<longrightarrow> (\<exists>ob'. objs s' a = Some ob' \<and> cname (body ob') = cname (body ob) \<and> obj_loop ob' = obj_loop ob))"

locale conn_owner =
  fixes on_closed :: "vaddr \<Rightarrow> 'z conn_store_scheme \<Rightarrow> 'z conn_store_scheme result"
    and owns :: "caddr \<Rightarrow> 'z conn_store_scheme \<Rightarrow> bool" and other :: vaddr
  assumes owns_stable: "owns a s \<Longrightarrow> same_owner a s s' \<Longrightarrow> owns a s'"
    and on_closed_law: "owns a s \<Longrightarrow> vars s v = Some a \<Longrightarrow> objs s a = Some ob \<Longrightarrow> 2 \<le> refs ob \<Longrightarrow> v \<noteq> other \<Longrightarrow>
      \<exists>s' x. on_closed v s = Inr s' \<and> objs s' a = Some (ob\<lparr>refs := refs ob - 1\<rparr>) \<and> rxs s' = rxs s \<and> vars s' v = Some a \<and>
        queues s' (obj_loop ob) = queues s (obj_loop ob) @ [DestroyVia x] \<and> (x = v \<or> vars s' x = None)"
begin

text \<open>The callback of the channel that closes the connection.\<close>

lemma dispatch_closes:
  assumes own: "owns a s" and ob: "objs s a = Some ob" "1 \<le> refs ob" and v: "v \<noteq> other"
    and w: "conn_inv (view_of ob s)" "cstate (body ob) \<in> {Connected, Disconnecting}" "self = loop_tid (rxs s (obj_loop ob))"
    and c: "chans (rxs s (obj_loop ob)) (cref (body ob)) = Some c" "eventHandling c"
    and h: "closing os h" "h = ConnRead \<longrightarrow> (\<exists>t. call = ReadCall t)"
  shows "(refs ob = 1 \<longrightarrow> store_dispatch on_closed cbs self os v a h call s = Inl AssertFail) \<and>
    (1 < refs ob \<longrightarrow> (\<exists>s' x ob'. store_dispatch on_closed cbs self os v a h call s = Inr s' \<and> vars s' x = None \<and>
      queues s' (obj_loop ob) = queues s (obj_loop ob) @ [DestroyVia x] \<and>
      chans (rxs s' (obj_loop ob)) (cref (body ob)) = Some (c\<lparr>events := kNoneEvent\<rparr>) \<and>
      objs s' a = Some ob' \<and> obj_loop ob' = obj_loop ob \<and> cref (body ob') = cref (body ob) \<and>
      loop_tid (rxs s' (obj_loop ob)) = loop_tid (rxs s (obj_loop ob))))"
proof -
  let ?l = "obj_loop ob" and ?cbs = "cbs\<lparr>on_close := Some Inr\<rparr>"
  from closing_dispatch [of "view_of ob s" self c os h call cbs] w c h obtain cw where
    cw: "conn_dispatch ?cbs self os h call (view_of ob s) = Inr cw" "tasks cw = []"
      "cname (conn cw) = cname (body ob)" "cref (conn cw) = cref (body ob)" "loop_tid (rx cw) = loop_tid (rxs s ?l)"
      "chans (rx cw) (cref (body ob)) = Some (c\<lparr>events := kNoneEvent\<rparr>)" by auto
  let ?s1 = "put_view a ob cw s" and ?ob1 = "ob\<lparr>body := conn cw\<rparr>"
  have s1: "objs ?s1 a = Some ?ob1" using cw(2) by simp
  let ?s2 = "?s1\<lparr>objs := (objs ?s1)(a \<mapsto> ?ob1\<lparr>refs := refs ob + 1\<rparr>), vars := (vars ?s1)(v \<mapsto> a)\<rparr>"
  have var: "new_var v a ?s1 = Inr ?s2" using new_var_eq [OF s1, of v] by simp
  have "same_owner a s ?s2" using ob(1) cw(2,3,5) by (auto simp: same_owner_def put_view_def)
  from on_closed_law [OF owns_stable [OF own this], of v "?ob1\<lparr>refs := refs ob + 1\<rparr>"] ob(2) v obtain s3 x where
    s3: "on_closed v ?s2 = Inr s3" "objs s3 a = Some (?ob1\<lparr>refs := refs ob\<rparr>)" "rxs s3 = rxs ?s2" "vars s3 v = Some a"
      "queues s3 ?l = queues ?s2 ?l @ [DestroyVia x]" "x = v \<or> vars s3 x = None" by auto
  have d: "store_dispatch on_closed cbs self os v a h call s = drop_var v s3"
    using on_obj_eq [of s a ob "conn_dispatch ?cbs self os h call" cw, OF ob(1) cw(1)] var s3(1) h(1) by (simp add: store_dispatch_def)
  let ?s4 = "s3\<lparr>vars := (vars s3)(v := None)\<rparr>"
  have drop: "drop_var v s3 = release a ?s4" using s3(4) by (simp add: drop_var_def via_eq)
  have ob4: "objs ?s4 a = Some (?ob1\<lparr>refs := refs ob\<rparr>)"
    and ch4: "chans (rxs ?s4 ?l) (cref (conn cw)) = Some (c\<lparr>events := kNoneEvent\<rparr>)"
    using s3(2,3) cw(4,6) by simp_all
  have "refs ob = 1 \<Longrightarrow> release a ?s4 = Inl AssertFail"
    using release_in_event [OF ob4, of "c\<lparr>events := kNoneEvent\<rparr>"] ch4 c(2) by simp
  moreover have "\<exists>s' x ob'. release a ?s4 = Inr s' \<and> vars s' x = None \<and> queues s' ?l = queues s ?l @ [DestroyVia x] \<and>
      chans (rxs s' ?l) (cref (body ob)) = Some (c\<lparr>events := kNoneEvent\<rparr>) \<and> objs s' a = Some ob' \<and> obj_loop ob' = ?l \<and>
      cref (body ob') = cref (body ob) \<and> loop_tid (rxs s' ?l) = loop_tid (rxs s ?l)" if k: "1 < refs ob"
    using release_more [OF ob4] k s3 cw(2,4,5) ch4 by (auto intro!: exI [of _ x])
  ultimately show ?thesis using d drop by simp
qed

text \<open>
  The event by which a connection learns that its peer has closed, whatever else is reported with it
  (errors, room to write): a hang-up without anything to read, or something to read and a read of 0
  bytes.
\<close>

lemma event_closes:
  assumes own: "owns a s" and ob: "objs s a = Some ob" "1 \<le> refs ob" and v: "v \<noteq> other"
    and w: "conn_inv (view_of ob s)" "cstate (body ob) \<in> {Connected, Disconnecting}" "self = loop_tid (rxs s (obj_loop ob))"
    and c: "chans (rxs s (obj_loop ob)) (cref (body ob)) = Some c" "wired c" and ev: "close_event (revents c) os"
  shows "(refs ob = 1 \<longrightarrow> store_handleEvent on_closed cbs self os v a (obj_loop ob) (cref (body ob)) t s = Inl AssertFail) \<and>
    (1 < refs ob \<longrightarrow> (\<exists>s' x. store_handleEvent on_closed cbs self os v a (obj_loop ob) (cref (body ob)) t s = Inr s' \<and>
      vars s' x = None \<and> queues s' (obj_loop ob) = queues s (obj_loop ob) @ [DestroyVia x]))"
proof -
  let ?l = "obj_loop ob" and ?ref = "cref (body ob)"
  let ?c = "c\<lparr>eventHandling := True\<rparr>"
  let ?s = "s\<lparr>rxs := (rxs s)(?l := put_chan ?ref ?c (rxs s ?l))\<rparr>"
  let ?h = "if close_test (revents c) then ConnClose else ConnRead"
  let ?call = "if close_test (revents c) then CloseCall else ReadCall t"
  let ?run = "store_dispatch on_closed cbs self os v a" and ?get = "\<lambda>s. chans (rxs s ?l) ?ref"
  have own': "owns a ?s"
    by (rule owns_stable [OF own]) (auto simp: same_owner_def put_chan_def)
  have inv': "conn_inv (view_of ob ?s)"
    by (rule put_same_conn [OF w(1), of c ?c]) (use c in simp_all)
  have s': "objs ?s a = Some ob" "self = loop_tid (rxs ?s ?l)" "?get ?s = Some ?c" "eventHandling ?c"
    using ob w c by (simp_all add: put_chan_def)
  have h: "closing os ?h" "?h = ConnRead \<longrightarrow> (\<exists>t. ?call = ReadCall t)"
    using ev by (auto simp: closing_def close_event_def test_bits)
  note dc = dispatch_closes [OF own' s'(1) ob(2) v inv' w(2) s'(2,3,4) h, of cbs]
  have cb: "closeCallback ?c = Some ConnClose" "errorCallback ?c = Some ConnError" "readCallback ?c = Some ConnRead"
    using c(2) by (simp_all add: wired_def)
  let ?rest = "\<lambda>s. rbind (call_if ?get write_test writeCallback WriteCall ?run s)
    (with_chan ?get (\<lambda>c s. Inr (s\<lparr>rxs := (rxs s)(?l := put_chan ?ref (c\<lparr>eventHandling := False\<rparr>) (rxs s ?l))\<rparr>)))"
  have err: "call_if ?get error_test errorCallback ErrorCall ?run u = Inr u"
    if "?get u = Some d" "errorCallback d = Some ConnError" "objs u a = Some ob'" for u d ob'
    by (rule call_quiet [of ?get u d, OF that(1)]) (use that(2) store_error_quiet [OF that(3)] in auto)
  have start: "store_handleEvent on_closed cbs self os v a ?l ?ref t s =
    rbind (call_if ?get close_test closeCallback CloseCall ?run ?s) (\<lambda>s.
    rbind (call_if ?get error_test errorCallback ErrorCall ?run s) (\<lambda>s.
    rbind (call_if ?get read_test readCallback (ReadCall t) ?run s) ?rest))"
    using c(1) by (simp add: store_handleEvent_def handleEvent_def with_chan_def [of ?get "\<lambda>c s. Inr (s\<lparr>rxs := (rxs s)(?l := put_chan ?ref (c\<lparr>eventHandling := True\<rparr>) (rxs s ?l))\<rparr>)"])
  have whole: "store_handleEvent on_closed cbs self os v a ?l ?ref t s = rbind (?run ?h ?call ?s) ?rest"
    if keeps: "\<And>u. ?run ?h ?call ?s = Inr u \<Longrightarrow> \<exists>d ob'. ?get u = Some d \<and> errorCallback d = Some ConnError \<and>
      revents d = revents c \<and> objs u a = Some ob'"
  proof (cases "close_test (revents c)")
    case True
    with ev have nr: "\<not> read_test (revents c)" by (auto simp: close_event_def test_bits)
    have 1: "call_if ?get close_test closeCallback CloseCall ?run ?s = ?run ?h ?call ?s"
      using call_made [of ?get ?s ?c close_test closeCallback ConnClose CloseCall ?run] s'(3) True cb(1) by simp
    show ?thesis
    proof (cases "?run ?h ?call ?s")
      case (Inl e)
      then show ?thesis by (simp add: start 1)
    next
      case (Inr u)
      from keeps [OF Inr] obtain d ob' where d: "?get u = Some d" "errorCallback d = Some ConnError"
        "revents d = revents c" "objs u a = Some ob'" by blast
      have "call_if ?get read_test readCallback (ReadCall t) ?run u = Inr u"
        by (rule call_quiet [of ?get u d, OF d(1)]) (use nr d(3) in simp)
      then show ?thesis using err [OF d(1,2,4)] by (simp add: start 1 Inr)
    qed
  next
    case False
    with ev have rt: "read_test (revents c)" by (auto simp: close_event_def test_bits)
    have "call_if ?get close_test closeCallback CloseCall ?run ?s = Inr ?s"
      by (rule call_quiet [of ?get ?s ?c, OF s'(3)]) (use False in simp)
    moreover have "call_if ?get read_test readCallback (ReadCall t) ?run ?s = ?run ?h ?call ?s"
      using call_made [of ?get ?s ?c read_test readCallback ConnRead "ReadCall t" ?run] s'(3) False rt cb(3) by simp
    ultimately show ?thesis using err [OF s'(3) cb(2) s'(1)] by (simp only: start rbind_Inr)
  qed
  show ?thesis
  proof (intro conjI impI)
    assume "refs ob = 1"
    with dc have "?run ?h ?call ?s = Inl AssertFail" by blast
    with whole show "store_handleEvent on_closed cbs self os v a ?l ?ref t s = Inl AssertFail" by simp
  next
    assume "1 < refs ob"
    with dc obtain u x ob' where u: "?run ?h ?call ?s = Inr u" "vars u x = None" "queues u ?l = queues s ?l @ [DestroyVia x]"
      "?get u = Some (?c\<lparr>events := kNoneEvent\<rparr>)" "objs u a = Some ob'" "obj_loop ob' = ?l" "cref (body ob') = ?ref"
      "loop_tid (rxs u ?l) = self" using s'(2) by auto
    have "call_if ?get write_test writeCallback WriteCall ?run u = Inr u"
      by (rule call_quiet [of ?get u "?c\<lparr>events := kNoneEvent\<rparr>", OF u(4)])
        (use c(2) u store_write_quiet [OF u(5), of "?c\<lparr>events := kNoneEvent\<rparr>"] writing_bits(4) [of ?c] in \<open>auto simp: wired_def\<close>)
    with u(4) have r: "?rest u = Inr (u\<lparr>rxs := (rxs u)(?l := put_chan ?ref (c\<lparr>events := kNoneEvent, eventHandling := False\<rparr>) (rxs u ?l))\<rparr>)"
      by (simp add: with_chan_def)
    have "store_handleEvent on_closed cbs self os v a ?l ?ref t s = ?rest u"
      by (subst whole) (use u cb(2) in \<open>simp_all add: u(1)\<close>)
    with r u(2,3) show "\<exists>s' x. store_handleEvent on_closed cbs self os v a ?l ?ref t s = Inr s' \<and>
      vars s' x = None \<and> queues s' ?l = queues s ?l @ [DestroyVia x]" by auto
  qed
qed

end

end
