(* ===== verification/Tcp_Server.thy ===== *)
theory Tcp_Server
  imports Conn_Store Connectors "HOL-Library.AList"
begin

text \<open>
  TcpServer (src/net/TcpServer.h, TcpServer.cpp): it accepts connections in its own loop, distributes
  them among the loops of its thread pool, and holds a reference to each in a map from names.

  The state extends the store of connections by the members of the server; \<open>connections_\<close> is an
  association list. The acceptor has a reactor of its own type for its one channel. The addresses of
  new objects and of the variables that functors refer to, and the answers of the system, are
  arguments.
\<close>

section \<open>State\<close>

record tcp_server = conn_store +
  srv_loop :: lref
  srv_name :: string
  acceptor_of :: acceptor
  thread_pool :: loop_pool
  srv_started :: bool
  nextConnId :: int
  connections :: "(string \<times> caddr) list"
  listens :: nat

definition CHECK_NOTNULL :: "lref option \<Rightarrow> lref result" where
  "CHECK_NOTNULL loop = (case loop of None \<Rightarrow> Inl Aborted | Some l \<Rightarrow> Inr l)"

definition TcpServer_new ::
  "bool \<Rightarrow> lref option \<Rightarrow> sockaddr_in \<Rightarrow> int syscall \<Rightarrow> int syscall \<Rightarrow> chref \<Rightarrow> acc_handler reactor \<Rightarrow> conn_store \<Rightarrow> tcp_server result" where
  "TcpServer_new le loop listenAddr so bound ref r s =
     rbind (CHECK_NOTNULL loop) (\<lambda>l.
     rbind (Acceptor_new so bound listenAddr ref r) (\<lambda>acc.
     Inr (conn_store.extend s (tcp_server.fields l (InetAddress_toHostPort le listenAddr) acc
            (EventLoopThreadPool_new l) False 1 [] 0))))"

text \<open>
  The members go in reverse order: the map releases its references, the pool its threads (an
  EventLoopThread each, whose destructor is that of Loop\_Threads), and the acceptor goes last.
\<close>

definition TcpServer_dtor :: "tcp_server \<Rightarrow> tcp_server result" where
  "TcpServer_dtor s =
     rbind (rfold release (map snd (connections s)) (s\<lparr>connections := []\<rparr>)) (\<lambda>s.
     rbind (Acceptor_dtor (acceptor_of s)) (\<lambda>acc. Inr (s\<lparr>acceptor_of := acc\<rparr>)))"

text \<open>The callbacks that new connections are given: the argument \<open>cbs\<close> of \<open>newConnection\<close>.\<close>

definition server_setConnectionCallback :: "(conn_world \<Rightarrow> conn_world result) option \<Rightarrow> conn_callbacks \<Rightarrow> conn_callbacks" where
  "server_setConnectionCallback cb cbs = cbs\<lparr>on_connection := cb\<rparr>"

definition server_setMessageCallback :: "(timestamp \<Rightarrow> conn_world \<Rightarrow> conn_world result) option \<Rightarrow> conn_callbacks \<Rightarrow> conn_callbacks" where
  "server_setMessageCallback cb cbs = cbs\<lparr>on_message := cb\<rparr>"

definition server_setWriteCompleteCallback :: "(conn_world \<Rightarrow> conn_world result) option \<Rightarrow> conn_callbacks \<Rightarrow> conn_callbacks" where
  "server_setWriteCompleteCallback cb cbs = cbs\<lparr>on_write_complete := cb\<rparr>"

definition TcpServer_setThreadNum :: "int \<Rightarrow> tcp_server \<Rightarrow> tcp_server result" where
  "TcpServer_setThreadNum n s = assertC (0 \<le> n) (Inr (s\<lparr>thread_pool := pool_setThreadNum n (thread_pool s)\<rparr>))"

definition loop_owner :: "'z conn_store_scheme \<Rightarrow> lref \<Rightarrow> tid" where
  "loop_owner s l = loop_tid (rxs s l)"

definition server_listen :: "tid \<Rightarrow> int syscall \<Rightarrow> tcp_server \<Rightarrow> tcp_server result" where
  "server_listen self lr s = rbind (acc_listen self lr (acceptor_of s)) (\<lambda>acc. Inr (s\<lparr>acceptor_of := acc\<rparr>))"

definition TcpServer_start ::
  "tid \<Rightarrow> (nat \<Rightarrow> nat syscall \<times> lref) \<Rightarrow> int syscall \<Rightarrow> tcp_server \<Rightarrow> tcp_server result" where
  "TcpServer_start self answers lr s =
     rbind (if \<not> srv_started s
            then rbind (pool_start (loop_owner s) self answers (thread_pool s)) (\<lambda>p. Inr (s\<lparr>srv_started := True, thread_pool := p\<rparr>))
            else Inr s) (\<lambda>s.
     if \<not> listenning (acceptor_of s)
     then if in_thread_of self (srv_loop s) s then server_listen self lr s else Inr (s\<lparr>listens := listens s + 1\<rparr>)
     else Inr s)"

section \<open>Connections\<close>

definition conn_name :: "string \<Rightarrow> int \<Rightarrow> string" where
  "conn_name name i = name @ snprintf 32 (''#'' @ dec_int i)"

text \<open>\<open>connections_[connName] = conn\<close>: the new reference, then the release of the one it replaces.\<close>

definition map_assign :: "string \<Rightarrow> caddr \<Rightarrow> tcp_server \<Rightarrow> tcp_server result" where
  "map_assign k a s = rbind (add_ref a s) (\<lambda>s.
     let s' = s\<lparr>connections := AList.update k a (connections s)\<rparr> in
     case map_of (connections s) k of None \<Rightarrow> Inr s' | Some old \<Rightarrow> release old s')"

definition server_assert :: "tid \<Rightarrow> tcp_server \<Rightarrow> 'b result \<Rightarrow> 'b result" where
  "server_assert self s k = (if in_thread_of self (srv_loop s) s then k else Inl Aborted)"

text \<open>
  \<open>removeConnectionInLoop\<close>, with its parameter in the variable \<open>u\<close>: the name and the loop are read from
  the connection, its entry is erased (\<open>n\<close> is 0 if there is none), and a functor that refers to
  \<open>u\<close> is queued in the loop of the connection.
\<close>

definition removeConnectionInLoop :: "tid \<Rightarrow> vaddr \<Rightarrow> tcp_server \<Rightarrow> tcp_server result" where
  "removeConnectionInLoop self u s = server_assert self s (via u (\<lambda>a s.
     case objs s a of
       None \<Rightarrow> Inl Dangling
     | Some ob \<Rightarrow> (case map_of (connections s) (cname (body ob)) of
           None \<Rightarrow> Inl AssertFail
         | Some b \<Rightarrow>
             rbind (release b (s\<lparr>connections := AList.delete (cname (body ob)) (connections s)\<rparr>)) (\<lambda>s.
             Inr (queue_functor (obj_loop ob) (DestroyVia u) s)))) s)"

text \<open>
  The close callback: \<open>std::bind\<close> copies its argument \<open>v\<close> to \<open>u\<close>; the copy lives as long as the functor,
  that is until \<open>runInLoop\<close> returns or until the batch in which it is called is over.
\<close>

definition removeConnection :: "tid \<Rightarrow> vaddr \<Rightarrow> vaddr \<Rightarrow> tcp_server \<Rightarrow> tcp_server result" where
  "removeConnection self u v s = via v (\<lambda>a s. rbind (new_var u a s) (\<lambda>s.
     if in_thread_of self (srv_loop s) s
     then rbind (removeConnectionInLoop self u s) (drop_var u)
     else Inr (queue_functor (srv_loop s) (RemoveInLoop u) s))) s"

text \<open>
  \<open>newConnection\<close>: \<open>a\<close> and \<open>ref\<close> are the addresses of the connection and its channel, \<open>v\<close> that of the
  local variable \<open>conn\<close>, to which the functor for \<open>connectEstablished\<close> refers.
\<close>

definition newConnection_body ::
  "conn_callbacks \<Rightarrow> tid \<Rightarrow> int \<Rightarrow> sockaddr_in \<Rightarrow> sockaddr_in syscall \<Rightarrow> caddr \<Rightarrow> chref \<Rightarrow> vaddr \<Rightarrow> tcp_server \<Rightarrow> tcp_server result" where
  "newConnection_body cbs self fd peerAddr local a ref v s = server_assert self s
     (let connName = conn_name (srv_name s) (nextConnId s) in
      if \<not> in_int32 (nextConnId s + 1) then Inl Overflow
      else let s = s\<lparr>nextConnId := nextConnId s + 1\<rparr> in
      rbind (getNextLoop (loop_owner s) self (thread_pool s)) (\<lambda>(ioLoop, p).
      rbind (make_conn v a ioLoop connName fd (getLocalAddr local) peerAddr ref (s\<lparr>thread_pool := p\<rparr>)) (\<lambda>s.
      rbind (map_assign connName a s) (\<lambda>s.
      if in_thread_of self ioLoop s then via v (\<lambda>a. on_obj a (connectEstablished cbs self)) s
      else Inr (queue_functor ioLoop (EstablishVia v) s)))))"

definition newConnection ::
  "conn_callbacks \<Rightarrow> tid \<Rightarrow> int \<Rightarrow> sockaddr_in \<Rightarrow> sockaddr_in syscall \<Rightarrow> caddr \<Rightarrow> chref \<Rightarrow> vaddr \<Rightarrow> tcp_server \<Rightarrow> tcp_server result" where
  "newConnection cbs self fd peerAddr local a ref v s =
     rbind (newConnection_body cbs self fd peerAddr local a ref v s) (drop_var v)"

text \<open>The channel of the acceptor is readable: \<open>Acceptor::handleRead\<close> with \<open>newConnection\<close> as its callback.\<close>

definition server_accept ::
  "bool \<Rightarrow> conn_callbacks \<Rightarrow> tid \<Rightarrow> (int \<times> sockaddr_in) syscall \<Rightarrow> sockaddr_in syscall \<Rightarrow> caddr \<Rightarrow> chref \<Rightarrow> vaddr \<Rightarrow> tcp_server \<Rightarrow> tcp_server result" where
  "server_accept le cbs self ar local a ref v s =
     (let before = length (acc_handed (acceptor_of s)) in
      rbind (acc_handleRead self le ar (Some (\<lambda>_ _. Inr)) (acceptor_of s)) (\<lambda>acc.
      let s = s\<lparr>acceptor_of := acc\<rparr> in
      case drop before (acc_handed acc) of
        (connfd, peerAddr) # _ \<Rightarrow> newConnection cbs self connfd peerAddr local a ref v s
      | [] \<Rightarrow> Inr s))"

section \<open>The server as an owner of connections\<close>

definition server_owns :: "tid \<Rightarrow> caddr \<Rightarrow> tcp_server \<Rightarrow> bool" where
  "server_owns self a s \<longleftrightarrow> in_thread_of self (srv_loop s) s \<and>
     (\<exists>ob. objs s a = Some ob \<and> map_of (connections s) (cname (body ob)) = Some a)"

lemma server_fields:
  assumes "conn_store.more s' = conn_store.more (s :: tcp_server)"
  shows "srv_loop s' = srv_loop s" "connections s' = connections s" "srv_name s' = srv_name s" "nextConnId s' = nextConnId s"
    "thread_pool s' = thread_pool s"
  using assms by (cases s; cases s'; simp)+

lemma server_owns_stable:
  assumes "server_owns self a s" and "same_owner a s s'"
  shows "server_owns self a s'"
proof -
  from assms(1) obtain ob where ob: "objs s a = Some ob" "map_of (connections s) (cname (body ob)) = Some a"
    "self = loop_tid (rxs s (srv_loop s))" by (auto simp: server_owns_def in_thread_of_def)
  from assms(2) have more: "conn_store.more s' = conn_store.more s" and t: "\<forall>l. loop_tid (rxs s' l) = loop_tid (rxs s l)"
    by (simp_all add: same_owner_def)
  from assms(2) ob(1) obtain ob' where "objs s' a = Some ob'" "cname (body ob') = cname (body ob)"
    by (auto simp: same_owner_def)
  with ob(2,3) t server_fields [OF more] show ?thesis by (simp add: server_owns_def in_thread_of_def)
qed

lemma removeConnection_law:
  assumes own: "server_owns self a s" and v: "vars s v = Some a" and ob: "objs s a = Some ob" "2 \<le> refs ob" and ne: "v \<noteq> u"
  shows "\<exists>s' x. removeConnection self u v s = Inr s' \<and> objs s' a = Some (ob\<lparr>refs := refs ob - 1\<rparr>) \<and> rxs s' = rxs s \<and>
    vars s' v = Some a \<and> queues s' (obj_loop ob) = queues s (obj_loop ob) @ [DestroyVia x] \<and> (x = v \<or> vars s' x = None)"
proof -
  let ?k = "cname (body ob)"
  have t: "in_thread_of self (srv_loop s) s" and m: "map_of (connections s) ?k = Some a"
    using own ob(1) by (auto simp: server_owns_def)
  let ?s1 = "s\<lparr>objs := (objs s)(a \<mapsto> ob\<lparr>refs := refs ob + 1\<rparr>), vars := (vars s)(u \<mapsto> a)\<rparr>"
  let ?s2 = "?s1\<lparr>connections := AList.delete ?k (connections s)\<rparr>"
  let ?s3 = "?s2\<lparr>objs := (objs s)(a \<mapsto> ob)\<rparr>"
  let ?s4 = "queue_functor (obj_loop ob) (DestroyVia u) ?s3"
  let ?s5 = "?s4\<lparr>vars := (vars ?s4)(u := None)\<rparr>"
  have 1: "new_var u a s = Inr ?s1" by (rule new_var_eq [OF ob(1)])
  have 2: "release a ?s2 = Inr ?s3" using release_more [of ?s2 a "ob\<lparr>refs := refs ob + 1\<rparr>"] ob(2) by simp
  have 3: "removeConnectionInLoop self u ?s1 = Inr ?s4"
    using t m 2 by (simp add: removeConnectionInLoop_def server_assert_def in_thread_of_def via_def)
  have 4: "drop_var u ?s4 = Inr (?s5\<lparr>objs := (objs s)(a \<mapsto> ob\<lparr>refs := refs ob - 1\<rparr>)\<rparr>)"
    using release_more [of ?s5 a ob] ob(2) by (simp add: drop_var_def via_def queue_functor_def)
  have "removeConnection self u v s = Inr (?s5\<lparr>objs := (objs s)(a \<mapsto> ob\<lparr>refs := refs ob - 1\<rparr>)\<rparr>)"
    using v 1 3 4 t by (simp add: removeConnection_def via_def in_thread_of_def)
  then show ?thesis using v ne
    by (intro exI [of _ "?s5\<lparr>objs := (objs s)(a \<mapsto> ob\<lparr>refs := refs ob - 1\<rparr>)\<rparr>"] exI [of _ u]) (simp add: queue_functor_def)
qed

interpretation server: conn_owner "removeConnection self u" "server_owns self" u for self u
  by unfold_locales (rule server_owns_stable removeConnection_law; assumption)+

section \<open>New connections\<close>

lemma conn_name_inj:
  assumes "conn_name n i = conn_name n j" and "0 \<le> i" "i < 2 ^ 31" "0 \<le> j" "j < 2 ^ 31"
  shows "i = j"
proof -
  have "length (''#'' @ dec_int k) \<le> 31" if "0 \<le> k" "k < 2 ^ 31" for k
  proof -
    have "nat k < 10 ^ Suc 9" using that by simp
    from length_dec [OF this] that show ?thesis by (simp add: dec_int_def)
  qed
  with assms have "dec_int i = dec_int j" by (simp add: conn_name_def snprintf_def)
  then show ?thesis by (rule dec_int_inj)
qed

text \<open>
  The names in the map are those of earlier connections, each the name of the connection its entry
  points to, which has a reference.
\<close>

definition server_inv :: "tcp_server \<Rightarrow> bool" where
  "server_inv s \<longleftrightarrow> 1 \<le> nextConnId s \<and> in_int32 (nextConnId s) \<and> (\<forall>k b. map_of (connections s) k = Some b \<longrightarrow>
     (\<exists>i ob. 1 \<le> i \<and> i < nextConnId s \<and> k = conn_name (srv_name s) i \<and> objs s b = Some ob \<and> cname (body ob) = k \<and> 1 \<le> refs ob))"

lemma server_inv_fresh:
  assumes "server_inv s"
  shows "map_of (connections s) (conn_name (srv_name s) (nextConnId s)) = None"
proof (rule ccontr)
  assume "map_of (connections s) (conn_name (srv_name s) (nextConnId s)) \<noteq> None"
  then obtain b where "map_of (connections s) (conn_name (srv_name s) (nextConnId s)) = Some b" by blast
  with assms obtain i where i: "1 \<le> i" "i < nextConnId s" "conn_name (srv_name s) (nextConnId s) = conn_name (srv_name s) i"
    unfolding server_inv_def by blast
  with assms conn_name_inj [OF i(3)] show False by (simp add: server_inv_def in_int32_def)
qed

text \<open>Up to the decision where \<open>connectEstablished\<close> runs.\<close>

definition registered_state ::
  "int \<Rightarrow> sockaddr_in \<Rightarrow> sockaddr_in \<Rightarrow> caddr \<Rightarrow> chref \<Rightarrow> vaddr \<Rightarrow> lref \<Rightarrow> loop_pool \<Rightarrow> conn_world \<Rightarrow> tcp_server \<Rightarrow> tcp_server" where
  "registered_state fd la pa a ref v l p w s =
     s\<lparr>nextConnId := nextConnId s + 1, thread_pool := p, objs := (objs s)(a \<mapsto> \<lparr>body = conn w, obj_loop = l, refs = 2\<rparr>),
       vars := (vars s)(v \<mapsto> a), rxs := (rxs s)(l := rx w),
       connections := AList.update (conn_name (srv_name s) (nextConnId s)) a (connections s)\<rparr>"

lemma registered_eq:
  assumes inv: "server_inv s" and self: "in_thread_of self (srv_loop s) s" and i: "in_int32 (nextConnId s + 1)"
    and l: "getNextLoop (loop_owner s) self (thread_pool s) = Inr (l, p)"
    and w: "TcpConnection_new (conn_name (srv_name s) (nextConnId s)) fd (getLocalAddr la) pa ref (rxs s l) = Inr w"
  shows "newConnection_body cbs self fd pa la a ref v s =
    (let s1 = registered_state fd (getLocalAddr la) pa a ref v l p w s in
     if self = loop_tid (rx w) then on_obj a (connectEstablished cbs self) s1 else Inr (queue_functor l (EstablishVia v) s1))"
proof -
  have "map_assign (conn_name (srv_name s) (nextConnId s)) a
      (s\<lparr>nextConnId := nextConnId s + 1, thread_pool := p, objs := (objs s)(a \<mapsto> \<lparr>body = conn w, obj_loop = l, refs = 1\<rparr>),
         vars := (vars s)(v \<mapsto> a), rxs := (rxs s)(l := rx w)\<rparr>) = Inr (registered_state fd (getLocalAddr la) pa a ref v l p w s)"
    using server_inv_fresh [OF inv] by (simp add: map_assign_def add_ref_def registered_state_def numeral_2_eq_2)
  moreover have "loop_owner (s\<lparr>nextConnId := nextConnId s + 1\<rparr>) = loop_owner s" by (simp add: loop_owner_def fun_eq_iff)
  ultimately show ?thesis
    using self i l w by (simp add: newConnection_body_def server_assert_def make_conn_def Let_def via_def in_thread_of_def registered_state_def)
qed

text \<open>The precondition of a new connection on the descriptor \<open>fd\<close>, given to the loop \<open>l\<close>.\<close>

definition can_connect :: "tid \<Rightarrow> int \<Rightarrow> caddr \<Rightarrow> chref \<Rightarrow> lref \<Rightarrow> loop_pool \<Rightarrow> tcp_server \<Rightarrow> bool" where
  "can_connect self fd a ref l p s \<longleftrightarrow> server_inv s \<and> in_thread_of self (srv_loop s) s \<and> in_int32 (nextConnId s + 1) \<and>
     getNextLoop (loop_owner s) self (thread_pool s) = Inr (l, p) \<and> reactor_inv (rxs s l) \<and> chans (rxs s l) ref = None \<and>
     0 \<le> fd \<and> channel_map (rxs s l) fd = None \<and> objs s a = None"

text \<open>The new entry of the map and the invariant, for a state whose other connections are as before.\<close>

lemma server_inv_add:
  assumes inv: "server_inv s" and free: "objs s a = None" and i: "in_int32 (nextConnId s + 1)"
    and s': "srv_name s' = srv_name s" "nextConnId s' = nextConnId s + 1"
      "connections s' = AList.update (conn_name (srv_name s) (nextConnId s)) a (connections s)"
      "\<And>b. b \<noteq> a \<Longrightarrow> objs s' b = objs s b"
    and ob: "objs s' a = Some ob" "cname (body ob) = conn_name (srv_name s) (nextConnId s)" "1 \<le> refs ob"
  shows "server_inv s'"
  unfolding server_inv_def
proof (intro conjI allI impI)
  have n: "1 \<le> nextConnId s" using inv by (simp add: server_inv_def)
  then show "1 \<le> nextConnId s'" "in_int32 (nextConnId s')" using s'(2) i by simp_all
  fix k b assume m: "map_of (connections s') k = Some b"
  show "\<exists>i ob. 1 \<le> i \<and> i < nextConnId s' \<and> k = conn_name (srv_name s') i \<and> objs s' b = Some ob \<and> cname (body ob) = k \<and> 1 \<le> refs ob"
  proof (cases "k = conn_name (srv_name s) (nextConnId s)")
    case True
    with m s'(3) have "b = a" by (simp add: update_conv')
    with True ob n s'(1,2) show ?thesis by (intro exI [of _ "nextConnId s"] exI [of _ ob]) simp
  next
    case False
    with m s'(3) have "map_of (connections s) k = Some b" by (simp add: update_conv')
    with inv obtain j ob' where j: "1 \<le> j" "j < nextConnId s" "k = conn_name (srv_name s) j" "objs s b = Some ob'"
      "cname (body ob') = k" "1 \<le> refs ob'" unfolding server_inv_def by blast
    with free s'(4) have "objs s' b = Some ob'" by (metis option.distinct(1))
    with j s'(1,2) show ?thesis by (intro exI [of _ j] exI [of _ ob']) simp
  qed
qed

lemma newConnection_same_loop:
  assumes can: "can_connect self fd a ref l p s" and here: "self = loop_tid (rxs s l)"
    and f: "on_connection cbs = Some f" "callback_keeps f"
  shows "\<exists>s' ob. newConnection cbs self fd pa la a ref v s = Inr s' \<and> server_inv s' \<and>
    map_of (connections s') = (map_of (connections s))(conn_name (srv_name s) (nextConnId s) \<mapsto> a) \<and>
    nextConnId s' = nextConnId s + 1 \<and> thread_pool s' = p \<and> objs s' a = Some ob \<and> 1 \<le> refs ob \<and> obj_loop ob = l \<and>
    cname (body ob) = conn_name (srv_name s) (nextConnId s) \<and> cstate (body ob) \<in> {Connected, Disconnecting} \<and>
    channel_map (rxs s' l) fd = Some ref \<and> conn_inv (view_of ob s') \<and> vars s' v = None \<and> (\<forall>b. b \<noteq> a \<longrightarrow> objs s' b = objs s b)"
proof -
  let ?k = "conn_name (srv_name s) (nextConnId s)"
  from can have pre: "server_inv s" "in_thread_of self (srv_loop s) s" "in_int32 (nextConnId s + 1)"
    "getNextLoop (loop_owner s) self (thread_pool s) = Inr (l, p)" "reactor_inv (rxs s l)" "chans (rxs s l) ref = None"
    "0 \<le> fd" "channel_map (rxs s l) fd = None" "objs s a = None" by (simp_all add: can_connect_def)
  from new_conn_ok [OF pre(5-7), of ?k "getLocalAddr la" pa] obtain w c where
    w: "TcpConnection_new ?k fd (getLocalAddr la) pa ref (rxs s l) = Inr w" "conn_inv w" "cstate (conn w) = Connecting"
      "cref (conn w) = ref" "conn_fd w = fd" "loop_tid (rx w) = loop_tid (rxs s l)"
    and c: "chans (rx w) ref = Some c" "index c < 0" "channel_map (rx w) = channel_map (rxs s l)" by blast
  have name: "cname (conn w) = ?k" using w(1) by (auto simp: TcpConnection_new_def result_simps)
  let ?s1 = "registered_state fd (getLocalAddr la) pa a ref v l p w s"
  have s1: "objs ?s1 a = Some \<lparr>body = conn w, obj_loop = l, refs = 2\<rparr>" "rxs ?s1 l = rx w" "vars ?s1 v = Some a"
    by (simp_all add: registered_state_def)
  have w': "self = loop_tid (rx w)" "chans (rx w) (cref (conn w)) = Some c" "channel_map (rx w) fd = None"
    using w(4,6) c here pre(8) by simp_all
  from established_object [OF s1 w(2,3) w'(1) w(5) w'(2) c(2) w'(3) f] obtain s2 s3 ob where
    e: "on_obj a (connectEstablished cbs self) ?s1 = Inr s2" "drop_var v s2 = Inr s3" "objs s3 a = Some ob" "1 \<le> refs ob"
      "obj_loop ob = l" "cname (body ob) = ?k" "cstate (body ob) \<in> {Connected, Disconnecting}"
      "channel_map (rxs s3 l) fd = Some ref" "conn_inv (view_of ob s3)" "vars s3 v = None"
      "\<And>b. b \<noteq> a \<Longrightarrow> objs s3 b = objs ?s1 b" "conn_store.more s3 = conn_store.more ?s1"
    unfolding name w(4) by blast
  have new: "newConnection cbs self fd pa la a ref v s = Inr s3"
    using registered_eq [OF pre(1-4) w(1)] w'(1) e(1,2) by (simp add: newConnection_def Let_def)
  have rest: "srv_name s3 = srv_name s" "nextConnId s3 = nextConnId s + 1" "thread_pool s3 = p"
    "connections s3 = AList.update ?k a (connections s)" "\<And>b. b \<noteq> a \<Longrightarrow> objs s3 b = objs s b"
    using server_fields [OF e(12)] e(11) by (simp_all add: registered_state_def)
  have "server_inv s3" by (rule server_inv_add [OF pre(1,9,3) rest(1,2,4,5) e(3,6,4)])
  with new rest e show ?thesis by (intro exI [of _ s3] exI [of _ ob]) (simp add: update_conv')
qed

lemma newConnection_other_loop:
  assumes can: "can_connect self fd a ref l p s" and there: "self \<noteq> loop_tid (rxs s l)"
  shows "\<exists>s'. newConnection cbs self fd pa la a ref v s = Inr s' \<and> server_inv s' \<and> vars s' v = None \<and>
    queues s' l = queues s l @ [EstablishVia v]"
proof -
  let ?k = "conn_name (srv_name s) (nextConnId s)"
  from can have pre: "server_inv s" "in_thread_of self (srv_loop s) s" "in_int32 (nextConnId s + 1)"
    "getNextLoop (loop_owner s) self (thread_pool s) = Inr (l, p)" "reactor_inv (rxs s l)" "chans (rxs s l) ref = None"
    "0 \<le> fd" "objs s a = None" by (simp_all add: can_connect_def)
  from new_conn_ok [OF pre(5-7), of ?k "getLocalAddr la" pa] obtain w where
    w: "TcpConnection_new ?k fd (getLocalAddr la) pa ref (rxs s l) = Inr w" "loop_tid (rx w) = loop_tid (rxs s l)" by blast
  have name: "cname (conn w) = ?k" using w(1) by (auto simp: TcpConnection_new_def result_simps)
  let ?s1 = "queue_functor l (EstablishVia v) (registered_state fd (getLocalAddr la) pa a ref v l p w s)"
  let ?s2 = "?s1\<lparr>vars := (vars ?s1)(v := None), objs := (objs ?s1)(a \<mapsto> \<lparr>body = conn w, obj_loop = l, refs = 1\<rparr>)\<rparr>"
  have "newConnection_body cbs self fd pa la a ref v s = Inr ?s1"
    using registered_eq [OF pre(1-4) w(1)] there w(2) by (simp add: Let_def)
  moreover have "drop_var v ?s1 = Inr ?s2"
    using release_more [of "?s1\<lparr>vars := (vars ?s1)(v := None)\<rparr>" a "\<lparr>body = conn w, obj_loop = l, refs = 2\<rparr>"]
    by (simp add: drop_var_def via_def queue_functor_def registered_state_def)
  moreover have "server_inv ?s2"
    by (rule server_inv_add [OF pre(1,8,3), of _ "\<lparr>body = conn w, obj_loop = l, refs = 1\<rparr>"])
      (simp_all add: queue_functor_def registered_state_def name)
  moreover have "vars ?s2 v = None" "queues ?s2 l = queues s l @ [EstablishVia v]"
    by (simp_all add: queue_functor_def registered_state_def)
  ultimately show ?thesis by (intro exI [of _ ?s2]) (simp add: newConnection_def)
qed

text \<open>The header says that \<open>start\<close> is thread safe; the pool it starts insists on the base loop's thread.\<close>

lemma start_aborts_elsewhere:
  assumes "\<not> srv_started s" and "\<not> pool_started (thread_pool s)" and "self \<noteq> loop_tid (rxs s (baseLoop (thread_pool s)))"
  shows "TcpServer_start self answers lr s = Inl Aborted"
  using assms by (simp add: TcpServer_start_def pool_start_def base_assert_def loop_owner_def)

text \<open>
  A server that listens and is destroyed leaves its channel in the poller, which nothing removes:
  the next connection request that \<open>poll\<close> reports uses the destroyed channel.
\<close>

lemma server_dtor_dangles:
  assumes "connections s = []" and "acc = acceptor_of s" and "chans (acc_rx acc) (acc_ref acc) = Some c" and "\<not> eventHandling c"
    and "channel_map (acc_rx acc) (pfd_fd p) = Some (acc_ref acc)" and "short_pos (pfd_revents p)"
  shows "\<exists>s'. TcpServer_dtor s = Inr s' \<and> fill_one p (acc_rx (acceptor_of s'), n, active) = Inl Dangling"
  using assms by (simp add: TcpServer_dtor_def Acceptor_dtor_def delete_chan_def deref_def Channel_dtor_def fill_one_def Let_def)

section \<open>Properties\<close>

text \<open>A server whose loop and only I/O loop is 0, of thread 1; \<open>sample_server2\<close> has an I/O loop 7 of thread 2.\<close>

definition sample_acceptor :: acceptor where
  "sample_acceptor = \<lparr>acc_socket = \<lparr>sockfd = 3\<rparr>, acc_ref = 0, listenning = True, acc_rx = Poller_new 1, acc_io = [], acc_handed = []\<rparr>"

definition sample_server :: "lref list \<Rightarrow> tcp_server" where
  "sample_server ls = \<lparr>objs = Map.empty, vars = Map.empty, rxs = (\<lambda>l. Poller_new (if l = 0 then 1 else 2)), queues = (\<lambda>_. []),
     store_io = [], srv_loop = 0, srv_name = ''s'', acceptor_of = sample_acceptor,
     thread_pool = (EventLoopThreadPool_new 0)\<lparr>pool_started := True, loops_of := ls\<rparr>, srv_started = True,
     nextConnId = 1, connections = [], listens = 0\<rparr>"

lemma sample_can:
  "can_connect 1 5 16 0 0 (thread_pool (sample_server [])) (sample_server [])"
  "can_connect 1 5 16 0 7 (thread_pool (sample_server [7])) (sample_server [7])"
  by (simp_all add: can_connect_def server_inv_def sample_server_def in_thread_of_def Poller_new_def in_int32_def
      getNextLoop_def base_assert_def EventLoopThreadPool_new_def loop_owner_def Poller_new_inv [unfolded Poller_new_def])

text \<open>
  C24. A new connection of a server whose I/O loop is in the accepting thread: whatever the connection
  callback does (as long as it returns with the connection up), \<open>newConnection\<close> returns with the
  connection established and registered with its loop, under a name that no connection of the map
  has, added to the map as its only change, with a reference left; and the names in the map stay
  names of their connections.
\<close>

theorem newConnection_registers:
  assumes "can_connect self fd a ref l p s" and "self = loop_tid (rxs s l)"
    and "on_connection cbs = Some f" and "callback_keeps f"
  shows "map_of (connections s) (conn_name (srv_name s) (nextConnId s)) = None \<and>
    (\<exists>s' ob. newConnection cbs self fd pa la a ref v s = Inr s' \<and> server_inv s' \<and>
      map_of (connections s') = (map_of (connections s))(conn_name (srv_name s) (nextConnId s) \<mapsto> a) \<and>
      objs s' a = Some ob \<and> 1 \<le> refs ob \<and> obj_loop ob = l \<and> cstate (body ob) \<in> {Connected, Disconnecting} \<and>
      channel_map (rxs s' l) fd = Some ref \<and> conn_inv (view_of ob s') \<and> vars s' v = None \<and> (\<forall>b. b \<noteq> a \<longrightarrow> objs s' b = objs s b))"
  using newConnection_same_loop [OF assms, of pa la v] server_inv_fresh [of s] assms(1)
  unfolding can_connect_def by blast

theorem newConnection_registers_witness:
  "\<exists>s' ob. newConnection \<lparr>on_connection = Some Inr, on_message = None, on_write_complete = None, on_close = None\<rparr>
     1 5 zero_addr (Ret zero_addr) 16 0 32 (sample_server []) = Inr s' \<and> map_of (connections s') ''s#1'' = Some 16 \<and>
     objs s' 16 = Some ob \<and> 1 \<le> refs ob"
proof -
  let ?cbs = "\<lparr>on_connection = Some Inr, on_message = None, on_write_complete = None, on_close = None\<rparr> :: conn_callbacks"
  have f: "on_connection ?cbs = Some Inr" "callback_keeps Inr" by (simp_all add: callback_keeps_def)
  have here: "1 = loop_tid (rxs (sample_server []) 0)" by (simp add: sample_server_def Poller_new_def)
  have "dec_int 1 = ''1''" by code_simp
  then have k: "conn_name (srv_name (sample_server [])) (nextConnId (sample_server [])) = ''s#1''"
    by (simp add: sample_server_def conn_name_def snprintf_def)
  from newConnection_registers [OF sample_can(1) here f, of zero_addr "Ret zero_addr" 32, unfolded k] show ?thesis by auto
qed

text \<open>
  A new connection given to a loop of another thread: the functor that is queued there for
  \<open>connectEstablished\<close> refers to the local variable of \<open>newConnection\<close>. Once \<open>newConnection\<close> has returned,
  the batch in which that loop runs the functor uses a variable that is gone.
\<close>

theorem newConnection_dangles:
  assumes "can_connect self fd a ref l p s" and "self \<noteq> loop_tid (rxs s l)" and "queues s l = []"
  shows "\<exists>s'. newConnection cbs self fd pa la a ref v s = Inr s' \<and> run_batch remove cbs t wr l s' = Inl Dangling"
  using newConnection_other_loop [OF assms(1,2), of cbs pa la v] assms(3)
  by (auto simp: run_batch_def run_functor_def via_def Let_def)

theorem newConnection_dangles_witness:
  "\<forall>cbs. \<exists>s'. newConnection cbs 1 5 zero_addr (Ret zero_addr) 16 0 32 (sample_server [7]) = Inr s' \<and>
     run_batch (removeConnectionInLoop 2) cbs 2 (Ret 0) 7 s' = Inl Dangling"
proof (intro allI)
  fix cbs :: conn_callbacks
  have "1 \<noteq> loop_tid (rxs (sample_server [7]) 7)" "queues (sample_server [7]) 7 = []"
    by (simp_all add: sample_server_def Poller_new_def)
  from newConnection_dangles [OF sample_can(2) this] show "\<exists>s'. newConnection cbs 1 5 zero_addr (Ret zero_addr) 16 0 32 (sample_server [7]) = Inr s' \<and>
     run_batch (removeConnectionInLoop 2) cbs 2 (Ret 0) 7 s' = Inl Dangling" by blast
qed

text \<open>A functor that removes a connection makes no variable.\<close>

lemma removeConnectionInLoop_vars: "removeConnectionInLoop self u s = Inr s' \<Longrightarrow> vars s' = vars s"
  by (auto simp: removeConnectionInLoop_def server_assert_def via_def release_def result_simps queue_functor_def
      split: option.splits if_splits)

text \<open>The server with one connection, whose channel has been given the events \<open>ev\<close>.\<close>

lemma sample_close:
  obtains s :: tcp_server and ob c where "in_thread_of 1 (srv_loop s) s" "objs s 16 = Some ob" "refs ob = k" "obj_loop ob = 0"
    "map_of (connections s) (cname (body ob)) = Some 16" "conn_inv (view_of ob s)" "cstate (body ob) \<in> {Connected, Disconnecting}"
    "1 = loop_tid (rxs s 0)" "cref (body ob) = 0"
    "chans (rxs s 0) 0 = Some c" "wired c" "revents c = ev" "queues s 0 = []"
proof -
  obtain w :: conn_world and c where w: "conn_inv w" "cstate (conn w) = Connected" "loop_tid (rx w) = 1"
    "chans (rx w) (cref (conn w)) = Some c" "closeCallback c = Some ConnClose" "readCallback c = Some ConnRead"
    "cname (conn w) = ''c''" "cref (conn w) = 0" by (rule sample_conn_full)
  let ?c = "c\<lparr>revents := ev, writeCallback := Some ConnWrite, errorCallback := Some ConnError\<rparr>"
  let ?ob = "\<lparr>body = conn w, obj_loop = 0, refs = k\<rparr>"
  let ?s = "(sample_server [])\<lparr>objs := [16 \<mapsto> ?ob], rxs := \<lambda>_. put_chan 0 ?c (rx w), connections := [(''c'', 16)]\<rparr>"
  have "conn_inv (view_of ?ob ?s)"
    by (rule put_same_conn [OF w(1,4), of ?c]) (simp_all add: w(8))
  then show thesis
    using w by (intro that [of ?s ?ob ?c]) (simp_all add: in_thread_of_def put_chan_def sample_server_def wired_def)
qed

text \<open>
  C25. The close of a connection fails in a server that runs in one thread. Let the connection's channel
  be given a hang-up and nothing to read, or something to read whose \<open>readv\<close> gives 0 bytes, whatever
  other bits are reported with it and whatever functors the loop has queued (left out is a hang-up
  with urgent data or POLLRDHUP and no input, where the code reads after it has closed). If nobody but
  the server's map refers to the connection, it is destroyed within this event, and the destructor of
  its channel aborts the process. If the user holds references, the event returns, and the next batch
  runs the functors that were queued before and then, if they return, fails: the functor for
  \<open>connectDestroyed\<close> that the close has queued refers to a variable that is gone.
\<close>

theorem server_close_fails:
  assumes "in_thread_of self (srv_loop s) s" and "objs s a = Some ob" and "1 \<le> refs ob"
    and "map_of (connections s) (cname (body ob)) = Some a"
    and "conn_inv (view_of ob s)" and "cstate (body ob) \<in> {Connected, Disconnecting}" and "self = loop_tid (rxs s (obj_loop ob))"
    and "chans (rxs s (obj_loop ob)) (cref (body ob)) = Some c" and "wired c" and "close_event (revents c) os" and "v \<noteq> u"
  shows "(refs ob = 1 \<longrightarrow>
      store_handleEvent (removeConnection self u) cbs self os v a (obj_loop ob) (cref (body ob)) t s = Inl AssertFail) \<and>
    (1 < refs ob \<longrightarrow> (\<exists>s'.
      store_handleEvent (removeConnection self u) cbs self os v a (obj_loop ob) (cref (body ob)) t s = Inr s' \<and>
      run_batch (removeConnectionInLoop self) cbs self wr (obj_loop ob) s' =
        rbind (rfold (run_functor (removeConnectionInLoop self) cbs self wr) (queues s (obj_loop ob))
          (s'\<lparr>queues := (queues s')(obj_loop ob := [])\<rparr>)) (\<lambda>_. Inl Dangling)))"
proof -
  have "server_owns self a s" using assms(1,2,4) by (auto simp: server_owns_def)
  note closes = server.event_closes [OF this assms(2,3,11,5-10), of cbs t]
  show ?thesis
  proof (intro conjI impI)
    assume "refs ob = 1"
    with closes show "store_handleEvent (removeConnection self u) cbs self os v a (obj_loop ob) (cref (body ob)) t s = Inl AssertFail"
      by blast
  next
    assume "1 < refs ob"
    with closes obtain s' x where s': "store_handleEvent (removeConnection self u) cbs self os v a (obj_loop ob) (cref (body ob)) t s = Inr s'"
      "vars s' x = None" "queues s' (obj_loop ob) = queues s (obj_loop ob) @ [DestroyVia x]" by blast
    with batch_dangles [OF _ s'(3,2), of "removeConnectionInLoop self" cbs self wr] removeConnectionInLoop_vars
    show "\<exists>s'. store_handleEvent (removeConnection self u) cbs self os v a (obj_loop ob) (cref (body ob)) t s = Inr s' \<and>
      run_batch (removeConnectionInLoop self) cbs self wr (obj_loop ob) s' =
        rbind (rfold (run_functor (removeConnectionInLoop self) cbs self wr) (queues s (obj_loop ob))
          (s'\<lparr>queues := (queues s')(obj_loop ob := [])\<rparr>)) (\<lambda>_. Inl Dangling)" by fastforce
  qed
qed

theorem server_close_fails_witness:
  "\<forall>cbs t wr. (\<exists>s :: tcp_server. store_handleEvent (removeConnection 1 33) cbs 1
       \<lparr>in_read = ReadBytes [], in_write = Ret 0, in_error = Ret 0\<rparr> 32 16 0 0 t s = Inl AssertFail) \<and>
     (\<exists>s s' :: tcp_server. store_handleEvent (removeConnection 1 33) cbs 1
       \<lparr>in_read = ReadBytes [], in_write = Ret 0, in_error = Ret 0\<rparr> 32 16 0 0 t s = Inr s' \<and>
      run_batch (removeConnectionInLoop 1) cbs 1 wr 0 s' = Inl Dangling)"
proof (intro allI)
  fix cbs t wr
  let ?os = "\<lparr>in_read = ReadBytes [], in_write = Ret 0, in_error = Ret 0\<rparr> :: conn_inputs"
  have ev: "close_event (POLLHUP OR POLLOUT) ?os" "close_event (POLLIN OR POLLHUP OR POLLOUT) ?os"
    by (simp_all add: close_event_def read_eof_def bit_or_iff bit_numeral_rec)
  have once: "(refs ob = k \<longrightarrow> k = 1 \<longrightarrow> store_handleEvent (removeConnection 1 33) cbs 1 ?os 32 16 0 0 t s = Inl AssertFail) \<and>
      (refs ob = k \<longrightarrow> 1 < k \<longrightarrow> (\<exists>s'. store_handleEvent (removeConnection 1 33) cbs 1 ?os 32 16 0 0 t s = Inr s' \<and>
        run_batch (removeConnectionInLoop 1) cbs 1 wr 0 s' = Inl Dangling))"
    if s: "in_thread_of 1 (srv_loop s) s" "objs s 16 = Some ob" "obj_loop ob = 0" "map_of (connections s) (cname (body ob)) = Some 16"
      "conn_inv (view_of ob s)" "cstate (body ob) \<in> {Connected, Disconnecting}" "1 = loop_tid (rxs s 0)" "cref (body ob) = 0"
      "chans (rxs s 0) 0 = Some c" "wired c" "close_event (revents c) ?os" "queues s 0 = []" "1 \<le> refs ob"
    for s :: tcp_server and ob c k
  proof -
    have 1: "1 = loop_tid (rxs s (obj_loop ob))" "chans (rxs s (obj_loop ob)) (cref (body ob)) = Some c" "(32 :: vaddr) \<noteq> 33"
      using s by simp_all
    from server_close_fails [OF s(1,2,13,4-6) 1(1,2) s(10,11) 1(3), of cbs t wr] s(3,8,12) show ?thesis by auto
  qed
  obtain s :: tcp_server and ob c where s: "in_thread_of 1 (srv_loop s) s" "objs s 16 = Some ob" "refs ob = 1" "obj_loop ob = 0"
    "map_of (connections s) (cname (body ob)) = Some 16" "conn_inv (view_of ob s)" "cstate (body ob) \<in> {Connected, Disconnecting}"
    "1 = loop_tid (rxs s 0)" "cref (body ob) = 0" "chans (rxs s 0) 0 = Some c" "wired c" "revents c = POLLHUP OR POLLOUT" "queues s 0 = []"
    by (rule sample_close)
  obtain s2 :: tcp_server and ob2 c2 where s2: "in_thread_of 1 (srv_loop s2) s2" "objs s2 16 = Some ob2" "refs ob2 = 2" "obj_loop ob2 = 0"
    "map_of (connections s2) (cname (body ob2)) = Some 16" "conn_inv (view_of ob2 s2)" "cstate (body ob2) \<in> {Connected, Disconnecting}"
    "1 = loop_tid (rxs s2 0)" "cref (body ob2) = 0" "chans (rxs s2 0) 0 = Some c2" "wired c2" "revents c2 = POLLIN OR POLLHUP OR POLLOUT" "queues s2 0 = []"
    by (rule sample_close)
  from once [OF s(1,2,4-11) _ s(13), of 1] once [OF s2(1,2,4-11) _ s2(13), of 2] s(3,12) s2(3,12) ev
  show "(\<exists>s :: tcp_server. store_handleEvent (removeConnection 1 33) cbs 1 ?os 32 16 0 0 t s = Inl AssertFail) \<and>
     (\<exists>s s' :: tcp_server. store_handleEvent (removeConnection 1 33) cbs 1 ?os 32 16 0 0 t s = Inr s' \<and>
      run_batch (removeConnectionInLoop 1) cbs 1 wr 0 s' = Inl Dangling)" by auto
qed

end
