(* ===== verification/Server_Life.thy ===== *)
theory Server_Life
  imports Tcp_Server Conn_Loop
begin

text \<open>
  The life of a TcpServer without I/O threads (src/net/TcpServer.cpp with Acceptor.cpp, TcpConnection.cpp,
  EventLoop.cpp, Poller.cpp): the server is constructed and started, accepts connections, its
  connections read and write, the user keeps and gives up references to them, the loop polls and runs its
  functors, all in the thread of the loop. It ends when the first connection closes, which no such server
  survives (Tcp\_Server).

  Beside the server a state counts the references the user holds.
\<close>

section \<open>Steps\<close>

record server_life =
  srv :: tcp_server
  held :: "caddr \<Rightarrow> nat"

text \<open>The initial state: a server has been constructed in the thread \<open>self\<close> of its loop.\<close>

definition life_init :: "tid \<Rightarrow> server_life \<Rightarrow> bool" where
  "life_init self x \<longleftrightarrow> (\<exists>le l addr so bound ref r st.
     TcpServer_new le (Some l) addr so bound ref r st = Inr (srv x) \<and> objs st = Map.empty \<and> vars st = Map.empty \<and>
     rxs st l = Poller_new self \<and> queues st l = [] \<and> loop_tid r = self) \<and> held x = (\<lambda>_. 0)"

text \<open>What the thread of the loop does with a connection that is up, short of closing it.\<close>

definition live_op :: "tid \<Rightarrow> conn_op \<Rightarrow> bool" where
  "live_op self op = (case op of
       OpSend t _ _ \<Rightarrow> t = self
     | OpShutdown t \<Rightarrow> t = self
     | OpRead _ rd _ \<Rightarrow> rd \<noteq> ReadBytes []
     | OpWrite _ \<Rightarrow> True
     | OpTake _ \<Rightarrow> True
     | OpTakeAll \<Rightarrow> True
     | _ \<Rightarrow> False)"

text \<open>accept(2) gives a descriptor that is not open; new objects are at new addresses.\<close>

definition accept_doc :: "(int \<times> sockaddr_in) syscall \<Rightarrow> caddr \<Rightarrow> chref \<Rightarrow> tcp_server \<Rightarrow> bool" where
  "accept_doc ar a ref s \<longleftrightarrow> objs s a = None \<and> chans (rxs s (srv_loop s)) ref = None \<and>
     (case ar of Ret (fd, _) \<Rightarrow> 0 \<le> fd \<and> (\<forall>b ob. objs s b = Some ob \<longrightarrow> sockfd (csocket (body ob)) \<noteq> fd) | Err _ \<Rightarrow> True)"

definition set_rx :: "conn_handler reactor \<Rightarrow> tcp_server \<Rightarrow> tcp_server" where
  "set_rx r s = s\<lparr>rxs := (rxs s)(srv_loop s := r)\<rparr>"

inductive life_step :: "bool \<Rightarrow> tid \<Rightarrow> server_life \<Rightarrow> server_life \<Rightarrow> bool" for wc :: bool and self :: tid where
  life_start: "TcpServer_start self answers lr (srv x) = Inr s \<Longrightarrow> life_step wc self x (x\<lparr>srv := s\<rparr>)"
| life_accept: "accept_doc ar a ref (srv x) \<Longrightarrow> server_accept le (quiet_cbs wc) self ar local a ref v (srv x) = Inr s \<Longrightarrow>
    life_step wc self x (x\<lparr>srv := s\<rparr>)"
| life_op: "objs (srv x) a = Some ob \<Longrightarrow> live_op self op \<Longrightarrow> op_doc op (view_of ob (srv x)) \<Longrightarrow>
    on_obj a (conn_do wc op) (srv x) = Inr s \<Longrightarrow> life_step wc self x (x\<lparr>srv := s\<rparr>)"
| life_poll: "poll_doc (pollfds (rxs (srv x) (srv_loop (srv x)))) revs \<Longrightarrow>
    Poller_poll (PollReady revs) [] (rxs (srv x) (srv_loop (srv x))) = Inr (r, active) \<Longrightarrow>
    life_step wc self x (x\<lparr>srv := set_rx r (srv x)\<rparr>)"
| life_flag: "chans (rxs (srv x) (srv_loop (srv x))) ref = Some c \<Longrightarrow>
    life_step wc self x (x\<lparr>srv := set_rx (put_chan ref (c\<lparr>eventHandling := b\<rparr>) (rxs (srv x) (srv_loop (srv x)))) (srv x)\<rparr>)"
| life_hold: "add_ref a (srv x) = Inr s \<Longrightarrow> life_step wc self x (x\<lparr>srv := s, held := (held x)(a := held x a + 1)\<rparr>)"
| life_drop: "0 < held x a \<Longrightarrow> release a (srv x) = Inr s \<Longrightarrow>
    life_step wc self x (x\<lparr>srv := s, held := (held x)(a := held x a - 1)\<rparr>)"
| life_batch: "run_batch (removeConnectionInLoop self) (quiet_cbs wc) self wr (srv_loop (srv x)) (srv x) = Inr s \<Longrightarrow>
    life_step wc self x (x\<lparr>srv := s\<rparr>)"

section \<open>Invariant\<close>

text \<open>The references that queued functors hold.\<close>

definition pending :: "caddr \<Rightarrow> conn_functor list \<Rightarrow> nat" where
  "pending a q = count_list q (ConnTask a TWriteComplete)"

definition conn_ok :: "tcp_conn \<Rightarrow> conn_handler reactor \<Rightarrow> bool" where
  "conn_ok k r \<longleftrightarrow> conn_inv \<lparr>conn = k, rx = r, io = [], tasks = []\<rparr>"

definition wired_in :: "conn_handler reactor \<Rightarrow> chref \<Rightarrow> bool" where
  "wired_in r ref \<longleftrightarrow> (\<exists>c. chans r ref = Some c \<and> wired c)"

definition obj_inv :: "(caddr \<Rightarrow> nat) \<Rightarrow> tcp_server \<Rightarrow> caddr \<Rightarrow> conn_obj \<Rightarrow> bool" where
  "obj_inv n s a ob \<longleftrightarrow> obj_loop ob = srv_loop s \<and> up (body ob) \<and> conn_ok (body ob) (rxs s (srv_loop s)) \<and>
     wired_in (rxs s (srv_loop s)) (cref (body ob)) \<and> map_of (connections s) (cname (body ob)) = Some a \<and>
     refs ob = 1 + pending a (queues s (srv_loop s)) + n a"

definition acc_tid :: "tcp_server \<Rightarrow> tid" where
  "acc_tid s = loop_tid (acc_rx (acceptor_of s))"

definition one_loop :: "tid \<Rightarrow> tcp_server \<Rightarrow> bool" where
  "one_loop self s \<longleftrightarrow> loop_tid (rxs s (srv_loop s)) = self \<and> acc_tid s = self \<and> loops_of (thread_pool s) = [] \<and>
     baseLoop (thread_pool s) = srv_loop s \<and> numThreads (thread_pool s) = 0"

definition queue_ok :: "bool \<Rightarrow> tcp_server \<Rightarrow> bool" where
  "queue_ok wc s \<longleftrightarrow> (\<forall>f \<in> set (queues s (srv_loop s)). wc \<and> (\<exists>a. f = ConnTask a TWriteComplete \<and> objs s a \<noteq> None))"

definition life_inv :: "bool \<Rightarrow> tid \<Rightarrow> server_life \<Rightarrow> bool" where
  "life_inv wc self x \<longleftrightarrow> server_inv (srv x) \<and> one_loop self (srv x) \<and> reactor_inv (rxs (srv x) (srv_loop (srv x))) \<and>
     queue_ok wc (srv x) \<and> (\<forall>a ob. objs (srv x) a = Some ob \<longrightarrow> obj_inv (held x) (srv x) a ob) \<and>
     (\<forall>a b oa ob. objs (srv x) a = Some oa \<longrightarrow> objs (srv x) b = Some ob \<longrightarrow> cref (body oa) = cref (body ob) \<longrightarrow> a = b) \<and>
     (\<forall>fd ref. channel_map (rxs (srv x) (srv_loop (srv x))) fd = Some ref \<longrightarrow> (\<exists>a ob. objs (srv x) a = Some ob \<and> cref (body ob) = ref)) \<and>
     (\<forall>a. objs (srv x) a = None \<longrightarrow> held x a = 0)"

lemma pending_simps [simp]:
  "pending a [] = 0" "pending a (p @ q) = pending a p + pending a q"
  "pending a (f # q) = (if f = ConnTask a TWriteComplete then 1 else 0) + pending a q"
  by (simp_all add: pending_def)

lemma conn_ok_iff: "conn_inv w \<longleftrightarrow> conn_ok (conn w) (rx w)"
  by (simp add: conn_ok_def conn_inv_def chan_agrees_def conn_fd_def)

text \<open>The channel map of the loop names the channel of each connection that is up.\<close>

lemma conn_ok_mapped:
  assumes "conn_ok k r" and "up k"
  shows "channel_map r (sockfd (csocket k)) = Some (cref k)"
  using assms by (auto simp: conn_ok_def conn_inv_def chan_agrees_def up_def conn_fd_def)

lemma conn_ok_fd:
  assumes "conn_ok k r" and "channel_map r fd = Some (cref k)"
  shows "sockfd (csocket k) = fd"
proof -
  from assms(1) obtain c where "reactor_inv r" "chans r (cref k) = Some c" "chan_fd c = sockfd (csocket k)"
    by (auto simp: conn_ok_def conn_inv_def chan_agrees_def conn_fd_def)
  with inv_mapped [OF _ assms(2)] show ?thesis by (metis option.inject)
qed

text \<open>A change of the poller that concerns other channels.\<close>

lemma conn_ok_kept:
  assumes "conn_ok k r" and "others_kept chan_like K r r'" and "cref k \<notin> K" and "reactor_inv r'"
  shows "conn_ok k r'"
  using conn_inv_kept [of "\<lparr>conn = k, rx = r, io = [], tasks = []\<rparr>" K r'] assms by (simp add: conn_ok_def)

lemma wired_kept:
  assumes "wired_in r ref" and "others_kept chan_like K r r'" and "ref \<notin> K"
  shows "wired_in r' ref"
proof -
  from assms(1) obtain c where c: "chans r ref = Some c" "wired c" by (auto simp: wired_in_def)
  from assms(2,3) have "rel_option chan_like (chans r ref) (chans r' ref)" by (simp add: others_kept_def)
  with c(1) obtain c' where "chans r' ref = Some c'" "chan_like c c'" by (auto simp: option_rel_Some1)
  with c(2) chan_likeD [of c c'] show ?thesis by (auto simp: wired_in_def wired_def)
qed

section \<open>Steps of the objects\<close>

text \<open>The server and its objects but for their bodies, references and buffers.\<close>

definition same_server :: "tcp_server \<Rightarrow> tcp_server \<Rightarrow> bool" where
  "same_server s s' \<longleftrightarrow> srv_loop s' = srv_loop s \<and> srv_name s' = srv_name s \<and> nextConnId s' = nextConnId s \<and>
     connections s' = connections s \<and> loops_of (thread_pool s') = loops_of (thread_pool s) \<and>
     baseLoop (thread_pool s') = baseLoop (thread_pool s) \<and> numThreads (thread_pool s') = numThreads (thread_pool s) \<and>
     loop_tid (rxs s' (srv_loop s)) = loop_tid (rxs s (srv_loop s)) \<and> acc_tid s' = acc_tid s \<and>
     (\<forall>a. rel_option (\<lambda>ob ob'. cname (body ob') = cname (body ob) \<and> cref (body ob') = cref (body ob)) (objs s a) (objs s' a))"

lemma same_serverD:
  assumes "same_server s s'"
  shows "srv_loop s' = srv_loop s" "connections s' = connections s" "one_loop self s \<Longrightarrow> one_loop self s'"
    "loop_tid (rxs s' (srv_loop s)) = loop_tid (rxs s (srv_loop s))" "(objs s' a = None) = (objs s a = None)"
    "objs s' a = Some ob' \<Longrightarrow> \<exists>ob. objs s a = Some ob \<and> cref (body ob) = cref (body ob') \<and> cname (body ob) = cname (body ob')"
    "objs s a = Some ob \<Longrightarrow> \<exists>ob'. objs s' a = Some ob' \<and> cref (body ob') = cref (body ob) \<and> cname (body ob') = cname (body ob)"
proof -
  from assms have "rel_option (\<lambda>ob ob'. cname (body ob') = cname (body ob) \<and> cref (body ob') = cref (body ob)) (objs s a) (objs s' a)"
    by (simp add: same_server_def)
  then show "(objs s' a = None) = (objs s a = None)"
    "objs s' a = Some ob' \<Longrightarrow> \<exists>ob. objs s a = Some ob \<and> cref (body ob) = cref (body ob') \<and> cname (body ob) = cname (body ob')"
    "objs s a = Some ob \<Longrightarrow> \<exists>ob'. objs s' a = Some ob' \<and> cref (body ob') = cref (body ob) \<and> cname (body ob') = cname (body ob)"
    by (auto simp: option_rel_Some1 option_rel_Some2 elim: option.rel_cases)
qed (use assms in \<open>simp_all add: same_server_def one_loop_def\<close>)

lemma life_keep:
  assumes inv: "life_inv wc self x" and same: "same_server (srv x) s'" and ri: "reactor_inv (rxs s' (srv_loop s'))"
    and q: "queue_ok wc s'" and ob: "\<And>a ob'. objs s' a = Some ob' \<Longrightarrow> obj_inv n s' a ob'"
    and n: "\<And>a. objs (srv x) a = None \<Longrightarrow> n a = 0"
    and own: "\<And>fd ref. channel_map (rxs s' (srv_loop s')) fd = Some ref \<Longrightarrow>
      channel_map (rxs (srv x) (srv_loop (srv x))) fd = Some ref \<or> (\<exists>a ob. objs (srv x) a = Some ob \<and> cref (body ob) = ref)"
  shows "life_inv wc self \<lparr>srv = s', held = n\<rparr>"
proof -
  note D = same_serverD [OF same]
  from inv have i: "server_inv (srv x)" "one_loop self (srv x)"
    "\<And>a b oa ob. objs (srv x) a = Some oa \<Longrightarrow> objs (srv x) b = Some ob \<Longrightarrow> cref (body oa) = cref (body ob) \<Longrightarrow> a = b"
    "\<And>fd ref. channel_map (rxs (srv x) (srv_loop (srv x))) fd = Some ref \<Longrightarrow> \<exists>a ob. objs (srv x) a = Some ob \<and> cref (body ob) = ref"
    unfolding life_inv_def by blast+
  have "server_inv s'"
    unfolding server_inv_def
  proof (intro conjI allI impI)
    show "1 \<le> nextConnId s'" "in_int32 (nextConnId s')" using i(1) same by (simp_all add: server_inv_def same_server_def)
    fix k b assume "map_of (connections s') k = Some b"
    then have "map_of (connections (srv x)) k = Some b" using D(2) by simp
    with i(1) obtain j o1 where j: "1 \<le> j" "j < nextConnId (srv x)" "k = conn_name (srv_name (srv x)) j"
      "objs (srv x) b = Some o1" "cname (body o1) = k" unfolding server_inv_def by blast
    from D(7) [OF j(4)] obtain o2 where o2: "objs s' b = Some o2" "cname (body o2) = cname (body o1)" by blast
    with ob [OF o2(1)] j same show "\<exists>i ob. 1 \<le> i \<and> i < nextConnId s' \<and> k = conn_name (srv_name s') i \<and> objs s' b = Some ob \<and>
        cname (body ob) = k \<and> 1 \<le> refs ob" by (auto simp: obj_inv_def same_server_def)
  qed
  moreover have "one_loop self s'" using i(2) by (rule D(3))
  moreover have "a = b" if "objs s' a = Some oa" "objs s' b = Some ob" "cref (body oa) = cref (body ob)" for a b oa ob
    using D(6) [OF that(1)] D(6) [OF that(2)] i(3) that(3) by metis
  moreover have "\<exists>a ob. objs s' a = Some ob \<and> cref (body ob) = ref" if "channel_map (rxs s' (srv_loop s')) fd = Some ref" for fd ref
    using own [OF that] i(4) D(7) by metis
  moreover have "n a = 0" if "objs s' a = None" for a using n that D(5) by blast
  ultimately show ?thesis using ri q ob by (simp add: life_inv_def)
qed

lemma queue_ok_same:
  assumes "queue_ok wc s" and "srv_loop s' = srv_loop s" and "queues s' (srv_loop s) = queues s (srv_loop s)"
    and "\<And>a. objs s a \<noteq> None \<Longrightarrow> objs s' a \<noteq> None"
  shows "queue_ok wc s'"
  using assms unfolding queue_ok_def by metis

lemma life_obj: "life_inv wc self x \<Longrightarrow> objs (srv x) a = Some ob \<Longrightarrow> obj_inv (held x) (srv x) a ob"
  by (simp add: life_inv_def)

lemma life_none: "life_inv wc self x \<Longrightarrow> objs (srv x) a = None \<Longrightarrow> held x a = 0"
  by (simp add: life_inv_def)

lemma same_obj [simp]: "rel_option (\<lambda>ob ob'. cname (body ob') = cname (body ob) \<and> cref (body ob') = cref (body ob)) y y"
  by (cases y) simp_all

text \<open>Nothing but the poller changes.\<close>

lemma life_rx:
  assumes inv: "life_inv wc self x" and kept: "others_kept chan_like {} (rxs (srv x) (srv_loop (srv x))) r" and r: "reactor_inv r"
  shows "life_inv wc self \<lparr>srv = set_rx r (srv x), held = held x\<rparr>"
proof (rule life_keep [OF inv])
  show "same_server (srv x) (set_rx r (srv x))" using kept by (simp add: same_server_def acc_tid_def set_rx_def others_kept_def)
  show "reactor_inv (rxs (set_rx r (srv x)) (srv_loop (set_rx r (srv x))))" using r by (simp add: set_rx_def)
  show "queue_ok wc (set_rx r (srv x))" using inv by (simp add: life_inv_def queue_ok_def set_rx_def)
  fix a ob assume "objs (set_rx r (srv x)) a = Some ob"
  with life_obj [OF inv] have "obj_inv (held x) (srv x) a ob" by (simp add: set_rx_def)
  then show "obj_inv (held x) (set_rx r (srv x)) a ob"
    using conn_ok_kept [OF _ kept _ r] wired_kept [OF _ kept] by (simp add: obj_inv_def set_rx_def)
qed (rule life_none [OF inv], assumption, use kept in \<open>simp add: set_rx_def others_kept_def\<close>)

lemma life_set_rx: "life_inv wc self x \<Longrightarrow> others_kept chan_like {} (rxs (srv x) (srv_loop (srv x))) r \<Longrightarrow> reactor_inv r \<Longrightarrow>
    life_inv wc self (x\<lparr>srv := set_rx r (srv x)\<rparr>)"
  using life_rx [of wc self x r] by (cases x) simp

text \<open>Nothing but the number of references to \<open>a\<close> changes, with what the user holds.\<close>

lemma life_refs:
  assumes inv: "life_inv wc self x" and a: "objs (srv x) a = Some ob" and k: "k = 1 + pending a (queues (srv x) (srv_loop (srv x))) + m"
  shows "life_inv wc self \<lparr>srv = (srv x)\<lparr>objs := (objs (srv x))(a \<mapsto> ob\<lparr>refs := k\<rparr>)\<rparr>, held = (held x)(a := m)\<rparr>"
proof (rule life_keep [OF inv])
  let ?s = "(srv x)\<lparr>objs := (objs (srv x))(a \<mapsto> ob\<lparr>refs := k\<rparr>)\<rparr>"
  show "same_server (srv x) ?s" using a by (simp add: same_server_def acc_tid_def)
  show "reactor_inv (rxs ?s (srv_loop ?s))" using inv by (simp add: life_inv_def)
  have "queue_ok wc (srv x)" using inv by (simp add: life_inv_def)
  then show "queue_ok wc ?s" by (rule queue_ok_same) simp_all
  fix b ob' assume b: "objs ?s b = Some ob'"
  show "obj_inv ((held x)(a := m)) ?s b ob'"
  proof (cases "b = a")
    case True
    with b life_obj [OF inv a] k show ?thesis by (auto simp: obj_inv_def)
  next
    case False
    with b life_obj [OF inv, of b ob'] show ?thesis by (simp add: obj_inv_def)
  qed
qed (use a life_none [OF inv] in auto)

section \<open>Operations of a connection\<close>

text \<open>An operation leaves the connection up and queues only calls of the write-complete callback, if there is one.\<close>

definition stays_up :: "bool \<Rightarrow> conn_world \<Rightarrow> conn_world \<Rightarrow> bool" where
  "stays_up wc w w' \<longleftrightarrow> (up (conn w) \<longrightarrow> up (conn w')) \<and> (\<exists>ts. tasks w' = tasks w @ ts \<and> (\<forall>t \<in> set ts. wc \<and> t = TWriteComplete))"

lemma stays_up_same: "cstate (conn w') = cstate (conn w) \<Longrightarrow> tasks w' = tasks w \<Longrightarrow> stays_up wc w w'"
  by (simp add: stays_up_def up_def)

lemma stays_up_trans: "stays_up wc u v \<Longrightarrow> stays_up wc v w \<Longrightarrow> stays_up wc u w"
  unfolding stays_up_def by (elim conjE exE) (auto intro!: exI [of _ "_ @ _"])

lemma stays_up_task: "wc \<Longrightarrow> stays_up wc w (queue_task TWriteComplete w)"
  by (simp add: stays_up_def conn_simps)

lemma direct_write_up: "direct_write (quiet_cbs wc) message wr c w = (k, w1) \<Longrightarrow> stays_up wc w w1"
  by (auto simp: direct_write_def quiet_cbs_def stays_up_def conn_simps Let_def split: syscall.splits if_splits)

lemma sendInLoop_up:
  assumes "sendInLoop (quiet_cbs wc) self message wr w = Inr w'"
  shows "stays_up wc w w'"
proof -
  from assms obtain c k w1 where d: "direct_write (quiet_cbs wc) message wr c w = (k, w1)"
    and op: "(if k < length message
       then rbind (buffer_append (drop k message) (outbuf (conn w1))) (\<lambda>b.
            if \<not> isWriting c then on_poller (enableWriting self (cref (conn w1))) (set_outbuf b w1) else Inr (set_outbuf b w1))
       else Inr w1) = Inr w'"
    unfolding sendInLoop_alt on_chan_def deref_def
    by (auto dest!: conn_assert_self split: option.splits prod.splits)
  have "stays_up wc w1 w'"
    using op by (intro stays_up_same) (auto simp: on_poller_def result_simps conn_simps split: if_splits)
  with direct_write_up [OF d] show ?thesis by (rule stays_up_trans)
qed

lemma shutdownInLoop_up: "shutdownInLoop self w = Inr w' \<Longrightarrow> stays_up wc w w'"
  by (rule stays_up_same)
    (auto dest!: conn_assert_self simp: shutdownInLoop_def on_chan_def deref_def conn_simps split: option.splits if_splits)

lemma handleWrite_up:
  assumes "conn_handleWrite (quiet_cbs wc) self wr w = Inr w'"
  shows "stays_up wc w w'"
proof -
  from assms obtain c where self: "self = loop_tid (rx w)" and c: "chans (rx w) (cref (conn w)) = Some c"
    by (auto dest!: conn_assert_self simp: conn_handleWrite_def on_chan_def deref_def split: option.splits)
  show ?thesis
  proof (cases "isWriting c")
    case False
    with assms self show ?thesis by (simp add: conn_handleWrite_def on_chan_eq [OF c] stays_up_same)
  next
    case True
    with assms self obtain n b where n: "wr = Ret n" "retrieve (of_nat n) (outbuf (conn w)) = Inr b"
      by (auto simp: conn_handleWrite_def on_chan_eq [OF c] result_simps split: syscall.splits if_splits)
    let ?w1 = "set_outbuf b (log_io [Wrote (chan_fd c) (take n (contents (outbuf (conn w))))] w)"
    from True assms self n have "(if readableBytes b = 0
        then rbind (on_poller (disableWriting self (cref (conn w))) ?w1) (\<lambda>w.
             let w = (if on_write_complete (quiet_cbs wc) \<noteq> None then queue_task TWriteComplete w else w) in
             if cstate (conn w) = Disconnecting then shutdownInLoop self w else Inr w)
        else Inr ?w1) = Inr w'"
      by (simp add: conn_handleWrite_def on_chan_eq [OF c] Let_def conn_simps cong: if_cong split: if_splits)
    then consider "w' = ?w1" | v u where "on_poller (disableWriting self (cref (conn w))) ?w1 = Inr v"
        "u = (if on_write_complete (quiet_cbs wc) \<noteq> None then queue_task TWriteComplete v else v)"
        "w' = u \<or> shutdownInLoop self u = Inr w'"
      by (auto simp: result_simps Let_def split: if_splits)
    then show ?thesis
    proof cases
      case 1
      then show ?thesis by (intro stays_up_same) (simp_all add: conn_simps)
    next
      case 2
      from 2(1) have "stays_up wc w v" by (intro stays_up_same) (auto simp: on_poller_def result_simps conn_simps)
      moreover have "stays_up wc v u" using 2(2) by (auto simp: quiet_cbs_def stays_up_task stays_up_same)
      moreover have "stays_up wc u w'" using 2(3) shutdownInLoop_up by (auto intro: stays_up_same)
      ultimately show ?thesis using stays_up_trans by blast
    qed
  qed
qed

lemma live_op_up:
  assumes live: "live_op (loop_tid (rx w)) op" and op: "conn_do wc op w = Inr w'"
  shows "stays_up wc w w'"
proof (cases op)
  case (OpShutdown t)
  with assms show ?thesis
    by (auto simp: conn_do_def live_op_def conn_shutdown_def Let_def conn_simps stays_up_same
        dest!: shutdownInLoop_up [where wc = wc] split: if_splits) (simp add: stays_up_def conn_simps up_def)
next
  case (OpRead t rd so)
  with assms have "rd \<noteq> ReadBytes []" "conn_handleRead (quiet_cbs wc) (loop_tid (rx w)) t rd so w = Inr w'"
    by (simp_all add: conn_do_def live_op_def Let_def)
  then show ?thesis
    by (cases rd) (auto simp: conn_handleRead_def quiet_on_message conn_handleError_def Let_def result_simps readFd_def
        conn_simps split: if_splits intro!: stays_up_same)
qed (use assms in \<open>auto simp: conn_do_def live_op_def conn_send_def result_simps conn_simps split: if_splits
      intro: stays_up_same sendInLoop_up handleWrite_up\<close>)

lemma pending_map: "pending b (map (ConnTask a) ts) = (if b = a then task_refs ts else 0)"
  by (induction ts) (auto simp: task_refs_def)

lemma life_crefs:
  assumes "life_inv wc self x" and "objs (srv x) a = Some oa" and "objs (srv x) b = Some ob" and "b \<noteq> a"
  shows "cref (body ob) \<noteq> cref (body oa)"
  using assms unfolding life_inv_def by metis

lemma wired_own:
  assumes "wired_in r ref" and "own_kept ref r r'"
  shows "wired_in r' ref"
proof -
  from assms(1) obtain c where c: "chans r ref = Some c" "wired c" by (auto simp: wired_in_def)
  with assms(2) obtain e i where "chans r' ref = Some (c\<lparr>events := e, index := i\<rparr>)" by (auto simp: own_kept_def)
  with c(2) show ?thesis by (auto simp: wired_in_def wired_def)
qed

lemma life_view:
  assumes inv: "life_inv wc self x" and ob: "objs (srv x) a = Some ob"
    and w: "conn_inv w" "same_conn (view_of ob (srv x)) w" "stays_up wc (view_of ob (srv x)) w"
    and kept: "others_kept chan_same {cref (body ob)} (rxs (srv x) (srv_loop (srv x))) (rx w)"
      "own_kept (cref (body ob)) (rxs (srv x) (srv_loop (srv x))) (rx w)"
  shows "life_inv wc self \<lparr>srv = put_view a ob w (srv x), held = held x\<rparr>"
proof (rule life_keep [OF inv])
  let ?s = "srv x" and ?s' = "put_view a ob w (srv x)"
  let ?l = "srv_loop ?s"
  from life_obj [OF inv ob] have o: "obj_loop ob = ?l" "up (body ob)" "wired_in (rxs ?s ?l) (cref (body ob))"
    "map_of (connections ?s) (cname (body ob)) = Some a" "refs ob = 1 + pending a (queues ?s ?l) + held x a"
    unfolding obj_inv_def by blast+
  have f: "srv_loop ?s' = ?l" "srv_name ?s' = srv_name ?s" "nextConnId ?s' = nextConnId ?s" "connections ?s' = connections ?s"
    "thread_pool ?s' = thread_pool ?s" by (simp_all add: put_view_def)
  from w(2) have same: "cref (conn w) = cref (body ob)" "cname (conn w) = cname (body ob)" "loop_tid (rx w) = loop_tid (rxs ?s ?l)"
    by (simp_all add: same_conn_def o(1))
  from w(3) have t: "\<forall>t \<in> set (tasks w). wc \<and> t = TWriteComplete" "up (conn w)" using o(2) by (auto simp: stays_up_def)
  have r: "reactor_inv (rx w)" using w(1) by (simp add: conn_inv_def)
  have q': "queues ?s' ?l = queues ?s ?l @ map (ConnTask a) (tasks w)" by (simp add: o(1))
  show "same_server ?s ?s'"
    unfolding same_server_def f
  proof (intro conjI refl allI)
    show "loop_tid (rxs ?s' ?l) = loop_tid (rxs ?s ?l)" by (simp add: o(1) same)
    show "acc_tid ?s' = acc_tid ?s" by (simp add: acc_tid_def put_view_def)
    fix b show "rel_option (\<lambda>ob ob'. cname (body ob') = cname (body ob) \<and> cref (body ob') = cref (body ob)) (objs ?s b) (objs ?s' b)"
      by (cases "b = a") (simp_all add: ob same)
  qed
  show "reactor_inv (rxs ?s' (srv_loop ?s'))" using r by (simp add: f o(1))
  have "queue_ok wc ?s" using inv by (simp add: life_inv_def)
  then show "queue_ok wc ?s'" using t(1) by (fastforce simp: queue_ok_def f q' put_view_def)
  show "channel_map (rxs ?s ?l) fd = Some ref \<or> (\<exists>a ob. objs ?s a = Some ob \<and> cref (body ob) = ref)"
    if "channel_map (rxs ?s' (srv_loop ?s')) fd = Some ref" for fd ref
    using that kept(1) ob by (cases "ref = cref (body ob)") (auto simp: f o(1) others_kept_def)
  fix b ob' assume b: "objs ?s' b = Some ob'"
  show "obj_inv (held x) ?s' b ob'"
  proof (cases "b = a")
    case True
    then have "ob' = ob\<lparr>body := conn w, refs := refs ob + task_refs (tasks w)\<rparr>" using b by simp
    then show ?thesis
      using True o w(1) t(2) wired_own [OF o(3) kept(2)] by (simp add: obj_inv_def f q' same conn_ok_iff pending_map)
  next
    case False
    then have b': "objs ?s b = Some ob'" using b by simp
    from life_crefs [OF inv ob b' False] have ne: "cref (body ob') \<notin> {cref (body ob)}" by simp
    from life_obj [OF inv b'] show ?thesis
      using conn_ok_kept [OF _ others_kept_like [OF kept(1)] ne r] wired_kept [OF _ others_kept_like [OF kept(1)] ne] False
      by (simp add: obj_inv_def f q' o(1) pending_map)
  qed
qed (rule life_none [OF inv])

lemma life_op_inv:
  assumes inv: "life_inv wc self x" and ob: "objs (srv x) a = Some ob" and live: "live_op self op"
    and doc: "op_doc op (view_of ob (srv x))" and op: "on_obj a (conn_do wc op) (srv x) = Inr s"
  shows "life_inv wc self (x\<lparr>srv := s\<rparr>)"
proof -
  from life_obj [OF inv ob] have o: "obj_loop ob = srv_loop (srv x)" "conn_inv (view_of ob (srv x))"
    by (simp_all add: obj_inv_def conn_ok_iff)
  have self: "loop_tid (rx (view_of ob (srv x))) = self" using inv by (simp add: life_inv_def one_loop_def o(1))
  from op ob obtain w where w: "conn_do wc op (view_of ob (srv x)) = Inr w" "s = put_view a ob w (srv x)"
    by (auto simp: on_obj_def result_simps)
  from conn_do_ok [OF o(2) doc w(1)] have "conn_inv w" "same_conn (view_of ob (srv x)) w" by blast+
  moreover have "stays_up wc (view_of ob (srv x)) w" using live_op_up [OF _ w(1)] live self by simp
  ultimately show ?thesis
    using life_view [OF inv ob, of w] conn_do_effect [OF o(2) doc w(1)] w(2) by (cases x) (simp add: o(1))
qed

section \<open>A batch of functors\<close>

definition drop_refs :: "conn_functor list \<Rightarrow> (caddr \<Rightarrow> conn_obj option) \<Rightarrow> caddr \<Rightarrow> conn_obj option" where
  "drop_refs q m a = map_option (\<lambda>ob. ob\<lparr>refs := refs ob - pending a q\<rparr>) (m a)"

lemma put_view_idem: "objs s a = Some ob \<Longrightarrow> put_view a ob (view_of ob s) s = (s :: tcp_server)"
  by (simp add: put_view_def fun_upd_idem)

lemma run_completes:
  assumes "\<forall>f \<in> set q. wc \<and> (\<exists>a. f = ConnTask a TWriteComplete \<and> objs (s :: tcp_server) a \<noteq> None)"
  shows "rfold (run_functor remove (quiet_cbs wc) self wr) q s = Inr s"
  using assms
proof (induction q)
  case (Cons f q)
  then obtain a ob where f: "f = ConnTask a TWriteComplete" "objs s a = Some ob" "wc" by auto
  have "run_functor remove (quiet_cbs wc) self wr f s = Inr s"
    using f put_view_idem [OF f(2)] by (simp add: run_functor_def on_obj_def run_task_def call_cb_def quiet_cbs_def)
  with Cons show ?case by simp
qed simp

lemma drop_completes:
  assumes "\<forall>f \<in> set q. \<exists>a. f = ConnTask a TWriteComplete \<and> objs (s :: tcp_server) a \<noteq> None"
    and "\<And>a ob. objs s a = Some ob \<Longrightarrow> pending a q < refs ob"
  shows "rfold drop_functor q s = Inr (s\<lparr>objs := drop_refs q (objs s)\<rparr>)"
  using assms
proof (induction q arbitrary: s)
  case Nil
  have "drop_refs [] (objs s) = objs s" by (simp add: drop_refs_def fun_eq_iff option.map_ident)
  then show ?case by simp
next
  case (Cons f q)
  then obtain a ob where f: "f = ConnTask a TWriteComplete" "objs s a = Some ob" by auto
  let ?t = "s\<lparr>objs := (objs s)(a \<mapsto> ob\<lparr>refs := refs ob - 1\<rparr>)\<rparr>"
  have k: "Suc (pending a q) < refs ob" using Cons.prems(2) [OF f(2)] f(1) by simp
  then have 1: "drop_functor f s = Inr ?t" using release_more [OF f(2)] by (simp add: drop_functor_def f(1))
  have 2: "\<forall>f \<in> set q. \<exists>a. f = ConnTask a TWriteComplete \<and> objs ?t a \<noteq> None" using Cons.prems(1) f(2) by fastforce
  have 3: "pending b q < refs o'" if "objs ?t b = Some o'" for b o'
    using that k Cons.prems(2) [of b o'] by (auto split: if_splits)
  have 4: "drop_refs q (objs ?t) = drop_refs (f # q) (objs s)" using f k by (auto simp: drop_refs_def fun_eq_iff)
  have "rfold drop_functor q ?t = Inr (?t\<lparr>objs := drop_refs q (objs ?t)\<rparr>)" by (rule Cons.IH [OF 2 3])
  then have "rfold drop_functor q ?t = Inr (s\<lparr>objs := drop_refs (f # q) (objs s)\<rparr>)" unfolding 4 by simp
  with 1 show ?case by simp
qed

text \<open>Every batch of functors runs, and gives up exactly the references its functors hold.\<close>

lemma batch_runs:
  assumes inv: "life_inv wc self x"
  defines "s \<equiv> srv x" and "l \<equiv> srv_loop (srv x)"
  shows "run_batch remove (quiet_cbs wc) self wr l s = Inr (s\<lparr>queues := (queues s)(l := []), objs := drop_refs (queues s l) (objs s)\<rparr>)"
proof -
  let ?s = "s\<lparr>queues := (queues s)(l := [])\<rparr>"
  have q: "\<forall>f \<in> set (queues s l). wc \<and> (\<exists>a. f = ConnTask a TWriteComplete \<and> objs ?s a \<noteq> None)"
    using inv by (simp add: life_inv_def queue_ok_def s_def l_def)
  have "pending a (queues s l) < refs ob" if "objs ?s a = Some ob" for a ob
    using life_obj [OF inv, of a ob] that by (simp add: obj_inv_def s_def l_def)
  with drop_completes [of "queues s l" ?s] q have "rfold drop_functor (queues s l) ?s = Inr (?s\<lparr>objs := drop_refs (queues s l) (objs ?s)\<rparr>)"
    by blast
  with run_completes [OF q, of remove self wr] show ?thesis by (simp add: run_batch_def Let_def)
qed

lemma life_batch_inv:
  assumes inv: "life_inv wc self x"
    and op: "run_batch (removeConnectionInLoop self) (quiet_cbs wc) self wr (srv_loop (srv x)) (srv x) = Inr s"
  shows "life_inv wc self (x\<lparr>srv := s\<rparr>)"
proof -
  let ?s = "srv x" and ?l = "srv_loop (srv x)"
  let ?s' = "?s\<lparr>queues := (queues ?s)(?l := []), objs := drop_refs (queues ?s ?l) (objs ?s)\<rparr>"
  have s: "s = ?s'" using batch_runs [OF inv, of "removeConnectionInLoop self" wr] op by simp
  have "life_inv wc self \<lparr>srv = ?s', held = held x\<rparr>"
  proof (rule life_keep [OF inv])
    show "same_server ?s ?s'" by (auto simp: same_server_def acc_tid_def drop_refs_def option.rel_map option.rel_refl)
    show "reactor_inv (rxs ?s' (srv_loop ?s'))" using inv by (simp add: life_inv_def)
    show "queue_ok wc ?s'" by (simp add: queue_ok_def)
    fix a ob' assume "objs ?s' a = Some ob'"
    then obtain ob where "objs ?s a = Some ob" "ob' = ob\<lparr>refs := refs ob - pending a (queues ?s ?l)\<rparr>" by (auto simp: drop_refs_def)
    with life_obj [OF inv, of a ob] show "obj_inv (held x) ?s' a ob'" by (simp add: obj_inv_def)
  qed (use life_none [OF inv] in simp_all)
  then show ?thesis unfolding s by (cases x) simp
qed

section \<open>References of the user\<close>

lemma life_hold_inv:
  assumes inv: "life_inv wc self x" and op: "add_ref a (srv x) = Inr s"
  shows "life_inv wc self (x\<lparr>srv := s, held := (held x)(a := held x a + 1)\<rparr>)"
proof -
  from op obtain ob where ob: "objs (srv x) a = Some ob" "s = (srv x)\<lparr>objs := (objs (srv x))(a \<mapsto> ob\<lparr>refs := refs ob + 1\<rparr>)\<rparr>"
    by (auto simp: add_ref_def split: option.splits)
  have "refs ob + 1 = 1 + pending a (queues (srv x) (srv_loop (srv x))) + (held x a + 1)"
    using life_obj [OF inv ob(1)] by (simp add: obj_inv_def)
  from life_refs [OF inv ob(1) this] show ?thesis by (cases x) (simp add: ob(2))
qed

lemma life_drop_inv:
  assumes inv: "life_inv wc self x" and some: "0 < held x a" and op: "release a (srv x) = Inr s"
  shows "life_inv wc self (x\<lparr>srv := s, held := (held x)(a := held x a - 1)\<rparr>)"
proof -
  from op obtain ob where ob: "objs (srv x) a = Some ob" by (auto simp: release_def split: option.splits)
  have k: "1 < refs ob" "refs ob - 1 = 1 + pending a (queues (srv x) (srv_loop (srv x))) + (held x a - 1)"
    using life_obj [OF inv ob] some by (simp_all add: obj_inv_def)
  from release_more [OF ob k(1)] op have "s = (srv x)\<lparr>objs := (objs (srv x))(a \<mapsto> ob\<lparr>refs := refs ob - 1\<rparr>)\<rparr>" by simp
  with life_refs [OF inv ob k(2)] show ?thesis by (cases x) simp
qed

section \<open>Starting and accepting\<close>

text \<open>The acceptor, the requests to listen and the state of the pool are no concern of the connections.\<close>

lemma life_members:
  assumes inv: "life_inv wc self x"
    and s: "s = (srv x)\<lparr>thread_pool := (thread_pool (srv x))\<lparr>pool_started := b\<rparr>, srv_started := c, acceptor_of := acc, listens := n\<rparr>"
    and acc: "loop_tid (acc_rx acc) = acc_tid (srv x)"
  shows "life_inv wc self (x\<lparr>srv := s\<rparr>)"
proof -
  have "life_inv wc self \<lparr>srv = s, held = held x\<rparr>"
  proof (rule life_keep [OF inv])
    show "same_server (srv x) s" using acc by (simp add: same_server_def acc_tid_def s)
    show "reactor_inv (rxs s (srv_loop s))" using inv by (simp add: life_inv_def s)
    show "queue_ok wc s" using inv by (simp add: life_inv_def queue_ok_def s)
    show "obj_inv (held x) s a ob" if "objs s a = Some ob" for a ob
      using that life_obj [OF inv, of a ob] by (simp add: obj_inv_def s)
  qed (use life_none [OF inv] in \<open>simp_all add: s\<close>)
  then show ?thesis by (cases x) simp
qed

lemma change_tid: "change_events f self ref r = Inr r' \<Longrightarrow> loop_tid r' = loop_tid r"
  by (auto simp: change_events_def updateChannel_def deref_def assertInLoopThread_def put_chan_def Let_def result_simps
      split: option.splits if_splits)

lemma listen_tid: "acc_listen self lr a = Inr a' \<Longrightarrow> loop_tid (acc_rx a') = loop_tid (acc_rx a)"
  by (auto simp: acc_listen_def acc_assertInLoop_def assertInLoopThread_def Let_def result_simps enableReading_def
      dest: change_tid split: if_splits)

lemma life_start_inv:
  assumes inv: "life_inv wc self x" and op: "TcpServer_start self answers lr (srv x) = Inr s"
  shows "life_inv wc self (x\<lparr>srv := s\<rparr>)"
proof -
  let ?s = "srv x"
  have n: "numThreads (thread_pool ?s) = 0" using inv by (simp add: life_inv_def one_loop_def)
  from op obtain t where t: "(if \<not> srv_started ?s
        then rbind (pool_start (loop_owner ?s) self answers (thread_pool ?s)) (\<lambda>p. Inr (?s\<lparr>srv_started := True, thread_pool := p\<rparr>))
        else Inr ?s) = Inr t"
    and s: "(if \<not> listenning (acceptor_of t)
        then if in_thread_of self (srv_loop t) t then server_listen self lr t else Inr (t\<lparr>listens := listens t + 1\<rparr>)
        else Inr t) = Inr s"
    unfolding TcpServer_start_def rbind_eq_Inr by blast
  have "\<exists>b c. t = ?s\<lparr>thread_pool := (thread_pool ?s)\<lparr>pool_started := b\<rparr>, srv_started := c\<rparr>"
  proof (cases "srv_started ?s")
    case True
    with t have "t = ?s\<lparr>thread_pool := (thread_pool ?s)\<lparr>pool_started := pool_started (thread_pool ?s)\<rparr>, srv_started := srv_started ?s\<rparr>" by simp
    then show ?thesis by blast
  next
    case False
    with t n have "t = ?s\<lparr>thread_pool := (thread_pool ?s)\<lparr>pool_started := True\<rparr>, srv_started := True\<rparr>"
      by (auto simp: pool_start_def base_assert_def result_simps split: if_splits)
    then show ?thesis by blast
  qed
  then obtain b c where t': "t = ?s\<lparr>thread_pool := (thread_pool ?s)\<lparr>pool_started := b\<rparr>, srv_started := c\<rparr>" by blast
  have acc: "loop_tid (acc_rx (acceptor_of s)) = acc_tid ?s"
    using s by (auto simp: acc_tid_def t' server_listen_def result_simps dest: listen_tid split: if_splits)
  have "s = t\<lparr>acceptor_of := acceptor_of s, listens := listens s\<rparr>"
    using s by (auto simp: server_listen_def result_simps split: if_splits)
  then have "s = ?s\<lparr>thread_pool := (thread_pool ?s)\<lparr>pool_started := b\<rparr>, srv_started := c, acceptor_of := acceptor_of s, listens := listens s\<rparr>"
    unfolding t' by simp
  from life_members [OF inv this acc] show ?thesis .
qed

text \<open>\<open>newConnection\<close> in the thread of the loop, with callbacks that only return.\<close>

lemma newConnection_quiet:
  assumes can: "can_connect self fd a ref l p s" and here: "self = loop_tid (rxs s l)"
    and op: "newConnection (quiet_cbs wc) self fd pa la a ref v s = Inr s'"
  shows "\<exists>w w'. TcpConnection_new (conn_name (srv_name s) (nextConnId s)) fd (getLocalAddr la) pa ref (rxs s l) = Inr w \<and>
    connectEstablished (quiet_cbs wc) self (w\<lparr>io := store_io s\<rparr>) = Inr w' \<and>
    s' = (registered_state fd (getLocalAddr la) pa a ref v l p w s)\<lparr>objs := (objs s)(a \<mapsto> \<lparr>body = conn w', obj_loop = l, refs = 1\<rparr>),
      vars := (vars s)(v := None), rxs := (rxs s)(l := rx w'), store_io := io w'\<rparr>"
proof -
  let ?k = "conn_name (srv_name s) (nextConnId s)"
  from can have pre: "server_inv s" "in_thread_of self (srv_loop s) s" "in_int32 (nextConnId s + 1)"
    "getNextLoop (loop_owner s) self (thread_pool s) = Inr (l, p)" "reactor_inv (rxs s l)" "chans (rxs s l) ref = None" "0 \<le> fd"
    by (simp_all add: can_connect_def)
  from new_conn_ok [OF pre(5-7), of ?k "getLocalAddr la" pa] obtain w where
    w: "TcpConnection_new ?k fd (getLocalAddr la) pa ref (rxs s l) = Inr w" "loop_tid (rx w) = loop_tid (rxs s l)" by blast
  have ts: "tasks w = []" using w(1) by (auto simp: TcpConnection_new_def result_simps)
  let ?ob = "\<lparr>body = conn w, obj_loop = l, refs = 2\<rparr>"
  let ?s1 = "registered_state fd (getLocalAddr la) pa a ref v l p w s"
  have s1: "objs ?s1 a = Some ?ob" "view_of ?ob ?s1 = w\<lparr>io := store_io s\<rparr>" "vars ?s1 v = Some a"
    using ts by (simp_all add: registered_state_def view_of_def)
  from op registered_eq [OF pre(1-4) w(1)] w(2) here obtain s2 where
    s2: "on_obj a (connectEstablished (quiet_cbs wc) self) ?s1 = Inr s2" "drop_var v s2 = Inr s'"
    by (auto simp: newConnection_def Let_def result_simps)
  from s2(1) obtain w' where w': "connectEstablished (quiet_cbs wc) self (w\<lparr>io := store_io s\<rparr>) = Inr w'" "s2 = put_view a ?ob w' ?s1"
    unfolding on_obj_def s1(1) by (auto simp: s1(2) result_simps)
  have t': "tasks w' = []"
    using w'(1) ts by (auto dest!: conn_assert_self simp: connectEstablished_def on_poller_def result_simps quiet_cbs_def call_cb_def conn_simps)
  have "s' = s2\<lparr>vars := (vars s2)(v := None), objs := (objs s2)(a \<mapsto> \<lparr>body = conn w', obj_loop = l, refs = 1\<rparr>)\<rparr>"
    using s2(2) release_more [of "s2\<lparr>vars := (vars s2)(v := None)\<rparr>" a "\<lparr>body = conn w', obj_loop = l, refs = 2\<rparr>"] s1(3) t'
    by (simp add: drop_var_def via_def w'(2))
  then have "s' = (registered_state fd (getLocalAddr la) pa a ref v l p w s)\<lparr>objs := (objs s)(a \<mapsto> \<lparr>body = conn w', obj_loop = l, refs = 1\<rparr>),
      vars := (vars s)(v := None), rxs := (rxs s)(l := rx w'), store_io := io w'\<rparr>"
    by (simp add: w'(2) put_view_def registered_state_def t')
  with w(1) w'(1) show ?thesis by blast
qed

text \<open>In a state of the invariant a new connection on an unused descriptor meets the precondition of Tcp\_Server.\<close>

lemma life_can_connect:
  assumes inv: "life_inv wc self x" and fd: "0 \<le> fd" "\<forall>b ob. objs (srv x) b = Some ob \<longrightarrow> sockfd (csocket (body ob)) \<noteq> fd"
    and a: "objs (srv x) a = None" "chans (rxs (srv x) (srv_loop (srv x))) ref = None" and n: "in_int32 (nextConnId (srv x) + 1)"
  shows "can_connect self fd a ref (srv_loop (srv x)) (thread_pool (srv x)) (srv x)"
proof -
  let ?s = "srv x" and ?l = "srv_loop (srv x)"
  from inv have i: "server_inv ?s" "one_loop self ?s" "reactor_inv (rxs ?s ?l)" by (simp_all add: life_inv_def)
  have "channel_map (rxs ?s ?l) fd = None"
  proof (rule ccontr)
    assume "channel_map (rxs ?s ?l) fd \<noteq> None"
    with inv obtain b ob where b: "channel_map (rxs ?s ?l) fd = Some (cref (body ob))" "objs ?s b = Some ob"
      unfolding life_inv_def by blast
    from life_obj [OF inv b(2)] have "conn_ok (body ob) (rxs ?s ?l)" by (simp add: obj_inv_def)
    with conn_ok_fd [OF this b(1)] fd(2) b(2) show False by blast
  qed
  with i fd(1) a n show ?thesis
    by (simp add: can_connect_def one_loop_def in_thread_of_def getNextLoop_def base_assert_def loop_owner_def)
qed

lemma newConnection_counts: "newConnection cbs self fd pa la a ref v s = Inr s' \<Longrightarrow> in_int32 (nextConnId s + 1)"
  by (auto simp: newConnection_def newConnection_body_def server_assert_def Let_def result_simps split: if_splits)

lemma wired_new: "TcpConnection_new name fd la pa ref r = Inr w \<Longrightarrow> wired_in (rx w) ref \<and> others_kept chan_same {ref} r (rx w)"
  by (auto simp: TcpConnection_new_def result_simps wired_in_def wired_def new_chan_def put_chan_def others_kept_def
      setReadCallback_def setWriteCallback_def setCloseCallback_def setErrorCallback_def)

text \<open>The connection that \<open>newConnection\<close> makes, and what it leaves alone.\<close>

lemma established_new:
  assumes r: "reactor_inv r" "chans r ref = None" "0 \<le> fd"
    and new: "TcpConnection_new k fd la pa ref r = Inr w" and est: "connectEstablished (quiet_cbs wc) self (w\<lparr>io := es\<rparr>) = Inr w'"
  shows "conn_inv w' \<and> up (conn w') \<and> cref (conn w') = ref \<and> cname (conn w') = k \<and> loop_tid (rx w') = loop_tid r \<and>
    others_kept chan_same {ref} r (rx w') \<and> wired_in (rx w') ref"
proof -
  let ?v = "w\<lparr>io := es\<rparr>"
  from new_conn_ok [OF r, of k la pa] new have w: "conn_inv w" "cref (conn w) = ref" "loop_tid (rx w) = loop_tid r" by auto
  have k: "cname (conn w) = k" using new by (auto simp: TcpConnection_new_def result_simps)
  have v: "conn_inv ?v" using w(1) by (simp add: conn_ok_iff)
  from est have self: "self = loop_tid (rx ?v)" by (auto dest!: conn_assert_self simp: connectEstablished_def)
  have op: "conn_do wc OpEstablish ?v = Inr w'" "op_doc OpEstablish ?v" using est self by (simp_all add: conn_do_def op_doc_def)
  from conn_do_ok [OF v op(2,1)] have 1: "conn_inv w'" "same_conn ?v w'" by blast+
  from conn_do_effect [OF v op(2,1)] have 2: "others_kept chan_same {ref} (rx w) (rx w')" "own_kept ref (rx w) (rx w')"
    by (simp_all add: w(2))
  have "up (conn w')"
    using est by (auto dest!: conn_assert_self simp: connectEstablished_def on_poller_def result_simps quiet_cbs_def call_cb_def conn_simps up_def)
  with 1 2 w k wired_new [OF new] show ?thesis by (auto simp: same_conn_def intro: wired_own others_kept_trans)
qed

lemma life_new_inv:
  assumes inv: "life_inv wc self x" and fd: "0 \<le> fd" "\<forall>b ob. objs (srv x) b = Some ob \<longrightarrow> sockfd (csocket (body ob)) \<noteq> fd"
    and a: "objs (srv x) a = None" "chans (rxs (srv x) (srv_loop (srv x))) ref = None"
    and new: "newConnection (quiet_cbs wc) self fd pa la a ref v (srv x) = Inr s'"
  shows "life_inv wc self (x\<lparr>srv := s'\<rparr>)"
proof -
  let ?s = "srv x" and ?l = "srv_loop (srv x)" and ?p = "thread_pool (srv x)"
  let ?k = "conn_name (srv_name ?s) (nextConnId ?s)"
  note can = life_can_connect [OF inv fd a newConnection_counts [OF new]]
  from inv have i: "server_inv ?s" "one_loop self ?s" "reactor_inv (rxs ?s ?l)" "queue_ok wc ?s" by (simp_all add: life_inv_def)
  have here: "self = loop_tid (rxs ?s ?l)" using i(2) by (simp add: one_loop_def)
  from newConnection_quiet [OF can here new] obtain w w' where
    w: "TcpConnection_new ?k fd (getLocalAddr la) pa ref (rxs ?s ?l) = Inr w"
      "connectEstablished (quiet_cbs wc) self (w\<lparr>io := store_io ?s\<rparr>) = Inr w'"
    and s': "s' = (registered_state fd (getLocalAddr la) pa a ref v ?l ?p w ?s)\<lparr>objs := (objs ?s)(a \<mapsto> \<lparr>body = conn w', obj_loop = ?l, refs = 1\<rparr>),
      vars := (vars ?s)(v := None), rxs := (rxs ?s)(?l := rx w'), store_io := io w'\<rparr>"
    by blast
  from established_new [OF i(3) a(2) fd(1) w] have
    e: "conn_inv w'" "up (conn w')" "cref (conn w') = ref" "cname (conn w') = ?k" "loop_tid (rx w') = loop_tid (rxs ?s ?l)"
      "others_kept chan_same {ref} (rxs ?s ?l) (rx w')" "wired_in (rx w') ref" by blast+
  have r: "reactor_inv (rx w')" using e(1) by (simp add: conn_inv_def)
  let ?ob = "\<lparr>body = conn w', obj_loop = ?l, refs = 1\<rparr>"
  have f: "srv_loop s' = ?l" "srv_name s' = srv_name ?s" "nextConnId s' = nextConnId ?s + 1" "thread_pool s' = ?p"
    "connections s' = AList.update ?k a (connections ?s)" "acceptor_of s' = acceptor_of ?s" "objs s' = (objs ?s)(a \<mapsto> ?ob)" "rxs s' ?l = rx w'" "queues s' = queues ?s"
    by (simp_all add: s' registered_state_def)
  have fresh: "pending a (queues ?s ?l) = 0"
    using i(4) a(1) by (auto simp: pending_def queue_ok_def count_list_0_iff)
  have none: "held x a = 0" using inv a(1) by (simp add: life_inv_def)
  have cref: "cref (body ob) \<noteq> ref" if "objs ?s b = Some ob" for b ob
    using life_obj [OF inv that] a(2) by (auto simp: obj_inv_def wired_in_def)
  have ob: "obj_inv (held x) s' b o'" if "objs s' b = Some o'" for b o'
  proof (cases "b = a")
    case True
    with that have "o' = ?ob" by (simp add: f(7))
    with e fresh none show ?thesis using True by (simp add: obj_inv_def f conn_ok_iff update_conv')
  next
    case False
    with that have b: "objs ?s b = Some o'" by (simp add: f(7))
    note o = life_obj [OF inv b]
    have "cname (body o') \<noteq> ?k" using o server_inv_fresh [OF i(1)] by (auto simp: obj_inv_def)
    with o cref [OF b] show ?thesis
      using conn_ok_kept [OF _ others_kept_like [OF e(6)] _ r] wired_kept [OF _ others_kept_like [OF e(6)]]
      by (simp add: obj_inv_def f update_conv')
  qed
  have "server_inv s'"
    by (rule server_inv_add [OF i(1) a(1) newConnection_counts [OF new], of s' ?ob]) (simp_all add: f e)
  moreover have "one_loop self s'" using i(2) e(5) by (simp add: one_loop_def acc_tid_def f)
  moreover have "queue_ok wc s'" by (rule queue_ok_same [OF i(4)]) (simp_all add: f)
  moreover have "b = c" if "objs s' b = Some ob" "objs s' c = Some oc" "cref (body ob) = cref (body oc)" for b c ob oc
    using that e(3) by (auto simp: f(7) split: if_splits dest: cref life_crefs [OF inv])
  moreover have "\<exists>b ob. objs s' b = Some ob \<and> cref (body ob) = ref'" if "channel_map (rxs s' ?l) fd' = Some ref'" for fd' ref'
  proof (cases "ref' = ref")
    case True
    with e(3) show ?thesis by (intro exI [of _ a] exI [of _ ?ob]) (simp add: f(7))
  next
    case False
    with that e(6) have "channel_map (rxs ?s ?l) fd' = Some ref'" by (simp add: others_kept_def f(8))
    with inv obtain b ob where "objs ?s b = Some ob" "cref (body ob) = ref'" unfolding life_inv_def by blast
    with a(1) show ?thesis by (intro exI [of _ b] exI [of _ ob]) (auto simp: f(7))
  qed
  moreover have "held x b = 0" if "objs s' b = None" for b
    using that inv by (auto simp: life_inv_def f(7) split: if_splits)
  ultimately show ?thesis using r ob by (simp add: life_inv_def f(1,8))
qed

lemma accept_cases:
  assumes op: "server_accept le cbs self ar local a ref v s = Inr s'"
  obtains acc where "s' = s\<lparr>acceptor_of := acc\<rparr>" "loop_tid (acc_rx acc) = acc_tid s"
  | acc fd pa where "loop_tid (acc_rx acc) = acc_tid s" "ar = Ret (fd, pa)" "newConnection cbs self fd pa local a ref v (s\<lparr>acceptor_of := acc\<rparr>) = Inr s'"
proof -
  from op obtain acc where acc: "acc_handleRead self le ar (Some (\<lambda>_ _. Inr)) (acceptor_of s) = Inr acc"
    and rest: "(case drop (length (acc_handed (acceptor_of s))) (acc_handed acc) of
        (connfd, peerAddr) # _ \<Rightarrow> newConnection cbs self connfd peerAddr local a ref v (s\<lparr>acceptor_of := acc\<rparr>)
      | [] \<Rightarrow> Inr (s\<lparr>acceptor_of := acc\<rparr>)) = Inr s'"
    by (auto simp: server_accept_def Let_def result_simps)
  from acc have "acc_rx acc = acc_rx (acceptor_of s)"
    by (auto simp: acc_handleRead_def acc_assertInLoop_def assertInLoopThread_def Let_def result_simps split: if_splits)
  then have tid: "loop_tid (acc_rx acc) = acc_tid s" by (simp add: acc_tid_def)
  from acc have "acc_handed acc = acc_handed (acceptor_of s) \<or>
      (\<exists>fd pa. ar = Ret (fd, pa) \<and> acc_handed acc = acc_handed (acceptor_of s) @ [(fd, pa)])"
    by (auto simp: acc_handleRead_def acc_assertInLoop_def assertInLoopThread_def Socket_accept_def sock_accept_def Let_def
        result_simps split: if_splits syscall.splits)
  with rest that(1) [OF _ tid] that(2) [OF tid] show thesis by auto
qed

lemma life_acceptor: "life_inv wc self x \<Longrightarrow> loop_tid (acc_rx acc) = acc_tid (srv x) \<Longrightarrow>
    life_inv wc self (x\<lparr>srv := (srv x)\<lparr>acceptor_of := acc\<rparr>\<rparr>)"
  by (rule life_members [where b = "pool_started (thread_pool (srv x))" and c = "srv_started (srv x)" and acc = acc and n = "listens (srv x)"])
    simp_all

lemma life_accept_inv:
  assumes inv: "life_inv wc self x" and doc: "accept_doc ar a ref (srv x)"
    and op: "server_accept le (quiet_cbs wc) self ar local a ref v (srv x) = Inr s"
  shows "life_inv wc self (x\<lparr>srv := s\<rparr>)"
  using op
proof (cases rule: accept_cases)
  case (1 acc)
  with life_acceptor [OF inv] show ?thesis by simp
next
  case (2 acc fd pa)
  let ?x = "x\<lparr>srv := (srv x)\<lparr>acceptor_of := acc\<rparr>\<rparr>"
  have "0 \<le> fd" "\<forall>b ob. objs (srv ?x) b = Some ob \<longrightarrow> sockfd (csocket (body ob)) \<noteq> fd" "objs (srv ?x) a = None"
    "chans (rxs (srv ?x) (srv_loop (srv ?x))) ref = None" "newConnection (quiet_cbs wc) self fd pa local a ref v (srv ?x) = Inr s"
    using doc 2 by (simp_all add: accept_doc_def)
  from life_new_inv [OF life_acceptor [OF inv 2(1)] this] show ?thesis by simp
qed

lemma life_init_inv:
  assumes "life_init self x"
  shows "life_inv wc self x"
proof -
  from assms obtain le l addr so bound ref r st where new: "TcpServer_new le (Some l) addr so bound ref r st = Inr (srv x)"
    and st: "objs st = Map.empty" "rxs st l = Poller_new self" "queues st l = []" "loop_tid r = self" and h: "held x = (\<lambda>_. 0)"
    by (auto simp: life_init_def)
  from new obtain acc where
    s: "srv x = conn_store.extend st (tcp_server.fields l (InetAddress_toHostPort le addr) acc (EventLoopThreadPool_new l) False 1 [] 0)"
    and acc: "loop_tid (acc_rx acc) = loop_tid r"
    by (auto simp: TcpServer_new_def Acceptor_new_def new_chan_def put_chan_def Let_def CHECK_NOTNULL_def result_simps dest: sym)
  have f: "srv_loop (srv x) = l" "objs (srv x) = Map.empty" "rxs (srv x) l = Poller_new self" "queues (srv x) l = []"
    "connections (srv x) = []" "nextConnId (srv x) = 1" "thread_pool (srv x) = EventLoopThreadPool_new l" "acceptor_of (srv x) = acc"
    using st by (simp_all add: s conn_store.extend_def tcp_server.fields_def)
  have "server_inv (srv x)" by (simp add: server_inv_def f in_int32_def)
  moreover have "one_loop self (srv x)" using acc st(4) by (simp add: one_loop_def acc_tid_def f EventLoopThreadPool_new_def Poller_new_def)
  ultimately show ?thesis by (simp add: life_inv_def queue_ok_def f h Poller_new_inv) (simp add: Poller_new_def)
qed

lemma life_step_inv: "life_inv wc self x \<Longrightarrow> life_step wc self x y \<Longrightarrow> life_inv wc self y"
proof (erule life_step.cases, goal_cases)
  case (4 x0 revs r active)
  then have inv: "life_inv wc self x" by simp
  then have ri: "reactor_inv (rxs (srv x) (srv_loop (srv x)))" by (simp add: life_inv_def)
  have p: "poll_doc (pollfds (rxs (srv x) (srv_loop (srv x)))) revs"
    "Poller_poll (PollReady revs) [] (rxs (srv x) (srv_loop (srv x))) = Inr (r, active)" using 4 by simp_all
  note k = others_kept_poll(1,2) [OF ri p]
  from life_set_rx [OF inv k] 4 show ?case by simp
next
  case (5 x0 ref c b)
  then have inv: "life_inv wc self x" and c: "chans (rxs (srv x) (srv_loop (srv x))) ref = Some c" by simp_all
  then have ri: "reactor_inv (rxs (srv x) (srv_loop (srv x)))" by (simp add: life_inv_def)
  have "reactor_inv (put_chan ref (c\<lparr>eventHandling := b\<rparr>) (rxs (srv x) (srv_loop (srv x))))"
    by (rule put_same_inv [OF ri c]) simp_all
  from life_set_rx [OF inv others_kept_flag [OF c] this] 5 show ?case by simp
qed (auto intro: life_start_inv life_accept_inv life_op_inv life_batch_inv dest: life_hold_inv life_drop_inv)

interpretation life: invariant_system "life_init self" "life_step wc self" "life_inv wc self" for wc self
  by unfold_locales (rule life_init_inv life_step_inv; assumption)+

section \<open>Progress\<close>

text \<open>A connection request is served.\<close>

lemma life_accepts:
  assumes inv: "life_inv wc self x" and doc: "accept_doc (Ret (fd, pa)) a ref (srv x)" and n: "in_int32 (nextConnId (srv x) + 1)"
  shows "\<exists>s ob. server_accept le (quiet_cbs wc) self (Ret (fd, pa)) local a ref v (srv x) = Inr s \<and> objs s a = Some ob \<and>
    map_of (connections s) (conn_name (srv_name (srv x)) (nextConnId (srv x))) = Some a \<and> cstate (body ob) \<in> {Connected, Disconnecting} \<and>
    channel_map (rxs s (srv_loop (srv x))) fd = Some ref"
proof -
  let ?acc = "(acceptor_of (srv x))\<lparr>acc_handed := acc_handed (acceptor_of (srv x)) @ [(fd, pa)]\<rparr>"
  let ?x = "x\<lparr>srv := (srv x)\<lparr>acceptor_of := ?acc\<rparr>\<rparr>"
  from doc have fd: "0 \<le> fd" by (simp add: accept_doc_def)
  have inv': "life_inv wc self ?x" by (rule life_acceptor [OF inv]) (simp add: acc_tid_def)
  have self: "self = loop_tid (acc_rx (acceptor_of (srv x)))" "self = loop_tid (rxs (srv ?x) (srv_loop (srv x)))"
    using inv by (simp_all add: life_inv_def one_loop_def acc_tid_def)
  then have "acc_handleRead self le (Ret (fd, pa)) (Some (\<lambda>_ _. Inr)) (acceptor_of (srv x)) = Inr ?acc"
    using fd by (simp add: acc_handleRead_def acc_assertInLoop_def assertInLoopThread_def Socket_accept_def sock_accept_def Let_def)
  then have acc: "server_accept le (quiet_cbs wc) self (Ret (fd, pa)) local a ref v (srv x) =
      newConnection (quiet_cbs wc) self fd pa local a ref v (srv ?x)"
    by (simp add: server_accept_def Let_def)
  have can: "can_connect self fd a ref (srv_loop (srv ?x)) (thread_pool (srv ?x)) (srv ?x)"
    using doc n fd by (intro life_can_connect [OF inv']) (simp_all add: accept_doc_def)
  have cb: "on_connection (quiet_cbs wc) = Some Inr" "callback_keeps Inr" by (simp_all add: quiet_cbs_def callback_keeps_def)
  have here: "self = loop_tid (rxs (srv ?x) (srv_loop (srv ?x)))" using self(2) by simp
  from newConnection_same_loop [OF can here cb, of pa local v] show ?thesis unfolding acc by auto
qed

text \<open>Every server of this kind ends with the first connection that closes.\<close>

lemma life_ends:
  assumes "reach (life_init self) (life_step wc self) x" and ob: "objs (srv x) a = Some ob" and q: "queues (srv x) (srv_loop (srv x)) = []"
    and c: "chans (rxs (srv x) (srv_loop (srv x))) (cref (body ob)) = Some c" and ev: "close_event (revents c) os" and ne: "v \<noteq> u"
  shows "rbind (store_handleEvent (removeConnection self u) cbs self os v a (srv_loop (srv x)) (cref (body ob)) t (srv x))
      (run_batch (removeConnectionInLoop self) cbs self wr (srv_loop (srv x))) = Inl (if held x a = 0 then AssertFail else Dangling)"
proof -
  have inv: "life_inv wc self x" by (rule life.reach_inv [OF assms(1)])
  from life_obj [OF inv ob] q have o: "obj_loop ob = srv_loop (srv x)" "cstate (body ob) \<in> {Connected, Disconnecting}"
    "conn_inv (view_of ob (srv x))" "map_of (connections (srv x)) (cname (body ob)) = Some a" "refs ob = 1 + held x a" "wired c"
    using c by (auto simp: obj_inv_def up_def conn_ok_iff wired_in_def)
  have self: "self = loop_tid (rxs (srv x) (srv_loop (srv x)))" "server_owns self a (srv x)"
    using inv ob o(4) by (auto simp: life_inv_def one_loop_def server_owns_def in_thread_of_def)
  have 1: "1 \<le> refs ob" "self = loop_tid (rxs (srv x) (obj_loop ob))" "chans (rxs (srv x) (obj_loop ob)) (cref (body ob)) = Some c"
    using self(1) c by (simp_all add: o(1,5))
  note closes = server.event_closes [OF self(2) ob 1(1) ne o(3,2) 1(2,3) o(6) ev, of cbs t, unfolded o(1,5)]
  show ?thesis
  proof (cases "held x a = 0")
    case True
    with closes show ?thesis by simp
  next
    case False
    with closes obtain s' y where s': "store_handleEvent (removeConnection self u) cbs self os v a (srv_loop (srv x)) (cref (body ob)) t (srv x) = Inr s'"
      "vars s' y = None" "queues s' (srv_loop (srv x)) = [] @ [DestroyVia y]" by (auto simp: q)
    have "run_batch (removeConnectionInLoop self) cbs self wr (srv_loop (srv x)) s' = Inl Dangling"
      by (subst batch_dangles [OF _ s'(3,2)]) (auto dest: removeConnectionInLoop_vars)
    with s'(1) False show ?thesis by simp
  qed
qed

section \<open>Properties\<close>

text \<open>
  C23. A server without I/O threads keeps its books until its first connection closes. In every state it
  can reach, however many connections it has accepted and whatever they have read, written and
  queued: the map holds exactly the connections that exist, under their names, which are those the
  counter has given out; each is up, registered with the poller under a descriptor that no other
  connection has, and has exactly the references of the map, of the queued write-complete calls and of the user; the
  functors of the loop run without destroying any; and the next connection request is served.
\<close>

theorem server_accounts:
  assumes "reach (life_init self) (life_step wc self) x"
  shows "(\<forall>k a. map_of (connections (srv x)) k = Some a \<longleftrightarrow> (\<exists>ob. objs (srv x) a = Some ob \<and> cname (body ob) = k)) \<and>
    (\<forall>a ob. objs (srv x) a = Some ob \<longrightarrow> cstate (body ob) \<in> {Connected, Disconnecting} \<and>
      refs ob = 1 + pending a (queues (srv x) (srv_loop (srv x))) + held x a \<and>
      channel_map (rxs (srv x) (srv_loop (srv x))) (sockfd (csocket (body ob))) = Some (cref (body ob)) \<and>
      (\<exists>i. 1 \<le> i \<and> i < nextConnId (srv x) \<and> cname (body ob) = conn_name (srv_name (srv x)) i) \<and>
      (\<forall>b ob'. objs (srv x) b = Some ob' \<longrightarrow> b \<noteq> a \<longrightarrow> sockfd (csocket (body ob')) \<noteq> sockfd (csocket (body ob)))) \<and>
    (\<forall>wr. \<exists>s. run_batch (removeConnectionInLoop self) (quiet_cbs wc) self wr (srv_loop (srv x)) (srv x) = Inr s \<and>
      queues s (srv_loop (srv x)) = [] \<and> dom (objs s) = dom (objs (srv x))) \<and>
    (\<forall>fd pa a ref le local v. accept_doc (Ret (fd, pa)) a ref (srv x) \<longrightarrow> in_int32 (nextConnId (srv x) + 1) \<longrightarrow>
      (\<exists>s ob. server_accept le (quiet_cbs wc) self (Ret (fd, pa)) local a ref v (srv x) = Inr s \<and> objs s a = Some ob \<and>
        map_of (connections s) (conn_name (srv_name (srv x)) (nextConnId (srv x))) = Some a \<and>
        cstate (body ob) \<in> {Connected, Disconnecting} \<and> channel_map (rxs s (srv_loop (srv x))) fd = Some ref))"
proof -
  have inv: "life_inv wc self x" by (rule life.reach_inv [OF assms])
  then have si: "server_inv (srv x)" by (simp add: life_inv_def)
  note o = life_obj [OF inv, unfolded obj_inv_def]
  have fd: "channel_map (rxs (srv x) (srv_loop (srv x))) (sockfd (csocket (body ob))) = Some (cref (body ob))"
    if "objs (srv x) a = Some ob" for a ob using o [OF that] conn_ok_mapped by blast
  have "sockfd (csocket (body ob')) \<noteq> sockfd (csocket (body ob))"
    if "objs (srv x) a = Some ob" "objs (srv x) b = Some ob'" "b \<noteq> a" for a b ob ob'
    using fd [OF that(1)] fd [OF that(2)] life_crefs [OF inv that] by auto
  moreover have "map_of (connections (srv x)) k = Some a \<longleftrightarrow> (\<exists>ob. objs (srv x) a = Some ob \<and> cname (body ob) = k)" for k a
    using si o [of a] unfolding server_inv_def by blast
  moreover have "\<exists>i. 1 \<le> i \<and> i < nextConnId (srv x) \<and> cname (body ob) = conn_name (srv_name (srv x)) i"
    if "objs (srv x) a = Some ob" for a ob
    using si o [OF that] unfolding server_inv_def by blast
  moreover have "\<exists>s. run_batch (removeConnectionInLoop self) (quiet_cbs wc) self wr (srv_loop (srv x)) (srv x) = Inr s \<and>
      queues s (srv_loop (srv x)) = [] \<and> dom (objs s) = dom (objs (srv x))" for wr
    by (simp add: batch_runs [OF inv]) (simp add: drop_refs_def dom_def)
  ultimately show ?thesis using life_accepts [OF inv] fd o by (auto simp: up_def)
qed

theorem server_accounts_witness:
  "\<exists>x ob s. reach (life_init 1) (life_step True 1) x \<and> objs (srv x) 16 = Some ob \<and> 2 \<le> refs ob \<and> held x 16 = 1 \<and>
     run_batch (removeConnectionInLoop 1) (quiet_cbs True) 1 (Ret 0) (srv_loop (srv x)) (srv x) = Inr s"
proof -
  let ?st = "\<lparr>objs = Map.empty, vars = Map.empty, rxs = (\<lambda>_. Poller_new 1), queues = (\<lambda>_. []), store_io = []\<rparr> :: conn_store"
  obtain s0 where s0: "TcpServer_new True (Some 0) zero_addr (Ret 3) (Ret 0) 0 (Poller_new 1) ?st = Inr s0"
    by (simp add: TcpServer_new_def CHECK_NOTNULL_def Acceptor_new_def createNonblockingOrDie_def bindAddress_def bindOrDie_def
        Let_def)
  let ?x0 = "\<lparr>srv = s0, held = \<lambda>_. 0\<rparr>"
  have "\<exists>le l addr so bound ref r st. TcpServer_new le (Some l) addr so bound ref r st = Inr s0 \<and> objs st = Map.empty \<and>
      vars st = Map.empty \<and> rxs st l = Poller_new 1 \<and> queues st l = [] \<and> loop_tid r = 1"
    by (intro exI conjI, rule s0) (simp_all add: Poller_new_def)
  then have "life_init 1 ?x0" by (simp add: life_init_def)
  then have r0: "reach (life_init 1) (life_step True 1) ?x0" by (rule reach_init)
  from s0 have f: "objs s0 = Map.empty" "chans (rxs s0 (srv_loop s0)) 0 = None" "nextConnId s0 = 1"
    by (auto simp: TcpServer_new_def CHECK_NOTNULL_def result_simps conn_store.extend_def tcp_server.fields_def Poller_new_def)
  have doc: "accept_doc (Ret (5, zero_addr)) 16 0 (srv ?x0)" and n: "in_int32 (nextConnId (srv ?x0) + 1)"
    by (simp_all add: accept_doc_def f in_int32_def)
  from life_accepts [OF life.reach_inv [OF r0] doc n, of True "Ret zero_addr" 32] obtain s1 ob where
    s1: "server_accept True (quiet_cbs True) 1 (Ret (5, zero_addr)) (Ret zero_addr) 16 0 32 (srv ?x0) = Inr s1" "objs s1 16 = Some ob"
    by blast
  let ?x1 = "?x0\<lparr>srv := s1\<rparr>"
  have r1: "reach (life_init 1) (life_step True 1) ?x1" by (rule reach_step [OF r0 life_accept [OF doc s1(1)]])
  let ?s2 = "s1\<lparr>objs := (objs s1)(16 \<mapsto> ob\<lparr>refs := refs ob + 1\<rparr>)\<rparr>"
  let ?x2 = "?x1\<lparr>srv := ?s2, held := (held ?x1)(16 := held ?x1 16 + 1)\<rparr>"
  have "add_ref 16 (srv ?x1) = Inr ?s2" using s1(2) by (simp add: add_ref_def)
  then have "life_step True 1 ?x1 ?x2" by (rule life_hold)
  with r1 have r2: "reach (life_init 1) (life_step True 1) ?x2" by (rule reach_step)
  have ob: "objs (srv ?x2) 16 = Some (ob\<lparr>refs := refs ob + 1\<rparr>)" "held ?x2 16 = 1" by simp_all
  note books = server_accounts [OF r2]
  have "refs (ob\<lparr>refs := refs ob + 1\<rparr>) = 1 + pending 16 (queues (srv ?x2) (srv_loop (srv ?x2))) + held ?x2 16"
    by (rule books [THEN conjunct2, THEN conjunct1, rule_format, OF ob(1), THEN conjunct2, THEN conjunct1])
  then have some: "2 \<le> refs (ob\<lparr>refs := refs ob + 1\<rparr>)" using ob(2) by simp
  obtain s where batch: "run_batch (removeConnectionInLoop 1) (quiet_cbs True) 1 (Ret 0) (srv_loop (srv ?x2)) (srv ?x2) = Inr s"
    using books [THEN conjunct2, THEN conjunct2, THEN conjunct1, rule_format, of "Ret 0"] by blast
  show ?thesis by (intro exI conjI, rule r2, rule ob(1), rule some, rule ob(2), rule batch)
qed

end
