(* ===== verification/Tcp_Client.thy ===== *)
theory Tcp_Client
  imports Tcp_Server
begin

text \<open>
  TcpClient (src/net/TcpClient.h, TcpClient.cpp): one connection to a server, made by a Connector and
  held by the client until it closes.

  The state extends the store of connections by the members of the client. The Connector is the one
  of Connectors, with the reactor that holds its channel; it removes the channel before it hands over
  the descriptor. \<open>connection_\<close> is guarded by a mutex, so that each access is one step.
\<close>

section \<open>State\<close>

record tcp_client = conn_store +
  cli_loop :: lref
  connector_of :: cn_world
  cli_retry :: bool
  cli_connect :: bool
  cli_nextConnId :: int
  connection :: "caddr option"

definition TcpClient_new :: "lref option \<Rightarrow> sockaddr_in \<Rightarrow> cn_handler reactor \<Rightarrow> conn_store \<Rightarrow> tcp_client result" where
  "TcpClient_new loop serverAddr r s = rbind (CHECK_NOTNULL loop) (\<lambda>l.
     Inr (conn_store.extend s (tcp_client.fields l
       \<lparr>cn = Connector_new serverAddr, cn_rx = r, cn_tasks = [], cn_timers = [], cn_next_timer = 0, cn_delays = [],
        cn_opened = [], cn_closed = [], cn_handed = []\<rparr> False True 1 None)))"

definition on_connector :: "(cn_world \<Rightarrow> cn_world result) \<Rightarrow> tcp_client \<Rightarrow> tcp_client result" where
  "on_connector f s = rbind (f (connector_of s)) (\<lambda>k. Inr (s\<lparr>connector_of := k\<rparr>))"

definition client_assert :: "tid \<Rightarrow> tcp_client \<Rightarrow> 'b result \<Rightarrow> 'b result" where
  "client_assert self s k = (if in_thread_of self (cli_loop s) s then k else Inl Aborted)"

section \<open>Operations\<close>

text \<open>The callbacks that new connections are given: the argument \<open>cbs\<close> of \<open>client_newConnection\<close>.\<close>

definition client_setConnectionCallback :: "(conn_world \<Rightarrow> conn_world result) option \<Rightarrow> conn_callbacks \<Rightarrow> conn_callbacks" where
  "client_setConnectionCallback cb cbs = cbs\<lparr>on_connection := cb\<rparr>"

definition client_setMessageCallback :: "(timestamp \<Rightarrow> conn_world \<Rightarrow> conn_world result) option \<Rightarrow> conn_callbacks \<Rightarrow> conn_callbacks" where
  "client_setMessageCallback cb cbs = cbs\<lparr>on_message := cb\<rparr>"

definition client_setWriteCompleteCallback :: "(conn_world \<Rightarrow> conn_world result) option \<Rightarrow> conn_callbacks \<Rightarrow> conn_callbacks" where
  "client_setWriteCompleteCallback cb cbs = cbs\<lparr>on_write_complete := cb\<rparr>"

definition TcpClient_connect :: "tid \<Rightarrow> cn_inputs \<Rightarrow> tcp_client \<Rightarrow> tcp_client result" where
  "TcpClient_connect self os s = on_connector (cn_start self os) (s\<lparr>cli_connect := True\<rparr>)"

definition TcpClient_disconnect :: "tid \<Rightarrow> tcp_client \<Rightarrow> tcp_client result" where
  "TcpClient_disconnect self s =
     (let s = s\<lparr>cli_connect := False\<rparr> in
      case connection s of None \<Rightarrow> Inr s | Some a \<Rightarrow> on_obj a (conn_shutdown self) s)"

definition TcpClient_stop :: "tcp_client \<Rightarrow> tcp_client result" where
  "TcpClient_stop s = on_connector (\<lambda>k. Inr (cn_stop k)) (s\<lparr>cli_connect := False\<rparr>)"

definition enableRetry :: "tcp_client \<Rightarrow> tcp_client" where
  "enableRetry s = s\<lparr>cli_retry := True\<rparr>"

definition client_connection :: "tcp_client \<Rightarrow> caddr option" where
  "client_connection s = connection s"

definition client_name :: "bool \<Rightarrow> sockaddr_in \<Rightarrow> int \<Rightarrow> string" where
  "client_name le peerAddr i = snprintf 32 ('':'' @ InetAddress_toHostPort le peerAddr @ ''#'' @ dec_int i)"

text \<open>\<open>connection_ = conn\<close>: the new reference, then the release of the one it replaces.\<close>

definition set_connection :: "caddr \<Rightarrow> tcp_client \<Rightarrow> tcp_client result" where
  "set_connection a s = rbind (add_ref a s) (\<lambda>s.
     let s' = s\<lparr>connection := Some a\<rparr> in
     case connection s of None \<Rightarrow> Inr s' | Some old \<Rightarrow> release old s')"

definition client_newConnection ::
  "bool \<Rightarrow> conn_callbacks \<Rightarrow> tid \<Rightarrow> int \<Rightarrow> sockaddr_in syscall \<Rightarrow> sockaddr_in syscall \<Rightarrow> caddr \<Rightarrow> chref \<Rightarrow> vaddr \<Rightarrow> tcp_client \<Rightarrow> tcp_client result" where
  "client_newConnection le cbs self fd peer local a ref v s = client_assert self s
     (let peerAddr = getPeerAddr peer; connName = client_name le peerAddr (cli_nextConnId s) in
      if \<not> in_int32 (cli_nextConnId s + 1) then Inl Overflow
      else let s = s\<lparr>cli_nextConnId := cli_nextConnId s + 1\<rparr> in
      rbind (make_conn v a (cli_loop s) connName fd (getLocalAddr local) peerAddr ref s) (\<lambda>s.
      rbind (set_connection a s) (\<lambda>s.
      rbind (on_obj a (connectEstablished cbs self) s) (drop_var v))))"

text \<open>
  The close callback. Its parameter is the variable \<open>v\<close>, to which the functor for
  \<open>connectDestroyed\<close> refers; \<open>os\<close> answers the next attempt of the connector.
\<close>

definition client_removeConnection :: "tid \<Rightarrow> cn_inputs \<Rightarrow> vaddr \<Rightarrow> tcp_client \<Rightarrow> tcp_client result" where
  "client_removeConnection self os v s = client_assert self s (via v (\<lambda>a s.
     case objs s a of
       None \<Rightarrow> Inl Dangling
     | Some ob \<Rightarrow>
         assertC (cli_loop s = obj_loop ob)
        (assertC (connection s = Some a)
        (rbind (release a (s\<lparr>connection := None\<rparr>)) (\<lambda>s.
         let s = queue_functor (cli_loop s) (DestroyVia v) s in
         if cli_retry s \<and> cli_connect s then on_connector (cn_restart self os) s else Inr s)))) s)"

text \<open>\<open>Detail::removeConnection\<close>, the close callback of a connection that outlives its client.\<close>

definition detail_removeConnection :: "lref \<Rightarrow> vaddr \<Rightarrow> 'z conn_store_scheme \<Rightarrow> 'z conn_store_scheme result" where
  "detail_removeConnection l v s = Inr (queue_functor l (DestroyVia v) s)"

text \<open>
  The destructor: \<open>v\<close> is its variable \<open>conn\<close>, \<open>u\<close> the copy of it inside the functor that sets the close
  callback. Then the members go, \<open>connection_\<close> before \<open>connector_\<close>. Without a connection the connector
  is stopped, and a timer is set whose functor does nothing.
\<close>

definition TcpClient_dtor :: "tid \<Rightarrow> vaddr \<Rightarrow> vaddr \<Rightarrow> tcp_client \<Rightarrow> tcp_client result" where
  "TcpClient_dtor self v u s =
     (case connection s of
        Some a \<Rightarrow>
          rbind (new_var v a s) (\<lambda>s.
          rbind (new_var u a s) (\<lambda>s.
          rbind (if in_thread_of self (cli_loop s) s
                 then rbind (run_functor (\<lambda>_. Inr) \<lparr>on_connection = None, on_message = None, on_write_complete = None, on_close = None\<rparr>
                               self (Ret 0) (SetClose u) s) (drop_functor (SetClose u))
                 else Inr (queue_functor (cli_loop s) (SetClose u) s)) (\<lambda>s.
          rbind (drop_var v s) (\<lambda>s.
          rbind (release a (s\<lparr>connection := None\<rparr>)) (on_connector (\<lambda>k. Inr (Connector_dtor k)))))))
      | None \<Rightarrow> on_connector (\<lambda>k. Inr (Connector_dtor (cn_stop k))) s)"

text \<open>The connector's channel is writable: \<open>Connector::handleWrite\<close> with \<open>newConnection\<close> as its callback.\<close>

definition client_handleWrite ::
  "bool \<Rightarrow> conn_callbacks \<Rightarrow> tid \<Rightarrow> cn_answers \<Rightarrow> sockaddr_in syscall \<Rightarrow> sockaddr_in syscall \<Rightarrow> caddr \<Rightarrow> chref \<Rightarrow> vaddr \<Rightarrow> tcp_client \<Rightarrow> tcp_client result" where
  "client_handleWrite le cbs self ans peer local a ref v s =
     (let before = length (cn_handed (connector_of s)) in
      rbind (on_connector (cn_handleWrite (Some (\<lambda>_. Inr)) self ans) s) (\<lambda>s.
      case drop before (cn_handed (connector_of s)) of
        fd # _ \<Rightarrow> client_newConnection le cbs self fd peer local a ref v s
      | [] \<Rightarrow> Inr s))"

section \<open>The client as the owner of its connection\<close>

lemma client_fields:
  assumes "conn_store.more s' = conn_store.more (s :: tcp_client)"
  shows "cli_loop s' = cli_loop s" "connection s' = connection s" "connector_of s' = connector_of s"
    "cli_retry s' = cli_retry s" "cli_connect s' = cli_connect s"
  using assms by (cases s; cases s'; simp)+

text \<open>If the client is to reconnect, the connector's next attempt does not fault.\<close>

definition client_owns :: "tid \<Rightarrow> cn_inputs \<Rightarrow> caddr \<Rightarrow> tcp_client \<Rightarrow> bool" where
  "client_owns self os a s \<longleftrightarrow> in_thread_of self (cli_loop s) s \<and> connection s = Some a \<and>
     (\<exists>ob. objs s a = Some ob \<and> obj_loop ob = cli_loop s) \<and>
     (cli_retry s \<and> cli_connect s \<longrightarrow> (\<exists>k. cn_restart self os (connector_of s) = Inr k))"

lemma client_owns_stable:
  assumes "client_owns self os a s" and "same_owner a s s'"
  shows "client_owns self os a s'"
proof -
  from assms(1) obtain ob where ob: "objs s a = Some ob" "obj_loop ob = cli_loop s"
    by (auto simp: client_owns_def)
  from assms(2) have more: "conn_store.more s' = conn_store.more s" and t: "\<forall>l. loop_tid (rxs s' l) = loop_tid (rxs s l)"
    by (simp_all add: same_owner_def)
  from assms(2) ob(1) obtain ob' where "objs s' a = Some ob'" "obj_loop ob' = obj_loop ob"
    by (auto simp: same_owner_def)
  with ob(2) client_fields [OF more] have "\<exists>ob. objs s' a = Some ob \<and> obj_loop ob = cli_loop s'" by simp
  moreover have "in_thread_of self (cli_loop s') s'"
    using assms(1) t client_fields [OF more] by (simp add: client_owns_def in_thread_of_def)
  moreover have "connection s' = Some a" "cli_retry s' \<and> cli_connect s' \<longrightarrow> (\<exists>k. cn_restart self os (connector_of s') = Inr k)"
    using assms(1) by (simp_all add: client_owns_def client_fields [OF more])
  ultimately show ?thesis unfolding client_owns_def by blast
qed

lemma client_removeConnection_law:
  assumes own: "client_owns self os a s" and v: "vars s v = Some a" and ob: "objs s a = Some ob" "2 \<le> refs ob"
  shows "\<exists>s' x. client_removeConnection self os v s = Inr s' \<and> objs s' a = Some (ob\<lparr>refs := refs ob - 1\<rparr>) \<and> rxs s' = rxs s \<and>
    vars s' v = Some a \<and> queues s' (obj_loop ob) = queues s (obj_loop ob) @ [DestroyVia x] \<and> (x = v \<or> vars s' x = None)"
proof -
  from own ob have o: "in_thread_of self (cli_loop s) s" "connection s = Some a" "obj_loop ob = cli_loop s"
    "cli_retry s \<and> cli_connect s \<longrightarrow> (\<exists>k. cn_restart self os (connector_of s) = Inr k)"
    by (auto simp: client_owns_def)
  let ?s1 = "s\<lparr>connection := None, objs := (objs s)(a \<mapsto> ob\<lparr>refs := refs ob - 1\<rparr>)\<rparr>"
  let ?s2 = "queue_functor (cli_loop s) (DestroyVia v) ?s1"
  have "release a (s\<lparr>connection := None\<rparr>) = Inr ?s1"
    using release_more [of "s\<lparr>connection := None\<rparr>" a ob] ob by simp
  then have eq: "client_removeConnection self os v s =
      (if cli_retry s \<and> cli_connect s then on_connector (cn_restart self os) ?s2 else Inr ?s2)"
    using o ob(1) v by (simp add: client_removeConnection_def client_assert_def via_def queue_functor_def Let_def)
  have "\<exists>s'. client_removeConnection self os v s = Inr s' \<and> conn_store.truncate s' = conn_store.truncate ?s2"
  proof (cases "cli_retry s \<and> cli_connect s")
    case True
    with o(4) obtain k where "cn_restart self os (connector_of s) = Inr k" by blast
    with True eq show ?thesis by (simp add: on_connector_def queue_functor_def conn_store.truncate_def)
  next
    case False
    with eq show ?thesis by (intro exI [of _ ?s2]) simp
  qed
  then obtain s' where s': "client_removeConnection self os v s = Inr s'" "conn_store.truncate s' = conn_store.truncate ?s2" by blast
  from s'(2) have "objs s' = objs ?s2" "rxs s' = rxs ?s2" "vars s' = vars ?s2" "queues s' = queues ?s2"
    by (simp_all add: conn_store.truncate_def)
  with s'(1) v o(3) show ?thesis by (intro exI [of _ s'] exI [of _ v]) (simp add: queue_functor_def)
qed

interpretation client: conn_owner "client_removeConnection self os" "client_owns self os" u for self os u
  by unfold_locales (rule client_owns_stable client_removeConnection_law; assumption)+

text \<open>
  \<open>retry_\<close> off, a lost connection leaves the connector as it was when it succeeded: connected; the
  next \<open>connect()\<close> fails its assertion.
\<close>

lemma reconnect_asserts:
  assumes "cn_state (cn (connector_of s)) = CnConnected" and "self = loop_tid (cn_rx (connector_of s))"
  shows "TcpClient_connect self os s = Inl AssertFail"
  using assms by (simp add: TcpClient_connect_def on_connector_def cn_start_def startInLoop_def cn_assertInLoop_def
      assertInLoopThread_def cn_set_def Let_def)

lemma cn_success_keeps_connected:
  assumes "cn_handleWrite (Some (\<lambda>_. Inr)) self ans k = Inr k'" and "cn_handed k' \<noteq> cn_handed k"
  shows "cn_state (cn k') = CnConnected"
  using assms by (auto simp: cn_handleWrite_def removeAndResetChannel_def result_simps cn_poller_def deref_def Let_def
      cn_setState_def cn_set_def retry_def cn_close_def cn_runAfter_def split: if_splits option.splits)

section \<open>Connecting\<close>

lemma client_newConnection_ok:
  assumes self: "in_thread_of self (cli_loop s) s" and i: "in_int32 (cli_nextConnId s + 1)" and none: "connection s = None"
    and r: "reactor_inv (rxs s (cli_loop s))" "chans (rxs s (cli_loop s)) ref = None" "0 \<le> fd"
      "channel_map (rxs s (cli_loop s)) fd = None" and free: "objs s a = None"
    and f: "on_connection cbs = Some f" "callback_keeps f"
  shows "\<exists>s' ob. client_newConnection le cbs self fd peer la a ref v s = Inr s' \<and> connection s' = Some a \<and> objs s' a = Some ob \<and>
    connector_of s' = connector_of s \<and> 1 \<le> refs ob \<and> obj_loop ob = cli_loop s \<and> cname (body ob) = client_name le (getPeerAddr peer) (cli_nextConnId s) \<and>
    cstate (body ob) \<in> {Connected, Disconnecting} \<and> channel_map (rxs s' (cli_loop s)) fd = Some ref \<and>
    conn_inv (view_of ob s') \<and> vars s' v = None \<and> (\<forall>b. b \<noteq> a \<longrightarrow> objs s' b = objs s b)"
proof -
  let ?k = "client_name le (getPeerAddr peer) (cli_nextConnId s)" and ?l = "cli_loop s"
  from new_conn_ok [OF r(1-3), of ?k "getLocalAddr la" "getPeerAddr peer"] obtain w c where
    w: "TcpConnection_new ?k fd (getLocalAddr la) (getPeerAddr peer) ref (rxs s ?l) = Inr w" "conn_inv w" "cstate (conn w) = Connecting"
      "cref (conn w) = ref" "conn_fd w = fd" "loop_tid (rx w) = loop_tid (rxs s ?l)"
    and c: "chans (rx w) ref = Some c" "index c < 0" "channel_map (rx w) = channel_map (rxs s ?l)" by blast
  have name: "cname (conn w) = ?k" using w(1) by (auto simp: TcpConnection_new_def result_simps)
  let ?s1 = "s\<lparr>cli_nextConnId := cli_nextConnId s + 1, vars := (vars s)(v \<mapsto> a), rxs := (rxs s)(?l := rx w),
    objs := (objs s)(a \<mapsto> \<lparr>body = conn w, obj_loop = ?l, refs = 2\<rparr>), connection := Some a\<rparr>"
  have s1: "objs ?s1 a = Some \<lparr>body = conn w, obj_loop = ?l, refs = 2\<rparr>" "rxs ?s1 ?l = rx w" "vars ?s1 v = Some a" by simp_all
  have w': "self = loop_tid (rx w)" "chans (rx w) (cref (conn w)) = Some c" "channel_map (rx w) fd = None"
    using w(4,6) c self r(4) by (simp_all add: in_thread_of_def)
  from established_object [OF s1 w(2,3) w'(1) w(5) w'(2) c(2) w'(3) f] obtain s2 s3 ob where
    e: "on_obj a (connectEstablished cbs self) ?s1 = Inr s2" "drop_var v s2 = Inr s3" "objs s3 a = Some ob" "1 \<le> refs ob"
      "obj_loop ob = ?l" "cname (body ob) = ?k" "cstate (body ob) \<in> {Connected, Disconnecting}"
      "channel_map (rxs s3 ?l) fd = Some ref" "conn_inv (view_of ob s3)" "vars s3 v = None"
      "\<And>b. b \<noteq> a \<Longrightarrow> objs s3 b = objs ?s1 b" "conn_store.more s3 = conn_store.more ?s1"
    unfolding name w(4) by blast
  have "client_newConnection le cbs self fd peer la a ref v s = Inr s3"
    using self i none w(1) e(1,2)
    by (simp add: client_newConnection_def client_assert_def make_conn_def set_connection_def add_ref_def Let_def numeral_2_eq_2)
  moreover have "connection s3 = Some a" "connector_of s3 = connector_of s" using client_fields [OF e(12)] by simp_all
  ultimately show ?thesis using e by (intro exI [of _ s3] exI [of _ ob]) simp
qed

text \<open>A successful attempt of the connector hands over the descriptor of its channel.\<close>

lemma connector_hands_over:
  assumes inv: "reactor_inv (cn_rx k)" "cn_busy fd k" and st: "cn_state (cn k) = CnConnecting" "connect_flag (cn k)"
    and self: "self = loop_tid (cn_rx k)" and ok: "getSocketError (cn_so_error ans) = 0" "\<not> isSelfConnect (cn_local ans) (cn_peer ans)"
  shows "\<exists>k'. cn_handleWrite (Some (\<lambda>_. Inr)) self ans k = Inr k' \<and> cn_handed k' = cn_handed k @ [fd] \<and> cn_state (cn k') = CnConnected"
proof -
  from removeAndReset_total [OF inv] obtain v where v: "removeAndResetChannel self k = Inr (fd, v)" by (auto simp: self)
  from removeAndReset_eq [OF inv v] have e: "cn v = cn k" "cn_handed v = cn_handed k" by simp_all
  show ?thesis using st ok v e by (simp add: cn_handleWrite_def cn_setState_def cn_simps)
qed

section \<open>Destruction\<close>

lemma TcpClient_dtor_last:
  assumes own: "connection s = Some a" "in_thread_of self (cli_loop s) s" and ob: "objs s a = Some ob" "refs ob = 1"
    and c: "chans (rxs s (obj_loop ob)) (cref (body ob)) = Some c" "\<not> eventHandling c" and ne: "u \<noteq> v"
  shows "\<exists>s'. TcpClient_dtor self v u s = Inr s' \<and> objs s' a = None \<and> chans (rxs s' (obj_loop ob)) (cref (body ob)) = None \<and>
    channel_map (rxs s' (obj_loop ob)) = channel_map (rxs s (obj_loop ob))"
proof -
  let ?ob = "\<lambda>n. ob\<lparr>refs := n\<rparr>"
  let ?s1 = "s\<lparr>objs := (objs s)(a \<mapsto> ?ob 2), vars := (vars s)(v \<mapsto> a)\<rparr>"
  let ?s2 = "s\<lparr>objs := (objs s)(a \<mapsto> ?ob 3), vars := (vars s)(v \<mapsto> a, u \<mapsto> a)\<rparr>"
  let ?s3 = "s\<lparr>objs := (objs s)(a \<mapsto> ?ob 2), vars := (vars s)(v \<mapsto> a, u := None)\<rparr>"
  let ?s4 = "s\<lparr>objs := (objs s)(a \<mapsto> ?ob 1), vars := (vars s)(v := None, u := None)\<rparr>"
  have 1: "new_var v a s = Inr ?s1" using new_var_eq [OF ob(1), of v] ob(2) by (simp add: numeral_2_eq_2)
  have 2: "new_var u a ?s1 = Inr ?s2" using new_var_eq [of ?s1 a "?ob 2" u] by (simp add: numeral_3_eq_3 numeral_2_eq_2)
  have "put_view a (?ob 3) (view_of (?ob 3) ?s2) ?s2 = ?s2"
    by (simp add: put_view_def view_of_def)
  then have 3: "run_functor (\<lambda>_. Inr) cbs self wr (SetClose u) ?s2 = Inr ?s2" for cbs wr
    by (simp add: run_functor_def via_def on_obj_def)
  have 4: "drop_functor (SetClose u) ?s2 = Inr ?s3"
    using release_more [of "?s2\<lparr>vars := (vars ?s2)(u := None)\<rparr>" a "?ob 3"]
    by (simp add: drop_functor_def drop_var_def via_def)
  have 5: "drop_var v ?s3 = Inr ?s4"
    using release_more [of "?s3\<lparr>vars := (vars ?s3)(v := None)\<rparr>" a "?ob 2"] ne
    by (simp add: drop_var_def via_def fun_upd_twist)
  let ?r = "rxs s (obj_loop ob)"
  let ?r' = "?r\<lparr>chans := (chans ?r)(cref (body ob) := None)\<rparr>"
  let ?s5 = "?s4\<lparr>connection := None, objs := (objs s)(a := None),
    store_io := store_io s @ [Sys (SysClose (sockfd (csocket (body ob))))], rxs := (rxs s)(obj_loop ob := ?r')\<rparr>"
  have 6: "release a (?s4\<lparr>connection := None\<rparr>) = Inr ?s5"
    using release_last [of "?s4\<lparr>connection := None\<rparr>" a "?ob 1" c] c by simp
  have "in_thread_of self (cli_loop ?s2) ?s2" using own(2) by (simp add: in_thread_of_def)
  then have "TcpClient_dtor self v u s = on_connector (\<lambda>k. Inr (Connector_dtor k)) ?s5"
    using own(1) 1 2 3 4 5 6 by (simp add: TcpClient_dtor_def)
  then show ?thesis by (simp add: on_connector_def)
qed

section \<open>Properties\<close>

text \<open>
  C26. From connector to connection: when the attempt of the connector succeeds, the client's handler
  takes exactly the descriptor of the connector's channel and returns with a connection on it that
  is established, registered with the client's loop and held by \<open>connection_\<close>; the connector is in
  its final state.
\<close>

theorem client_connects:
  assumes "reactor_inv (cn_rx (connector_of s))" and "cn_busy fd (connector_of s)" and "cn_state (cn (connector_of s)) = CnConnecting"
    and "connect_flag (cn (connector_of s))" and "self = loop_tid (cn_rx (connector_of s))" and "in_thread_of self (cli_loop s) s"
    and "getSocketError (cn_so_error ans) = 0" and "\<not> isSelfConnect (cn_local ans) (cn_peer ans)"
    and "in_int32 (cli_nextConnId s + 1)" and "connection s = None" and "reactor_inv (rxs s (cli_loop s))"
    and "chans (rxs s (cli_loop s)) ref = None" and "0 \<le> fd" and "channel_map (rxs s (cli_loop s)) fd = None" and "objs s a = None"
    and "on_connection cbs = Some f" and "callback_keeps f"
  shows "\<exists>s' ob. client_handleWrite le cbs self ans peer la a ref v s = Inr s' \<and> client_connection s' = Some a \<and>
    objs s' a = Some ob \<and> 1 \<le> refs ob \<and> cname (body ob) = client_name le (getPeerAddr peer) (cli_nextConnId s) \<and>
    cstate (body ob) \<in> {Connected, Disconnecting} \<and> channel_map (rxs s' (cli_loop s)) fd = Some ref \<and>
    conn_inv (view_of ob s') \<and> vars s' v = None \<and> cn_state (cn (connector_of s')) = CnConnected"
proof -
  from connector_hands_over [OF assms(1-5,7,8)] obtain k where
    k: "cn_handleWrite (Some (\<lambda>_. Inr)) self ans (connector_of s) = Inr k" "cn_handed k = cn_handed (connector_of s) @ [fd]"
      "cn_state (cn k) = CnConnected" by blast
  let ?s = "s\<lparr>connector_of := k\<rparr>"
  have s: "in_thread_of self (cli_loop ?s) ?s" "in_int32 (cli_nextConnId ?s + 1)" "connection ?s = None"
    "reactor_inv (rxs ?s (cli_loop ?s))" "chans (rxs ?s (cli_loop ?s)) ref = None" "channel_map (rxs ?s (cli_loop ?s)) fd = None"
    "objs ?s a = None" using assms by (simp_all add: in_thread_of_def)
  have "client_handleWrite le cbs self ans peer la a ref v s = client_newConnection le cbs self fd peer la a ref v ?s"
    using k by (simp add: client_handleWrite_def on_connector_def Let_def)
  with client_newConnection_ok [OF s(1-5) assms(13) s(6,7) assms(16,17), of le peer la v] k(3)
  show ?thesis by (auto simp: client_connection_def)
qed

definition sample_client :: "cn_world \<Rightarrow> tcp_client" where
  "sample_client k = \<lparr>objs = Map.empty, vars = Map.empty, rxs = (\<lambda>_. Poller_new 1), queues = (\<lambda>_. []), store_io = [],
     cli_loop = 0, connector_of = k, cli_retry = False, cli_connect = True, cli_nextConnId = 1, connection = None\<rparr>"

theorem client_connects_witness:
  "\<exists>s s' fd. client_handleWrite True \<lparr>on_connection = Some Inr, on_message = None, on_write_complete = None, on_close = None\<rparr> 1
     \<lparr>cn_so_error = Ret 0, cn_local = Ret zero_addr, cn_peer = Ret (zero_addr\<lparr>sin_port := 7\<rparr>)\<rparr>
     (Ret zero_addr) (Ret zero_addr) 16 0 32 s = Inr s' \<and> client_connection s' = Some 16 \<and> channel_map (rxs s' 0) fd = Some 0"
proof -
  obtain k where k: "cn_inv k" "cn_state (cn k) = CnConnecting" "loop_tid (cn_rx k) = 1" "connect_flag (cn k)" by (rule cn_sample) blast
  then obtain fd where b: "reactor_inv (cn_rx k)" "cn_busy fd k" by (auto simp: cn_inv_def)
  then have fd: "0 \<le> fd" using inv_fd by (auto simp: cn_busy_def)
  let ?a = "\<lparr>cn_so_error = Ret 0, cn_local = Ret zero_addr, cn_peer = Ret (zero_addr\<lparr>sin_port := 7\<rparr>)\<rparr>"
  let ?cbs = "\<lparr>on_connection = Some Inr, on_message = None, on_write_complete = None, on_close = None\<rparr> :: conn_callbacks"
  have a: "getSocketError (cn_so_error ?a) = 0" "\<not> isSelfConnect (cn_local ?a) (cn_peer ?a)"
    by (simp_all add: getSocketError_def isSelfConnect_def getLocalAddr_def getPeerAddr_def zero_addr_def)
  let ?s = "sample_client k"
  have s: "connector_of ?s = k" "1 = loop_tid (cn_rx (connector_of ?s))" "in_thread_of 1 (cli_loop ?s) ?s"
    "in_int32 (cli_nextConnId ?s + 1)" "connection ?s = None" "reactor_inv (rxs ?s (cli_loop ?s))"
    "chans (rxs ?s (cli_loop ?s)) 0 = None" "channel_map (rxs ?s (cli_loop ?s)) fd = None" "objs ?s 16 = None" "cli_loop ?s = 0"
    using k(3) by (simp_all add: sample_client_def in_thread_of_def Poller_new_def in_int32_def Poller_new_inv [unfolded Poller_new_def])
  have f: "on_connection ?cbs = Some Inr" "callback_keeps Inr" by (simp_all add: callback_keeps_def)
  from client_connects [of ?s, unfolded s(1), OF b k(2,4) k(3) [symmetric] s(3) a s(4-7) fd s(8,9) f, of True "Ret zero_addr" "Ret zero_addr" 32] s(10)
  show ?thesis by auto
qed

text \<open>
  The close of the client's connection fails as that of a server's does: if only \<open>connection_\<close>
  refers to it, it is destroyed within the event of its channel, which aborts the process; if the
  user holds references, the next batch of functors uses the temporary of \<open>handleClose\<close>, which is
  gone. Whether the client is to reconnect makes no difference.
\<close>

theorem client_close_fails:
  assumes "in_thread_of self (cli_loop s) s" and "connection s = Some a" and "objs s a = Some ob" and "obj_loop ob = cli_loop s"
    and "cli_retry s \<and> cli_connect s \<longrightarrow> (\<exists>k. cn_restart self cin (connector_of s) = Inr k)" and "1 \<le> refs ob"
    and "conn_inv (view_of ob s)" and "cstate (body ob) \<in> {Connected, Disconnecting}"
    and "chans (rxs s (obj_loop ob)) (cref (body ob)) = Some c" and "wired c" and "close_event (revents c) os"
    and "queues s (obj_loop ob) = []" and "\<forall>v s s'. remove v s = Inr s' \<longrightarrow> (\<forall>x. vars s x = None \<longrightarrow> vars s' x = None)"
  shows "rbind (store_handleEvent (client_removeConnection self cin) cbs self os v a (obj_loop ob) (cref (body ob)) t s)
      (run_batch remove cbs self wr (obj_loop ob)) = Inl (if refs ob = 1 then AssertFail else Dangling)"
proof -
  have own: "client_owns self cin a s" using assms(1-5) by (auto simp: client_owns_def)
  have self: "self = loop_tid (rxs s (obj_loop ob))" using assms(1,4) by (simp add: in_thread_of_def)
  have "v \<noteq> v + 1" by simp
  note closes = client.event_closes [OF own assms(3,6) this assms(7,8) self assms(9-11), of cbs t]
  show ?thesis
  proof (cases "refs ob = 1")
    case True
    with closes show ?thesis by simp
  next
    case False
    with closes assms(6) obtain s' x where s': "store_handleEvent (client_removeConnection self cin) cbs self os v a (obj_loop ob) (cref (body ob)) t s = Inr s'"
      "vars s' x = None" "queues s' (obj_loop ob) = [] @ [DestroyVia x]" by (auto simp: assms(12))
    have "run_batch remove cbs self wr (obj_loop ob) s' = Inl Dangling"
      by (subst batch_dangles [OF assms(13) s'(3,2)]) simp
    with s'(1) False show ?thesis by simp
  qed
qed

lemma sample_connected:
  obtains s :: tcp_client and ob c where "in_thread_of 1 (cli_loop s) s" "objs s 16 = Some ob" "refs ob = k" "obj_loop ob = 0" "cli_loop s = 0"
    "connection s = Some 16" "\<not> cli_retry s" "conn_inv (view_of ob s)" "cstate (body ob) \<in> {Connected, Disconnecting}"
    "cref (body ob) = 0" "sockfd (csocket (body ob)) = 5" "\<not> eventHandling c"
    "chans (rxs s 0) 0 = Some c" "wired c" "revents c = ev" "queues s 0 = []"
proof -
  obtain w :: conn_world and c where w: "conn_inv w" "cstate (conn w) = Connected" "conn_fd w = 5" "loop_tid (rx w) = 1"
    "chans (rx w) (cref (conn w)) = Some c" "\<not> eventHandling c" "closeCallback c = Some ConnClose" "readCallback c = Some ConnRead"
    "cref (conn w) = 0" by (rule sample_conn_full)
  let ?c = "c\<lparr>revents := ev, writeCallback := Some ConnWrite, errorCallback := Some ConnError\<rparr>"
  let ?ob = "\<lparr>body = conn w, obj_loop = 0, refs = k\<rparr>"
  let ?s = "(sample_client cn_sample_start)\<lparr>objs := [16 \<mapsto> ?ob], rxs := \<lambda>_. put_chan 0 ?c (rx w), connection := Some 16\<rparr>"
  have "conn_inv (view_of ?ob ?s)"
    by (rule put_same_conn [OF w(1,5), of ?c]) (simp_all add: w(9))
  then show thesis
    using w by (intro that [of ?s ?ob ?c]) (simp_all add: in_thread_of_def put_chan_def sample_client_def conn_fd_def wired_def)
qed

theorem client_close_fails_witness:
  "\<forall>cin cbs t wr. \<exists>s :: tcp_client. rbind (store_handleEvent (client_removeConnection 1 cin) cbs 1
       \<lparr>in_read = ReadBytes [], in_write = Ret 0, in_error = Ret 0\<rparr> 32 16 0 0 t s) (run_batch (\<lambda>_. Inr) cbs 1 wr 0) = Inl Dangling"
proof (intro allI)
  fix cin cbs t wr
  obtain s :: tcp_client and ob c where s: "in_thread_of 1 (cli_loop s) s" "objs s 16 = Some ob" "refs ob = 2" "obj_loop ob = 0" "cli_loop s = 0"
    "connection s = Some 16" "\<not> cli_retry s" "conn_inv (view_of ob s)" "cstate (body ob) \<in> {Connected, Disconnecting}"
    "cref (body ob) = 0" "chans (rxs s 0) 0 = Some c" "wired c"
    "revents c = POLLIN" "queues s 0 = []" by (rule sample_connected)
  let ?os = "\<lparr>in_read = ReadBytes [], in_write = Ret 0, in_error = Ret 0\<rparr> :: conn_inputs"
  have 1: "obj_loop ob = cli_loop s" "cli_retry s \<and> cli_connect s \<longrightarrow> (\<exists>k. cn_restart 1 cin (connector_of s) = Inr k)" "1 \<le> refs ob"
    "chans (rxs s (obj_loop ob)) (cref (body ob)) = Some c" "close_event (revents c) ?os"
    "queues s (obj_loop ob) = []" using s by (simp_all add: read_eof_def close_event_def)
  from client_close_fails [OF s(1,6,2) 1(1,2,3) s(8,9) 1(4) s(12) 1(5,6), of "\<lambda>_. Inr" cbs 32 t wr] s(3,4,10) show "\<exists>s :: tcp_client. rbind (store_handleEvent (client_removeConnection 1 cin) cbs 1
       \<lparr>in_read = ReadBytes [], in_write = Ret 0, in_error = Ret 0\<rparr> 32 16 0 0 t s) (run_batch (\<lambda>_. Inr) cbs 1 wr 0) = Inl Dangling" by auto
qed

text \<open>
  A client that is destroyed while connected takes its connection with it, if nobody else refers
  to it: the destructor sets another close callback, but no reference keeps the connection, which
  is destroyed while it is registered. The poller keeps the pointer to its channel, and the next
  \<open>poll\<close> that reports its descriptor uses it.
\<close>

theorem client_dtor_dangles:
  assumes "connection s = Some a" and "in_thread_of self (cli_loop s) s" and "objs s a = Some ob" and "refs ob = 1"
    and "conn_inv (view_of ob s)" and "cstate (body ob) \<in> {Connected, Disconnecting}"
    and "chans (rxs s (obj_loop ob)) (cref (body ob)) = Some c" and "\<not> eventHandling c" and "u \<noteq> v"
    and "pfd_fd p = sockfd (csocket (body ob))" and "short_pos (pfd_revents p)"
  shows "\<exists>s'. TcpClient_dtor self v u s = Inr s' \<and> objs s' a = None \<and>
    fill_one p (rxs s' (obj_loop ob), n, active) = Inl Dangling"
proof -
  from TcpClient_dtor_last [OF assms(1-4,7-9)] obtain s' where
    s': "TcpClient_dtor self v u s = Inr s'" "objs s' a = None" "chans (rxs s' (obj_loop ob)) (cref (body ob)) = None"
      "channel_map (rxs s' (obj_loop ob)) = channel_map (rxs s (obj_loop ob))" by blast
  from assms(5,6) have "channel_map (rxs s (obj_loop ob)) (sockfd (csocket (body ob))) = Some (cref (body ob))"
    by (auto simp: conn_inv_def chan_agrees_def conn_fd_def)
  with s' assms(10,11) show ?thesis by (simp add: fill_one_def deref_def Let_def)
qed

theorem client_dtor_dangles_witness:
  "\<exists>s s'. TcpClient_dtor 1 32 33 s = Inr s' \<and> connection s = Some 16 \<and>
     fill_one \<lparr>pfd_fd = 5, pfd_events = 3, pfd_revents = 1\<rparr> (rxs s' 0, 1, []) = Inl Dangling"
proof -
  obtain s :: tcp_client and ob c where s: "in_thread_of 1 (cli_loop s) s" "objs s 16 = Some ob" "refs ob = 1" "obj_loop ob = 0"
    "connection s = Some 16" "conn_inv (view_of ob s)" "cstate (body ob) \<in> {Connected, Disconnecting}"
    "cref (body ob) = 0" "sockfd (csocket (body ob)) = 5" "\<not> eventHandling c" "chans (rxs s 0) 0 = Some c"
    by (rule sample_connected [of 1 0])
  let ?p = "\<lparr>pfd_fd = 5, pfd_events = 3, pfd_revents = 1\<rparr>"
  have 1: "chans (rxs s (obj_loop ob)) (cref (body ob)) = Some c" "(33 :: vaddr) \<noteq> 32"
    "pfd_fd ?p = sockfd (csocket (body ob))" "short_pos (pfd_revents ?p)"
    using s by (simp_all add: short_pos_def)
  from client_dtor_dangles [OF s(5,1,2,3,6,7) 1(1) s(10) 1(2-4), of 1 "[]"] s(4,5) show ?thesis by auto
qed

end
