(* ===== verification/Whole_Loop.thy ===== *)
theory Whole_Loop
  imports Event_Loop Pollers Sockets
begin

text \<open>
  An EventLoop with its parts (src/net/EventLoop.h, EventLoop.cpp): the state of Event\_Loop, the
  Poller with the channels that are registered in it, and the TimerQueue, wired by two channels of
  the loop itself: that of the eventfd and that of the timerfd.

  One turn of the loop polls, lets each active channel handle its events, and calls the functors
  that are pending. The handlers of other channels and the functors are arguments that act on the
  whole object.
\<close>

section \<open>State\<close>

datatype 'h loop_handler = WakeupRead | TimerRead | UserHandler 'h

record ('f, 'h, 'cb) loop_object =
  core :: "'f event_loop"
  lo_rx :: "'h loop_handler reactor"
  tqueue :: "'cb timer_queue"
  timer_fd :: int
  timer_ref :: chref
  wakeup_fd :: int
  wakeup_ref :: chref
  pollReturn :: timestamp
  lo_io :: "sys_event list"

definition pollReturnTime :: "('f, 'h, 'cb) loop_object \<Rightarrow> timestamp" where
  "pollReturnTime w = pollReturn w"

definition createEventfd :: "int syscall \<Rightarrow> int result" where
  "createEventfd r = (case r of Err _ \<Rightarrow> Inl Aborted | Ret fd \<Rightarrow> Inr fd)"

definition abortNotInThread :: "'b result" where
  "abortNotInThread = Inl Aborted"

definition lo_assertInLoopThread :: "tid \<Rightarrow> ('f, 'h, 'cb) loop_object \<Rightarrow> 'b result \<Rightarrow> 'b result" where
  "lo_assertInLoopThread self w k = (if \<not> isInLoopThread self (core w) then abortNotInThread else k)"

text \<open>
  The constructors: the timer queue makes its channel and registers it, then the loop makes the
  eventfd and its channel, finds out whether its thread has a loop already, and registers the
  channel.
\<close>

definition TimerQueue_construct ::
  "tid \<Rightarrow> int syscall \<Rightarrow> chref \<Rightarrow> 'h loop_handler reactor \<Rightarrow> (int \<times> 'cb timer_queue \<times> 'h loop_handler reactor) result" where
  "TimerQueue_construct self answer ref r =
     rbind (createTimerfd answer) (\<lambda>fd.
     rbind (enableReading self ref (new_chan ref (setReadCallback TimerRead (Channel_new fd)) r)) (\<lambda>r.
     Inr (fd, TimerQueue_new self, r)))"

definition EventLoop_construct ::
  "tid \<Rightarrow> bool \<Rightarrow> int syscall \<Rightarrow> int syscall \<Rightarrow> chref \<Rightarrow> chref \<Rightarrow> ('f, 'h, 'cb) loop_object result" where
  "EventLoop_construct self current ta ea tref wref =
     rbind (TimerQueue_construct self ta tref (Poller_new self)) (\<lambda>(tfd, q, r).
     rbind (createEventfd ea) (\<lambda>wfd.
     let r = new_chan wref (Channel_new wfd) r in
     rbind (EventLoop_new self current) (\<lambda>l.
     rbind (deref wref (\<lambda>c. Inr (put_chan wref (setReadCallback WakeupRead c) r)) r) (\<lambda>r.
     rbind (enableReading self wref r) (\<lambda>r.
     Inr \<lparr>core = l, lo_rx = r, tqueue = q, timer_fd = tfd, timer_ref = tref, wakeup_fd = wfd, wakeup_ref = wref,
          pollReturn = invaild, lo_io = []\<rparr>)))))"

text \<open>
  The destructors: that of the loop, then its members in reverse order, the wake-up channel before the
  timer queue, whose own destructor comes before that of its channel.
\<close>

definition TimerQueue_destroy :: "('f, 'h, 'cb) loop_object \<Rightarrow> ('f, 'h, 'cb) loop_object result" where
  "TimerQueue_destroy w =
     (let w = w\<lparr>lo_io := lo_io w @ sock_close (timer_fd w), tqueue := TimerQueue_dtor (tqueue w)\<rparr> in
      rbind (delete_chan (timer_ref w) (lo_rx w)) (\<lambda>r. Inr (w\<lparr>lo_rx := r\<rparr>)))"

definition EventLoop_destroy :: "('f, 'h, 'cb) loop_object \<Rightarrow> ('f, 'h, 'cb) loop_object result" where
  "EventLoop_destroy w =
     rbind (EventLoop_dtor (core w)) (\<lambda>_.
     let w = w\<lparr>lo_io := lo_io w @ sock_close (wakeup_fd w)\<rparr> in
     rbind (delete_chan (wakeup_ref w) (lo_rx w)) (\<lambda>r. TimerQueue_destroy (w\<lparr>lo_rx := r\<rparr>)))"

section \<open>Operations\<close>

text \<open>A channel of this loop asks it to be updated or removed; the loop asks its poller.\<close>

definition lo_updateChannel :: "tid \<Rightarrow> chref \<Rightarrow> ('f, 'h, 'cb) loop_object \<Rightarrow> ('f, 'h, 'cb) loop_object result" where
  "lo_updateChannel self ref w = deref ref (\<lambda>_. lo_assertInLoopThread self w
     (rbind (updateChannel self ref (lo_rx w)) (\<lambda>r. Inr (w\<lparr>lo_rx := r\<rparr>)))) (lo_rx w)"

definition lo_removeChannel :: "tid \<Rightarrow> chref \<Rightarrow> ('f, 'h, 'cb) loop_object \<Rightarrow> ('f, 'h, 'cb) loop_object result" where
  "lo_removeChannel self ref w = deref ref (\<lambda>_. lo_assertInLoopThread self w
     (rbind (removeChannel self ref (lo_rx w)) (\<lambda>r. Inr (w\<lparr>lo_rx := r\<rparr>)))) (lo_rx w)"

definition lo_dispatch ::
  "tid \<Rightarrow> ('h \<Rightarrow> event_call \<Rightarrow> ('f, 'h, 'cb) loop_object \<Rightarrow> ('f, 'h, 'cb) loop_object result) \<Rightarrow>
   ('cb \<Rightarrow> 'cb timer_queue \<Rightarrow> 'cb timer_queue result) \<Rightarrow> timestamp \<times> timestamp \<Rightarrow>
   'h loop_handler \<Rightarrow> event_call \<Rightarrow> ('f, 'h, 'cb) loop_object \<Rightarrow> ('f, 'h, 'cb) loop_object result" where
  "lo_dispatch self user fire clock h call w = (case h of
       WakeupRead \<Rightarrow> Inr (w\<lparr>core := el_handleRead (core w)\<rparr>)
     | TimerRead \<Rightarrow> rbind (tq_handleRead self fire (fst clock) (snd clock) (tqueue w)) (\<lambda>q. Inr (w\<lparr>tqueue := q\<rparr>))
     | UserHandler h \<Rightarrow> user h call w)"

definition lo_handleEvent ::
  "tid \<Rightarrow> ('h \<Rightarrow> event_call \<Rightarrow> ('f, 'h, 'cb) loop_object \<Rightarrow> ('f, 'h, 'cb) loop_object result) \<Rightarrow>
   ('cb \<Rightarrow> 'cb timer_queue \<Rightarrow> 'cb timer_queue result) \<Rightarrow> timestamp \<times> timestamp \<Rightarrow>
   chref \<Rightarrow> ('f, 'h, 'cb) loop_object \<Rightarrow> ('f, 'h, 'cb) loop_object result" where
  "lo_handleEvent self user fire clock ref w =
     handleEvent (\<lambda>w. chans (lo_rx w) ref) (\<lambda>c w. w\<lparr>lo_rx := put_chan ref c (lo_rx w)\<rparr>)
       (lo_dispatch self user fire clock) (pollReturn w) w"

definition batch_start :: "('f, 'h, 'cb) loop_object \<Rightarrow> ('f, 'h, 'cb) loop_object" where
  "batch_start w = w\<lparr>core := snd (swap_pending ((core w)\<lparr>calling_pending := True\<rparr>))\<rparr>"

definition batch_end :: "('f, 'h, 'cb) loop_object \<Rightarrow> ('f, 'h, 'cb) loop_object" where
  "batch_end w = w\<lparr>core := (core w)\<lparr>calling_pending := False\<rparr>\<rparr>"

definition lo_doPendingFunctors ::
  "('f \<Rightarrow> ('f, 'h, 'cb) loop_object \<Rightarrow> ('f, 'h, 'cb) loop_object result) \<Rightarrow>
   ('f, 'h, 'cb) loop_object \<Rightarrow> ('f, 'h, 'cb) loop_object result" where
  "lo_doPendingFunctors run w =
     rbind (rfold run (fst (swap_pending (core w))) (batch_start w)) (\<lambda>w. Inr (batch_end w))"

text \<open>One turn: \<open>t\<close> is the time at which \<open>poll\<close> returns, \<open>clock\<close> what the timer queue reads.\<close>

definition loop_turn ::
  "tid \<Rightarrow> ('h \<Rightarrow> event_call \<Rightarrow> ('f, 'h, 'cb) loop_object \<Rightarrow> ('f, 'h, 'cb) loop_object result) \<Rightarrow>
   ('cb \<Rightarrow> 'cb timer_queue \<Rightarrow> 'cb timer_queue result) \<Rightarrow>
   ('f \<Rightarrow> ('f, 'h, 'cb) loop_object \<Rightarrow> ('f, 'h, 'cb) loop_object result) \<Rightarrow>
   timestamp \<times> timestamp \<Rightarrow> timestamp \<Rightarrow> poll_outcome \<Rightarrow> ('f, 'h, 'cb) loop_object \<Rightarrow> ('f, 'h, 'cb) loop_object result" where
  "loop_turn self user fire run clock t outcome w =
     rbind (Poller_poll outcome [] (lo_rx w)) (\<lambda>(r, active).
     rbind (rfold (lo_handleEvent self user fire clock) active (w\<lparr>lo_rx := r, pollReturn := t\<rparr>))
       (lo_doPendingFunctors run))"

section \<open>The channels of the loop\<close>

text \<open>
  A channel of the loop is registered, waits for input, and its entry is not ignored.
\<close>

definition watched :: "'h loop_handler \<Rightarrow> chref \<Rightarrow> int \<Rightarrow> 'h loop_handler reactor \<Rightarrow> bool" where
  "watched h ref fd r \<longleftrightarrow> channel_map r fd = Some ref \<and> (\<exists>c. chans r ref = Some c \<and> chan_fd c = fd \<and>
     readCallback c = Some h \<and> events c = kReadEvent \<and> pfd_fd (pollfds r ! nat (index c)) = fd)"

definition lo_ok :: "('f, 'h, 'cb) loop_object \<Rightarrow> bool" where
  "lo_ok w \<longleftrightarrow> reactor_inv (lo_rx w) \<and> loop_tid (lo_rx w) = thread_id (core w) \<and>
     watched WakeupRead (wakeup_ref w) (wakeup_fd w) (lo_rx w) \<and> watched TimerRead (timer_ref w) (timer_fd w) (lo_rx w)"

lemma watched_put:
  assumes "watched h ref fd r" and "chans r ref' = Some c"
  shows "watched h ref fd (put_chan ref' (c\<lparr>eventHandling := b\<rparr>) r)"
  using assms by (auto simp: watched_def put_chan_def)

lemma watched_polled:
  assumes w: "watched h ref fd r" and same: "same_but_revents (set_kernel_revents revs r) r'"
    and inv: "reactor_inv r" and len: "length revs = length (pollfds r)"
  shows "watched h ref fd r'"
proof -
  from w obtain c where c: "channel_map r fd = Some ref" "chans r ref = Some c" "chan_fd c = fd"
    "readCallback c = Some h" "events c = kReadEvent" "pfd_fd (pollfds r ! nat (index c)) = fd" by (auto simp: watched_def)
  from same_but_revents_forward [OF same, of ref c] c(2) obtain v where
    v: "chans r' ref = Some (c\<lparr>revents := v\<rparr>)" by (auto simp: set_kernel_revents_def)
  from inv_mapped [OF inv c(1)] c(2) have "nat (index c) < length (pollfds r)" by (metis nat_int option.inject)
  then have "pfd_fd (pollfds r' ! nat (index c)) = fd"
    using same c(6) len by (simp add: same_but_revents_def set_kernel_revents_def)
  moreover have "channel_map r' = channel_map r" using same by (simp add: same_but_revents_def set_kernel_revents_def)
  ultimately show ?thesis using c v by (simp add: watched_def)
qed

lemma lo_ok_put:
  assumes "lo_ok w" and "chans (lo_rx w) ref = Some c"
  shows "lo_ok (w\<lparr>lo_rx := put_chan ref (c\<lparr>eventHandling := b\<rparr>) (lo_rx w)\<rparr>)"
proof -
  have "reactor_inv (put_chan ref (c\<lparr>eventHandling := b\<rparr>) (lo_rx w))"
    by (rule put_same_inv [OF _ assms(2)]) (use assms(1) in \<open>simp_all add: lo_ok_def\<close>)
  moreover have "loop_tid (put_chan ref d (lo_rx w)) = loop_tid (lo_rx w)" for d by (simp add: put_chan_def)
  ultimately show ?thesis using assms by (simp add: lo_ok_def watched_put)
qed

lemma lo_ok_core: "lo_ok w \<Longrightarrow> thread_id l = thread_id (core w) \<Longrightarrow> lo_ok (w\<lparr>core := l\<rparr>)"
  by (simp add: lo_ok_def)

text \<open>
  What the eventfd documents, as an answer of \<open>poll\<close>: its entry reports input exactly while its
  counter is not zero.
\<close>

definition eventfd_doc :: "('f, 'h, 'cb) loop_object \<Rightarrow> 16 word list \<Rightarrow> bool" where
  "eventfd_doc w revs \<longleftrightarrow> poll_doc (pollfds (lo_rx w)) revs \<and>
     (\<forall>i < length revs. pfd_fd (pollfds (lo_rx w) ! i) = wakeup_fd w \<longrightarrow>
        revs ! i = (if 0 < wakeup_count (core w) then 1 else 0))"

text \<open>The channel of the \<open>i\<close>-th entry, with the events that \<open>poll\<close> has reported.\<close>

definition reported :: "('f, 'h, 'cb) loop_object \<Rightarrow> 16 word list \<Rightarrow> nat \<Rightarrow> 'h loop_handler channel" where
  "reported w revs i = (the (chans (lo_rx w) (channel_at (lo_rx w) i)))\<lparr>revents := scast (revs ! i)\<rparr>"

text \<open>A readable eventfd: \<open>poll\<close> does not wait, and the wake-up channel is among the active ones.\<close>

lemma poll_wakes:
  assumes ok: "lo_ok w" and doc: "eventfd_doc w revs" and n: "0 < wakeup_count (core w)"
  shows "0 < poll_count revs \<and> (\<exists>r active c. Poller_poll (PollReady revs) [] (lo_rx w) = Inr (r, active) \<and>
    lo_ok (w\<lparr>lo_rx := r, pollReturn := t\<rparr>) \<and> (\<forall>ref \<in> set active. chans r ref \<noteq> None) \<and> wakeup_ref w \<in> set active \<and>
    chans r (wakeup_ref w) = Some c \<and> revents c = 1 \<and> readCallback c = Some WakeupRead \<and>
    active = map (channel_at (lo_rx w)) (ready (lo_rx w) revs) \<and>
    (\<forall>i \<in> set (ready (lo_rx w) revs). chans r (channel_at (lo_rx w) i) = Some (reported w revs i)))"
proof -
  let ?r = "lo_rx w"
  from ok have inv: "reactor_inv ?r" "watched WakeupRead (wakeup_ref w) (wakeup_fd w) ?r" by (simp_all add: lo_ok_def)
  from doc have pd: "poll_doc (pollfds ?r) revs" by (simp add: eventfd_doc_def)
  then have len: "length revs = length (pollfds ?r)" by (simp add: poll_doc_def)
  from inv(2) obtain c where c: "channel_map ?r (wakeup_fd w) = Some (wakeup_ref w)" "chans ?r (wakeup_ref w) = Some c"
    "pfd_fd (pollfds ?r ! nat (index c)) = wakeup_fd w" by (auto simp: watched_def)
  from inv_mapped [OF inv(1) c(1)] c(2) obtain i where i: "i < length (pollfds ?r)" "nat (index c) = i"
    by (metis nat_int option.inject)
  with c(3) doc n len have one: "revs ! i = 1" by (simp add: eventfd_doc_def)
  then have "short_pos (revs ! i)" by (simp add: short_pos_def)
  with i(1) have rdy: "i \<in> set (ready ?r revs)" by (simp add: ready_def)
  have at: "channel_at ?r i = wakeup_ref w" using c(1,3) i(2) by (simp add: channel_at_def)
  from Poller_poll_ok [OF inv(1) pd] obtain r where
    r: "Poller_poll (PollReady revs) [] ?r = Inr (r, map (channel_at ?r) (ready ?r revs))" "reactor_inv r"
      "same_but_revents (set_kernel_revents revs ?r) r"
      "\<forall>i \<in> set (ready ?r revs). \<exists>c. chans r (channel_at ?r i) = Some c \<and> revents c = scast (revs ! i)" by blast
  from r(4) rdy at one obtain d where d: "chans r (wakeup_ref w) = Some d" "revents d = 1" by force
  have wt: "watched h ref fd r" if "watched h ref fd ?r" for h ref fd
    by (rule watched_polled [OF that r(3) inv(1) len])
  from wt [OF inv(2)] d(1) have "readCallback d = Some WakeupRead" by (auto simp: watched_def)
  moreover have "loop_tid r = loop_tid ?r" using r(3) by (simp add: same_but_revents_def set_kernel_revents_def)
  then have "lo_ok (w\<lparr>lo_rx := r, pollReturn := t\<rparr>)" using ok r(2) wt by (simp add: lo_ok_def)
  moreover have "1 \<in> set revs" using one i(1) len by (metis nth_mem)
  then have "0 < poll_count revs" by (auto simp: poll_count_def filter_empty_conv intro: bexI [of _ "1"])
  moreover have "wakeup_ref w \<in> set (map (channel_at ?r) (ready ?r revs))" using rdy at by force
  moreover have "\<forall>ref \<in> set (map (channel_at ?r) (ready ?r revs)). chans r ref \<noteq> None" using r(4) by auto
  moreover have "chans r (channel_at ?r i) = Some (reported w revs i)" if i: "i \<in> set (ready ?r revs)" for i
  proof -
    from i ready_slot [OF inv(1) pd, of i] obtain e where e: "chans ?r (channel_at ?r i) = Some e"
      by (auto simp: ready_def)
    from same_but_revents_forward [OF r(3), of "channel_at ?r i" e] e obtain u where
      "chans r (channel_at ?r i) = Some (e\<lparr>revents := u\<rparr>)" by (auto simp: set_kernel_revents_def)
    with r(4) i e show ?thesis by (auto simp: reported_def)
  qed
  ultimately show ?thesis using r(1) d by blast
qed

section \<open>Handlers\<close>

text \<open>
  What a handler of the loop's thread keeps: the objects that are there, with their callbacks and
  reported events, the time of the poll, and the queue of functors up to new ones; it does not write
  the eventfd.
\<close>

definition handler_frame :: "('f, 'h, 'cb) loop_object \<Rightarrow> ('f, 'h, 'cb) loop_object \<Rightarrow> bool" where
  "handler_frame w w' \<longleftrightarrow> thread_id (core w') = thread_id (core w) \<and> wakeup_ref w' = wakeup_ref w \<and>
     pollReturn w' = pollReturn w \<and> wakeup_count (core w') \<le> wakeup_count (core w) \<and> (\<exists>fs. pending (core w') = pending (core w) @ fs) \<and>
     (\<forall>ref c. chans (lo_rx w) ref = Some c \<longrightarrow> (\<exists>c'. chans (lo_rx w') ref = Some c' \<and> same_dispatch c c'))"

text \<open>
  The handlers return from every consistent state: the user's, which keep the frame, and an alarm of
  the timer queue, on the states \<open>Q\<close> of the queue that occur.
\<close>

definition handlers_return ::
  "('cb timer_queue \<Rightarrow> bool) \<Rightarrow> tid \<Rightarrow> ('h \<Rightarrow> event_call \<Rightarrow> ('f, 'h, 'cb) loop_object \<Rightarrow> ('f, 'h, 'cb) loop_object result) \<Rightarrow>
   ('cb \<Rightarrow> 'cb timer_queue \<Rightarrow> 'cb timer_queue result) \<Rightarrow> timestamp \<times> timestamp \<Rightarrow> bool" where
  "handlers_return Q self user fire clock \<longleftrightarrow>
     (\<forall>q. Q q \<longrightarrow> (\<exists>q'. tq_handleRead self fire (fst clock) (snd clock) q = Inr q' \<and> Q q')) \<and>
     (\<forall>h call w. lo_ok w \<and> Q (tqueue w) \<longrightarrow>
        (\<exists>w'. user h call w = Inr w' \<and> lo_ok w' \<and> Q (tqueue w') \<and> handler_frame w w'))"

lemma handler_frame_refl: "handler_frame w w"
  by (simp add: handler_frame_def)

lemma handler_frame_trans: "handler_frame u v \<Longrightarrow> handler_frame v w \<Longrightarrow> handler_frame u w"
  unfolding handler_frame_def by (elim conjE exE, intro conjI) (simp, simp, simp, simp, simp, meson same_dispatch_trans)

lemma handler_frame_put: "chans (lo_rx w) ref = Some c \<Longrightarrow>
    handler_frame w (w\<lparr>lo_rx := put_chan ref (c\<lparr>eventHandling := b\<rparr>) (lo_rx w)\<rparr>)"
  by (auto simp: handler_frame_def put_chan_def same_dispatch_def)

lemma handleEvent_total:
  assumes run: "\<And>h call w. P w \<Longrightarrow> \<exists>w'. run h call w = Inr w' \<and> P w'"
    and chan: "\<And>w. P w \<Longrightarrow> \<exists>c. getc w = Some c"
    and put: "\<And>w c b. P w \<Longrightarrow> getc w = Some c \<Longrightarrow> P (putc (c\<lparr>eventHandling := b\<rparr>) w)" and P: "P w"
  shows "\<exists>w'. handleEvent getc putc run t w = Inr w' \<and> P w'"
proof -
  have flag: "\<exists>w'. with_chan getc (\<lambda>c w. Inr (putc (c\<lparr>eventHandling := b\<rparr>) w)) w = Inr w' \<and> P w'" if "P w" for w b
    using chan [OF that] put [OF that] by (auto simp: with_chan_def)
  have call: "\<exists>w'. call_if getc test sel call run w = Inr w' \<and> P w'" if "P w" for w test sel call
    using chan [OF that] run [OF that] that by (auto simp: call_if_def with_chan_def split: option.splits)
  from flag [OF P] obtain w1 where 1: "with_chan getc (\<lambda>c w. Inr (putc (c\<lparr>eventHandling := True\<rparr>) w)) w = Inr w1" "P w1" by blast
  from call [OF 1(2)] obtain w2 where 2: "call_if getc close_test closeCallback CloseCall run w1 = Inr w2" "P w2" by blast
  from call [OF 2(2)] obtain w3 where 3: "call_if getc error_test errorCallback ErrorCall run w2 = Inr w3" "P w3" by blast
  from call [OF 3(2)] obtain w4 where 4: "call_if getc read_test readCallback (ReadCall t) run w3 = Inr w4" "P w4" by blast
  from call [OF 4(2)] obtain w5 where 5: "call_if getc write_test writeCallback WriteCall run w4 = Inr w5" "P w5" by blast
  from flag [OF 5(2)] show ?thesis by (simp add: handleEvent_def 1 2 3 4 5)
qed

definition fine :: "('cb timer_queue \<Rightarrow> bool) \<Rightarrow> ('f, 'h, 'cb) loop_object \<Rightarrow> ('f, 'h, 'cb) loop_object \<Rightarrow> bool" where
  "fine Q u w \<longleftrightarrow> lo_ok w \<and> Q (tqueue w) \<and> handler_frame u w"

lemma lo_dispatch_fine:
  assumes hs: "handlers_return Q self user fire clock" and fine: "fine Q u w"
  shows "\<exists>w'. lo_dispatch self user fire clock h call w = Inr w' \<and> fine Q u w'"
proof (cases h)
  case WakeupRead
  have "handler_frame w (w\<lparr>core := el_handleRead (core w)\<rparr>)" by (simp add: handler_frame_def el_handleRead_def)
  moreover have "lo_ok (w\<lparr>core := el_handleRead (core w)\<rparr>)"
    by (rule lo_ok_core) (use fine in \<open>simp_all add: fine_def el_handleRead_def\<close>)
  ultimately show ?thesis using fine WakeupRead handler_frame_trans by (auto simp: lo_dispatch_def fine_def)
next
  case TimerRead
  from hs fine obtain q where q: "tq_handleRead self fire (fst clock) (snd clock) (tqueue w) = Inr q" "Q q"
    by (auto simp: handlers_return_def fine_def)
  have "lo_ok w" using fine by (simp add: fine_def)
  then have "handler_frame w (w\<lparr>tqueue := q\<rparr>)" "lo_ok (w\<lparr>tqueue := q\<rparr>)"
    by (simp_all add: handler_frame_def lo_ok_def)
  with q fine TimerRead handler_frame_trans show ?thesis by (auto simp: lo_dispatch_def fine_def)
next
  case (UserHandler g)
  from hs fine obtain w' where "user g call w = Inr w'" "lo_ok w'" "Q (tqueue w')" "handler_frame w w'"
    unfolding handlers_return_def fine_def by meson
  with fine UserHandler handler_frame_trans show ?thesis by (auto simp: lo_dispatch_def fine_def)
qed

lemma lo_handleEvent_fine:
  assumes hs: "handlers_return Q self user fire clock" and fine: "fine Q u w" and ref: "chans (lo_rx u) ref \<noteq> None"
  shows "\<exists>w'. lo_handleEvent self user fire clock ref w = Inr w' \<and> fine Q u w'"
  unfolding lo_handleEvent_def
proof (rule handleEvent_total)
  show "\<exists>c. chans (lo_rx v) ref = Some c" if "fine Q u v" for v
    using that ref by (auto simp: fine_def handler_frame_def)
  show "fine Q u (v\<lparr>lo_rx := put_chan ref (c\<lparr>eventHandling := b\<rparr>) (lo_rx v)\<rparr>)"
    if "fine Q u v" "chans (lo_rx v) ref = Some c" for v c b
    using that lo_ok_put [of v ref c b] handler_frame_put [of v ref c b] handler_frame_trans by (auto simp: fine_def)
qed (use fine lo_dispatch_fine [OF hs] in auto)

text \<open>The event of the eventfd's channel.\<close>

lemma wakeup_event:
  assumes "chans (lo_rx w) ref = Some c" and "revents c = 1" and "readCallback c = Some WakeupRead"
    and "lo_handleEvent self user fire clock ref w = Inr w'"
  shows "wakeup_count (core w') = 0"
  using assms by (auto simp: lo_handleEvent_def handleEvent_def with_chan_def call_if_def close_test_def error_test_def
      read_test_def write_test_def has_bits_def lo_dispatch_def put_chan_def el_handleRead_def split: option.splits)

lemma events_fine:
  assumes hs: "handlers_return Q self user fire clock" and fine: "fine Q w w" and refs: "\<forall>ref \<in> set active. chans (lo_rx w) ref \<noteq> None"
    and wake: "wakeup_ref w \<in> set active" "chans (lo_rx w) (wakeup_ref w) = Some c" "revents c = 1" "readCallback c = Some WakeupRead"
  shows "\<exists>w'. rfold (lo_handleEvent self user fire clock) active w = Inr w' \<and> fine Q w w' \<and> wakeup_count (core w') = 0"
proof -
  let ?h = "lo_handleEvent self user fire clock" and ?ref = "wakeup_ref w"
  from wake(1) obtain xs ys where act: "active = xs @ ?ref # ys" by (meson split_list)
  have step: "\<exists>v'. ?h ref v = Inr v' \<and> fine Q w v'" if "ref \<in> set active" "fine Q w v" for ref v
    by (rule lo_handleEvent_fine [OF hs that(2)]) (use that(1) refs in blast)
  have "\<exists>v. rfold ?h xs w = Inr v \<and> fine Q w v" by (rule rfold_total [OF step fine]) (simp_all add: act)
  then obtain v where v: "rfold ?h xs w = Inr v" "fine Q w v" by blast
  have "?ref \<in> set active" by (simp add: act)
  from step [OF this v(2)] obtain x where x: "?h ?ref v = Inr x" "fine Q w x" by blast
  from v(2) wake(2) obtain d where "chans (lo_rx v) ?ref = Some d" "same_dispatch c d"
    unfolding fine_def handler_frame_def by blast
  with wake(3,4) have "chans (lo_rx v) ?ref = Some d" "revents d = 1" "readCallback d = Some WakeupRead"
    by (simp_all add: same_dispatch_def)
  from wakeup_event [OF this x(1)] have zero: "wakeup_count (core x) = 0" .
  have chan: "chans (lo_rx x) ref \<noteq> None" if "ref \<in> set ys" for ref
    using that refs x(2) by (fastforce simp: act fine_def handler_frame_def)
  have "\<exists>y. rfold ?h ys x = Inr y \<and> fine Q x y"
  proof (rule rfold_total)
    show "fine Q x x" using x(2) by (simp add: fine_def handler_frame_refl)
    show "\<exists>z'. ?h ref z = Inr z' \<and> fine Q x z'" if "ref \<in> set ys" "fine Q x z" for ref z
      by (rule lo_handleEvent_fine [OF hs that(2) chan [OF that(1)]])
  qed
  then obtain y where y: "rfold ?h ys x = Inr y" "fine Q x y" by blast
  from y(2) zero have "wakeup_count (core y) = 0" by (simp add: fine_def handler_frame_def)
  moreover have "fine Q w y" using y(2) x(2) handler_frame_trans by (auto simp: fine_def)
  moreover have "rfold ?h active w = Inr y" by (simp add: act rfold_append v(1) x(1) y(1))
  ultimately show ?thesis by blast
qed

text \<open>
  Handlers that record their calls: each call of \<open>user\<close> adds \<open>act h call\<close> to the list of system calls.
  Then a turn adds what the requested calls of the active channels ask for, in their order.
\<close>

definition records :: "('h \<Rightarrow> event_call \<Rightarrow> sys_event list) \<Rightarrow>
    ('h \<Rightarrow> event_call \<Rightarrow> ('f, 'h, 'cb) loop_object \<Rightarrow> ('f, 'h, 'cb) loop_object result) \<Rightarrow> bool" where
  "records act user \<longleftrightarrow> (\<forall>h call w w'. user h call w = Inr w' \<longrightarrow> lo_io w' = lo_io w @ act h call)"

definition calls_of :: "('h \<Rightarrow> event_call \<Rightarrow> sys_event list) \<Rightarrow> 'h loop_handler \<times> event_call \<Rightarrow> sys_event list" where
  "calls_of act p = (case p of (UserHandler h, call) \<Rightarrow> act h call | _ \<Rightarrow> [])"

definition event_calls :: "('h \<Rightarrow> event_call \<Rightarrow> sys_event list) \<Rightarrow> timestamp \<Rightarrow> 'h loop_handler channel \<Rightarrow> sys_event list" where
  "event_calls act t c = concat (map (calls_of act) (requested t c))"

lemma handleEvent_log:
  assumes run: "\<And>h call w w'. P w \<Longrightarrow> run h call w = Inr w' \<Longrightarrow> P w' \<and> tr w' = tr w @ act (h, call)"
    and chan: "\<And>w. P w \<Longrightarrow> \<exists>c. getc w = Some c \<and> same_dispatch c0 c"
    and put: "\<And>w c b. P w \<Longrightarrow> getc w = Some c \<Longrightarrow> P (putc (c\<lparr>eventHandling := b\<rparr>) w) \<and> tr (putc (c\<lparr>eventHandling := b\<rparr>) w) = tr w"
    and P: "P w" and ev: "handleEvent getc putc run t w = Inr w'"
  shows "tr w' = tr w @ concat (map act (requested t c0))"
proof -
  have flag: "P v' \<and> tr v' = tr v"
    if "P v" "with_chan getc (\<lambda>c w. Inr (putc (c\<lparr>eventHandling := b\<rparr>) w)) v = Inr v'" for v v' b
    using chan [OF that(1)] put [OF that(1)] that(2) by (auto simp: with_chan_def)
  have call: "P v' \<and> tr v' = tr v @ concat (map act (call_list test sel call c0))"
    if "P v" "call_if getc test sel call run v = Inr v'" and sel: "\<And>c. same_dispatch c0 c \<Longrightarrow> sel c = sel c0" for v v' test sel call
  proof -
    from chan [OF that(1)] obtain c where c: "getc v = Some c" "same_dispatch c0 c" by blast
    then have same: "revents c = revents c0" "sel c = sel c0" using sel [OF c(2)] by (simp_all add: same_dispatch_def)
    show ?thesis
    proof (cases "test (revents c0) \<and> sel c0 \<noteq> None")
      case True
      then obtain h where "test (revents c0)" "sel c0 = Some h" by auto
      with that(2) c(1) same run [OF that(1), of h call v'] show ?thesis
        by (simp add: call_if_def with_chan_def call_list_def asked_def)
    next
      case False
      with that(2) c(1) same have "v' = v" "call_list test sel call c0 = []"
        by (auto simp: call_if_def with_chan_def call_list_def asked_def split: if_splits)
      with that(1) show ?thesis by simp
    qed
  qed
  from ev obtain w1 w2 w3 w4 w5 where
    0: "with_chan getc (\<lambda>c w. Inr (putc (c\<lparr>eventHandling := True\<rparr>) w)) w = Inr w1"
    and 1: "call_if getc close_test closeCallback CloseCall run w1 = Inr w2"
    and 2: "call_if getc error_test errorCallback ErrorCall run w2 = Inr w3"
    and 3: "call_if getc read_test readCallback (ReadCall t) run w3 = Inr w4"
    and 4: "call_if getc write_test writeCallback WriteCall run w4 = Inr w5"
    and 5: "with_chan getc (\<lambda>c w. Inr (putc (c\<lparr>eventHandling := False\<rparr>) w)) w5 = Inr w'"
    by (auto simp: handleEvent_def result_simps)
  note p1 = flag [OF P 0]
  have "P w2 \<and> tr w2 = tr w @ concat (map act (call_list close_test closeCallback CloseCall c0))"
    using call [OF p1 [THEN conjunct1] 1] p1 by (simp add: same_dispatch_def)
  moreover from this have "P w3 \<and> tr w3 = tr w2 @ concat (map act (call_list error_test errorCallback ErrorCall c0))"
    using call [OF _ 2] by (simp add: same_dispatch_def)
  moreover from this have "P w4 \<and> tr w4 = tr w3 @ concat (map act (call_list read_test readCallback (ReadCall t) c0))"
    using call [OF _ 3] by (simp add: same_dispatch_def)
  moreover from this have "P w5 \<and> tr w5 = tr w4 @ concat (map act (call_list write_test writeCallback WriteCall c0))"
    using call [OF _ 4] by (simp add: same_dispatch_def)
  ultimately show ?thesis using flag [OF _ 5] by (simp add: requested_lists)
qed

lemma lo_handleEvent_log:
  assumes hs: "handlers_return Q self user fire clock" and act: "records act user" and fine: "fine Q u w"
    and c: "chans (lo_rx u) ref = Some c" and ev: "lo_handleEvent self user fire clock ref w = Inr w'"
  shows "lo_io w' = lo_io w @ event_calls act (pollReturn u) c"
proof -
  have t: "pollReturn w = pollReturn u" using fine by (simp add: fine_def handler_frame_def)
  have "lo_io w' = lo_io w @ concat (map (calls_of act) (requested (pollReturn w) c))"
  proof (rule handleEvent_log [where P = "fine Q u", OF _ _ _ fine ev [unfolded lo_handleEvent_def]])
    show "fine Q u v' \<and> lo_io v' = lo_io v @ calls_of act (h, call)"
      if "fine Q u v" "lo_dispatch self user fire clock h call v = Inr v'" for h call v v'
    proof
      from lo_dispatch_fine [OF hs that(1), of h call] that(2) show "fine Q u v'" by simp
      show "lo_io v' = lo_io v @ calls_of act (h, call)"
        using that(2) act by (cases h) (auto simp: lo_dispatch_def calls_of_def records_def result_simps)
    qed
    show "\<exists>d. chans (lo_rx v) ref = Some d \<and> same_dispatch c d" if "fine Q u v" for v
      using that c unfolding fine_def handler_frame_def by blast
    show "fine Q u (v\<lparr>lo_rx := put_chan ref (d\<lparr>eventHandling := b\<rparr>) (lo_rx v)\<rparr>) \<and>
        lo_io (v\<lparr>lo_rx := put_chan ref (d\<lparr>eventHandling := b\<rparr>) (lo_rx v)\<rparr>) = lo_io v"
      if "fine Q u v" "chans (lo_rx v) ref = Some d" for v d b
      using that lo_ok_put [of v ref d b] handler_frame_put [of v ref d b] handler_frame_trans by (auto simp: fine_def)
  qed
  then show ?thesis by (simp add: event_calls_def t)
qed

lemma events_log:
  assumes hs: "handlers_return Q self user fire clock" and act: "records act user"
    and "fine Q u w" and "\<forall>ref \<in> set active. chans (lo_rx u) ref \<noteq> None"
    and "rfold (lo_handleEvent self user fire clock) active w = Inr w'"
  shows "lo_io w' = lo_io w @ concat (map (\<lambda>ref. event_calls act (pollReturn u) (the (chans (lo_rx u) ref))) active)"
  using assms(3-)
proof (induction active arbitrary: w)
  case (Cons ref active)
  from Cons.prems(3) obtain v where v: "lo_handleEvent self user fire clock ref w = Inr v"
    "rfold (lo_handleEvent self user fire clock) active v = Inr w'" by (auto simp: result_simps)
  from Cons.prems(2) obtain c where c: "chans (lo_rx u) ref = Some c" by auto
  from lo_handleEvent_fine [OF hs Cons.prems(1), of ref] v(1) c have "fine Q u v" by auto
  with Cons.IH [of v] Cons.prems(2) v(2) lo_handleEvent_log [OF hs act Cons.prems(1) c v(1)] c show ?case by simp
qed simp

lemma turn_wakes:
  assumes ok: "lo_ok w" and hs: "handlers_return Q self user fire clock" and Q: "Q (tqueue w)"
    and doc: "eventfd_doc w revs" and n: "0 < wakeup_count (core w)"
  shows "\<exists>w' fs. loop_turn self user fire run clock t (PollReady revs) w =
      rbind (rfold run (pending (core w) @ fs) (batch_start w')) (\<lambda>w. Inr (batch_end w)) \<and>
    lo_ok w' \<and> wakeup_count (core w') = 0 \<and> Q (tqueue w') \<and> thread_id (core w') = thread_id (core w) \<and>
    (\<forall>act. records act user \<longrightarrow>
      lo_io w' = lo_io w @ concat (map (\<lambda>i. event_calls act t (reported w revs i)) (ready (lo_rx w) revs)))"
proof -
  from poll_wakes [OF ok doc n, of t] obtain r active c where
    p: "Poller_poll (PollReady revs) [] (lo_rx w) = Inr (r, active)" "lo_ok (w\<lparr>lo_rx := r, pollReturn := t\<rparr>)"
      "\<forall>ref \<in> set active. chans r ref \<noteq> None" "wakeup_ref w \<in> set active" "chans r (wakeup_ref w) = Some c" "revents c = 1"
      "readCallback c = Some WakeupRead"
    and a: "active = map (channel_at (lo_rx w)) (ready (lo_rx w) revs)"
      "\<forall>i \<in> set (ready (lo_rx w) revs). chans r (channel_at (lo_rx w) i) = Some (reported w revs i)" by blast
  let ?u = "w\<lparr>lo_rx := r, pollReturn := t\<rparr>"
  have u: "fine Q ?u ?u" using p(2) Q by (simp add: fine_def handler_frame_refl)
  from events_fine [OF hs u, of active c] p(3-7) obtain w' where
    w': "rfold (lo_handleEvent self user fire clock) active ?u = Inr w'" "fine Q ?u w'" "wakeup_count (core w') = 0" by auto
  have "lo_io w' = lo_io w @ concat (map (\<lambda>i. event_calls act t (reported w revs i)) (ready (lo_rx w) revs))"
    if "records act user" for act
    using events_log [OF hs that u, of active w'] p(3) w'(1) a by (simp add: comp_def cong: map_cong)
  moreover from w'(2) obtain fs where "pending (core w') = pending (core w) @ fs" by (auto simp: fine_def handler_frame_def)
  ultimately show ?thesis using p(1) w'
    by (intro exI [of _ w'] exI [of _ fs])
      (simp add: loop_turn_def lo_doPendingFunctors_def swap_pending_def fine_def handler_frame_def)
qed

section \<open>Construction and destruction\<close>

definition own_channel :: "int \<Rightarrow> 'h loop_handler \<Rightarrow> int \<Rightarrow> 'h loop_handler channel" where
  "own_channel fd h i = (setReadCallback h (Channel_new fd))\<lparr>events := kReadEvent, index := i\<rparr>"

lemma own_channel_simps [simp]:
  "chan_fd (own_channel fd h i) = fd" "readCallback (own_channel fd h i) = Some h" "events (own_channel fd h i) = 3"
  "index (own_channel fd h i) = i" "\<not> eventHandling (own_channel fd h i)"
  by (simp_all add: own_channel_def setReadCallback_def Channel_new_def)

lemma TimerQueue_construct_eq:
  "TimerQueue_construct self (Ret fd) ref (Poller_new self) = Inr (fd, TimerQueue_new self,
     \<lparr>loop_tid = self, pollfds = [\<lparr>pfd_fd = fd, pfd_events = 3, pfd_revents = 0\<rparr>], channel_map = [fd \<mapsto> ref],
      chans = [ref \<mapsto> own_channel fd TimerRead 0]\<rparr>)"
  by (simp add: TimerQueue_construct_def createTimerfd_def enableReading_def change_events_def updateChannel_def reactor_defs
      new_chan_def Poller_new_def setReadCallback_def Channel_new_def own_channel_def Let_def)

text \<open>The loop after its construction: two channels, in the order in which they were registered.\<close>

definition fresh_rx :: "tid \<Rightarrow> int \<Rightarrow> int \<Rightarrow> chref \<Rightarrow> chref \<Rightarrow> 'h loop_handler reactor" where
  "fresh_rx self tfd wfd tref wref =
     \<lparr>loop_tid = self,
      pollfds = [\<lparr>pfd_fd = tfd, pfd_events = 3, pfd_revents = 0\<rparr>, \<lparr>pfd_fd = wfd, pfd_events = 3, pfd_revents = 0\<rparr>],
      channel_map = [tfd \<mapsto> tref, wfd \<mapsto> wref],
      chans = [tref \<mapsto> own_channel tfd TimerRead 0, wref \<mapsto> own_channel wfd WakeupRead 1]\<rparr>"

definition fresh_loop :: "tid \<Rightarrow> int \<Rightarrow> int \<Rightarrow> chref \<Rightarrow> chref \<Rightarrow> ('f, 'h, 'cb) loop_object" where
  "fresh_loop self tfd wfd tref wref =
     \<lparr>core = \<lparr>looping = False, quit_flag = False, calling_pending = False, thread_id = self, wakeup_count = 0, pending = []\<rparr>,
      lo_rx = fresh_rx self tfd wfd tref wref,
      tqueue = TimerQueue_new self, timer_fd = tfd, timer_ref = tref, wakeup_fd = wfd, wakeup_ref = wref,
      pollReturn = invaild, lo_io = []\<rparr>"

lemma EventLoop_construct_eq:
  assumes "tfd \<noteq> wfd" and "tref \<noteq> wref"
  shows "EventLoop_construct self False (Ret tfd) (Ret wfd) tref wref = Inr (fresh_loop self tfd wfd tref wref)"
  using assms
  by (simp add: EventLoop_construct_def TimerQueue_construct_eq createEventfd_def EventLoop_new_def enableReading_def
      change_events_def updateChannel_def reactor_defs new_chan_def fresh_loop_def fresh_rx_def Let_def)
    (simp add: own_channel_def setReadCallback_def Channel_new_def)

lemma EventLoop_construct_aborts:
  assumes "current \<or> ta = Err e \<or> ea = Err e"
  shows "EventLoop_construct self current ta ea tref wref = Inl Aborted"
  using assms
  by (cases ta; cases ea)
    (auto simp: EventLoop_construct_def TimerQueue_construct_eq createEventfd_def EventLoop_new_def Let_def,
      auto simp: TimerQueue_construct_def createTimerfd_def)

lemma fresh_rx_inv:
  assumes "tfd \<noteq> wfd" and "tref \<noteq> wref" and "0 \<le> tfd" and "0 \<le> wfd"
  shows "reactor_inv (fresh_rx self tfd wfd tref wref)"
proof (rule reactor_invI)
  let ?r = "fresh_rx self tfd wfd tref wref"
  fix i assume "i < length (pollfds ?r)"
  then have "i = 0 \<or> i = 1" by (auto simp: fresh_rx_def)
  then show "slot_ok ?r i"
  proof
    assume "i = 0"
    with assms show ?thesis
      by (intro slot_okI [of _ _ tref "own_channel tfd TimerRead 0"]) (simp_all add: fresh_rx_def pfd_key_def)
  next
    assume "i = 1"
    with assms show ?thesis
      by (intro slot_okI [of _ _ wref "own_channel wfd WakeupRead 1"]) (simp_all add: fresh_rx_def pfd_key_def)
  qed
next
  let ?r = "fresh_rx self tfd wfd tref wref"
  fix fd ref assume "channel_map ?r fd = Some ref"
  then have "fd = tfd \<or> fd = wfd" by (simp add: fresh_rx_def split: if_splits)
  then show "\<exists>i < length (pollfds ?r). pfd_key (pollfds ?r ! i) = fd"
  proof
    assume "fd = tfd"
    with assms show ?thesis by (intro exI [of _ 0]) (simp add: fresh_rx_def pfd_key_def)
  next
    assume "fd = wfd"
    with assms show ?thesis by (intro exI [of _ 1]) (simp add: fresh_rx_def pfd_key_def)
  qed
qed (use assms in \<open>auto simp: fresh_rx_def split: if_splits\<close>)

lemma fresh_loop_ok:
  assumes "tfd \<noteq> wfd" and "tref \<noteq> wref" and "0 \<le> tfd" and "0 \<le> wfd"
  shows "lo_ok (fresh_loop self tfd wfd tref wref)"
proof -
  let ?w = "fresh_loop self tfd wfd tref wref"
  have "watched WakeupRead wref wfd (lo_rx ?w)" "watched TimerRead tref tfd (lo_rx ?w)"
    using assms by (simp_all add: watched_def fresh_loop_def fresh_rx_def)
  with fresh_rx_inv [OF assms, of self] show ?thesis by (simp add: lo_ok_def fresh_loop_def fresh_rx_def)
qed

text \<open>The destructor closes both descriptors once and leaves no channel.\<close>

lemma destroy_fresh_loop:
  assumes "tref \<noteq> wref"
  shows "\<exists>w. EventLoop_destroy (fresh_loop self tfd wfd tref wref) = Inr w \<and> lo_io w = [SysClose wfd, SysClose tfd] \<and>
    chans (lo_rx w) = Map.empty"
  using assms by (simp add: EventLoop_destroy_def TimerQueue_destroy_def EventLoop_dtor_def delete_chan_def deref_def
      Channel_dtor_def sock_close_def fresh_loop_def fresh_rx_def Let_def fun_upd_twist)

text \<open>
  In the loop's thread the loop passes a change of a channel on to its poller; in any other thread
  it aborts.
\<close>

lemma lo_updateChannel_eq:
  assumes "loop_tid (lo_rx w) = thread_id (core w)" and "chans (lo_rx w) ref \<noteq> None"
  shows "lo_updateChannel self ref w = (if self = thread_id (core w)
    then rbind (updateChannel self ref (lo_rx w)) (\<lambda>r. Inr (w\<lparr>lo_rx := r\<rparr>)) else Inl Aborted)"
  using assms by (auto simp: lo_updateChannel_def lo_assertInLoopThread_def isInLoopThread_def deref_def abortNotInThread_def)

lemma lo_removeChannel_eq:
  assumes "loop_tid (lo_rx w) = thread_id (core w)" and "chans (lo_rx w) ref \<noteq> None"
  shows "lo_removeChannel self ref w = (if self = thread_id (core w)
    then rbind (removeChannel self ref (lo_rx w)) (\<lambda>r. Inr (w\<lparr>lo_rx := r\<rparr>)) else Inl Aborted)"
  using assms by (auto simp: lo_removeChannel_def lo_assertInLoopThread_def isInLoopThread_def deref_def abortNotInThread_def)

section \<open>Properties\<close>



end
