(* ===== verification/Loop_Timers.thy ===== *)
theory Loop_Timers
  imports Whole_Loop
begin

text \<open>
  Timers set and cancelled in any thread (src/net/EventLoop.cpp: runAt, runAfter, runEvery, cancel;
  TimerQueue.cpp: addTimer, cancel). The timer is made in the calling thread; its insertion and its
  removal are run by the loop, at once if the caller is in the loop's thread and as a functor
  otherwise.
\<close>

section \<open>Operations\<close>

datatype 'f loop_functor = AddTimerInLoop taddr | CancelInLoop timer_id | UserFunctor 'f

definition lo_addTimer ::
  "tid \<Rightarrow> 'cb \<Rightarrow> timestamp \<Rightarrow> double \<Rightarrow> taddr \<Rightarrow> timestamp \<Rightarrow> ('f loop_functor, 'h, 'cb) loop_object \<Rightarrow>
   (timer_id \<times> ('f loop_functor, 'h, 'cb) loop_object) result" where
  "lo_addTimer self cb when intv a now w =
     (case create_timer cb when intv a (tqueue w) of (i, q) \<Rightarrow>
      let w = w\<lparr>tqueue := q\<rparr> in
      if isInLoopThread self (core w) then rbind (addTimerInLoop self a now q) (\<lambda>q. Inr (i, w\<lparr>tqueue := q\<rparr>))
      else Inr (i, w\<lparr>core := queueInLoop self (AddTimerInLoop a) (core w)\<rparr>))"

definition lo_cancel ::
  "tid \<Rightarrow> timer_id \<Rightarrow> ('f loop_functor, 'h, 'cb) loop_object \<Rightarrow> ('f loop_functor, 'h, 'cb) loop_object result" where
  "lo_cancel self i w =
     (if isInLoopThread self (core w) then rbind (cancelInLoop self i (tqueue w)) (\<lambda>q. Inr (w\<lparr>tqueue := q\<rparr>))
      else Inr (w\<lparr>core := queueInLoop self (CancelInLoop i) (core w)\<rparr>))"

definition EventLoop_cancel ::
  "tid \<Rightarrow> timer_id \<Rightarrow> ('f loop_functor, 'h, 'cb) loop_object \<Rightarrow> ('f loop_functor, 'h, 'cb) loop_object result" where
  "EventLoop_cancel self i w = lo_cancel self i w"

definition lo_runAfter ::
  "tid \<Rightarrow> double \<Rightarrow> 'cb \<Rightarrow> taddr \<Rightarrow> timestamp \<Rightarrow> ('f loop_functor, 'h, 'cb) loop_object \<Rightarrow>
   (timer_id \<times> ('f loop_functor, 'h, 'cb) loop_object) result" where
  "lo_runAfter self delay cb a now w = rbind (addTime now delay) (\<lambda>time. lo_addTimer self cb time (Dbl 0 0) a now w)"

definition lo_runEvery ::
  "tid \<Rightarrow> double \<Rightarrow> 'cb \<Rightarrow> taddr \<Rightarrow> timestamp \<Rightarrow> ('f loop_functor, 'h, 'cb) loop_object \<Rightarrow>
   (timer_id \<times> ('f loop_functor, 'h, 'cb) loop_object) result" where
  "lo_runEvery self intv cb a now w = rbind (addTime now intv) (\<lambda>time. lo_addTimer self cb time intv a now w)"

definition lo_run ::
  "tid \<Rightarrow> ('f \<Rightarrow> ('f loop_functor, 'h, 'cb) loop_object \<Rightarrow> ('f loop_functor, 'h, 'cb) loop_object result) \<Rightarrow> timestamp \<Rightarrow>
   'f loop_functor \<Rightarrow> ('f loop_functor, 'h, 'cb) loop_object \<Rightarrow> ('f loop_functor, 'h, 'cb) loop_object result" where
  "lo_run self user now f w = (case f of
       AddTimerInLoop a \<Rightarrow> rbind (addTimerInLoop self a now (tqueue w)) (\<lambda>q. Inr (w\<lparr>tqueue := q\<rparr>))
     | CancelInLoop i \<Rightarrow> rbind (cancelInLoop self i (tqueue w)) (\<lambda>q. Inr (w\<lparr>tqueue := q\<rparr>))
     | UserFunctor g \<Rightarrow> user g w)"

section \<open>Lemmas\<close>

text \<open>A timer that has been made and waits for its insertion.\<close>

definition waiting_timer :: "tid \<Rightarrow> taddr \<Rightarrow> 'cb timer \<Rightarrow> 'cb timer_queue \<Rightarrow> bool" where
  "waiting_timer self a t q \<longleftrightarrow> tq_inv q \<and> armed q \<and> tq_tid q = self \<and> theap q a = Some t \<and> sched q a = None"

lemma create_timer_waits:
  assumes "tq_inv q" and "armed q" and "fresh a q" and "in_int64 (micros when)"
  shows "waiting_timer (tq_tid q) a (Timer_new cb when intv (numCreated q + 1)) (snd (create_timer cb when intv a q))"
  using create_timer_ok [OF assms(1,3,4) refl, of cb intv] assms(2) by (simp add: waiting_timer_def armed_def)

lemma insert_waiting:
  assumes w: "waiting_timer self a t q" and r: "in_int64 (micros (expiration t) - micros now)"
  shows "\<exists>q'. addTimerInLoop self a now q = Inr q' \<and> tq_inv q' \<and> armed q' \<and> sched q' = (sched q)(a \<mapsto> t)"
proof -
  from w have q: "tq_inv q" "armed q" "self = tq_tid q" "theap q a = Some t" "sched q a = None"
    by (simp_all add: waiting_timer_def)
  have "\<exists>q'. addTimerInLoop self a now q = Inr q'"
    using q(3,4) r by (simp add: addTimerInLoop_def assertInLoop_def tq_insert_eq [OF q(1,4,5) refl] tderef_def resetTimerfd_eq)
  then obtain q' where q': "addTimerInLoop self a now q = Inr q'" by blast
  note ok = addTimerInLoop_ok [OF q(1,4,5,3) q']
  from ok(6) q(2) have "armed q'" by (simp add: armed_def)
  with q' ok show ?thesis by blast
qed

text \<open>From any other thread: the identifier at once, the insertion as a functor.\<close>

lemma addTimer_elsewhere:
  assumes "other \<noteq> thread_id (core w)"
  shows "lo_addTimer other cb when intv a now w = Inr (\<lparr>timer_ptr = a, timer_seq = numCreated (tqueue w) + 1\<rparr>,
    w\<lparr>tqueue := snd (create_timer cb when intv a (tqueue w)), core := queueInLoop other (AddTimerInLoop a) (core w)\<rparr>)"
  using assms by (simp add: lo_addTimer_def create_timer_def isInLoopThread_def Let_def)

section \<open>Properties\<close>

text \<open>
  C11. A timer that another thread sets: it gets its identifier at once, and \<open>poll\<close> does not wait. In
  the turn that follows, whatever else is ready, the loop runs the functors that were pending before,
  then the insertion of the timer, then the functors that the handlers have queued. If those before
  return, the insertion returns with the timer scheduled, as it was made, and the timerfd armed.
  This holds as long as the handlers of the turn and the functors before leave the new timer alone:
  \<open>Q\<close> is any property of the timer queue that they keep, that the new queue has, and that says that
  the timer is there and not yet scheduled.
\<close>

theorem timer_set_elsewhere:
  assumes "lo_ok w" and "tq_inv (tqueue w)" and "armed (tqueue w)" and "tq_tid (tqueue w) = thread_id (core w)"
    and "fresh a (tqueue w)" and "in_int64 (micros when)" and "in_int64 (micros when - micros now)"
    and "other \<noteq> thread_id (core w)" and "self = thread_id (core w)"
    and "tmr = Timer_new cb when intv (numCreated (tqueue w) + 1)"
    and "handlers_return Q self user fire clock" and "\<forall>q. Q q \<longrightarrow> waiting_timer self a tmr q"
    and "Q (snd (create_timer cb when intv a (tqueue w)))"
    and "\<forall>f \<in> set (pending (core w)). \<forall>u u'. Q (tqueue u) \<longrightarrow> lo_run self uf now f u = Inr u' \<longrightarrow> Q (tqueue u')"
    and "lo_addTimer other cb when intv a t0 w = Inr (i, w1)" and "eventfd_doc w1 revs"
  shows "i = \<lparr>timer_ptr = a, timer_seq = sequence tmr\<rparr> \<and> 0 < poll_count revs \<and>
    (\<exists>w' fs. loop_turn self user fire (lo_run self uf now) clock t (PollReady revs) w1 =
        rbind (rfold (lo_run self uf now) (pending (core w)) (batch_start w')) (\<lambda>u.
        rbind (lo_run self uf now (AddTimerInLoop a) u) (\<lambda>v.
        rbind (rfold (lo_run self uf now) fs v) (\<lambda>w. Inr (batch_end w)))) \<and>
      (\<forall>u. rfold (lo_run self uf now) (pending (core w)) (batch_start w') = Inr u \<longrightarrow>
        (\<exists>v. lo_run self uf now (AddTimerInLoop a) u = Inr v \<and> tq_inv (tqueue v) \<and> armed (tqueue v) \<and>
          sched (tqueue v) = (sched (tqueue u))(a \<mapsto> tmr))))"
proof -
  let ?q = "snd (create_timer cb when intv a (tqueue w))" and ?run = "lo_run self uf now"
  from addTimer_elsewhere [OF assms(8), of cb "when" intv a t0] assms(15) have
    i: "i = \<lparr>timer_ptr = a, timer_seq = numCreated (tqueue w) + 1\<rparr>"
    and w1: "w1 = w\<lparr>tqueue := ?q, core := queueInLoop other (AddTimerInLoop a) (core w)\<rparr>" by simp_all
  have l: "pending (core w1) = pending (core w) @ [AddTimerInLoop a]" "0 < wakeup_count (core w1)" "thread_id (core w1) = thread_id (core w)"
    using assms(8) by (simp_all add: w1 queueInLoop_eq isInLoopThread_def Let_def)
  have ok: "lo_ok w1" using assms(1) l(3) by (simp add: w1 lo_ok_def)
  have Q: "Q (tqueue w1)" using assms(13) by (simp add: w1)
  from turn_wakes [OF ok assms(11) Q assms(16) l(2), of ?run t] obtain w' fs where
    turn: "loop_turn self user fire ?run clock t (PollReady revs) w1 =
      rbind (rfold ?run ((pending (core w) @ [AddTimerInLoop a]) @ fs) (batch_start w')) (\<lambda>w. Inr (batch_end w))"
    and q: "Q (tqueue w')" unfolding l(1) by blast
  have ins: "\<exists>v. ?run (AddTimerInLoop a) u = Inr v \<and> tq_inv (tqueue v) \<and> armed (tqueue v) \<and>
      sched (tqueue v) = (sched (tqueue u))(a \<mapsto> tmr)"
    if u: "rfold ?run (pending (core w)) (batch_start w') = Inr u" for u
  proof -
    have "Q (tqueue u)"
      by (rule rfold_inv [OF _ _ u, of "\<lambda>u. Q (tqueue u)"]) (use assms(14) q in \<open>auto simp: batch_start_def\<close>)
    then have wt: "waiting_timer self a tmr (tqueue u)" using assms(12) by blast
    have "in_int64 (micros (expiration tmr) - micros now)" using assms(7,10) by (simp add: Timer_new_def)
    from insert_waiting [OF wt this] show ?thesis by (auto simp: lo_run_def)
  qed
  have eq: "loop_turn self user fire ?run clock t (PollReady revs) w1 =
        rbind (rfold ?run (pending (core w)) (batch_start w')) (\<lambda>u. rbind (?run (AddTimerInLoop a) u) (\<lambda>v.
        rbind (rfold ?run fs v) (\<lambda>w. Inr (batch_end w))))"
    unfolding turn rfold_append by (simp add: rbind_assoc)
  have "sequence tmr = numCreated (tqueue w) + 1" using assms(10) by (simp add: Timer_new_def)
  moreover have "0 < poll_count revs" using poll_wakes [OF ok assms(16) l(2)] by blast
  ultimately show ?thesis using i eq ins by (intro conjI exI [of _ w'] exI [of _ fs]) simp_all
qed

theorem timer_set_elsewhere_witness:
  "\<exists>(w :: (unit loop_functor, unit, unit) loop_object) w1 i w' v fs. pending (core w) = [UserFunctor ()] \<and>
     lo_addTimer 2 () (Timestamp 1000) (Dbl 0 0) 8 (Timestamp 1) w = Inr (i, w1) \<and>
     loop_turn 1 (\<lambda>_ _. Inr) (\<lambda>_. Inr) (lo_run 1 (\<lambda>_. Inr) (Timestamp 1)) (Timestamp 1, Timestamp 1) (Timestamp 1) (PollReady [0, 1]) w1 =
       rbind (rfold (lo_run 1 (\<lambda>_. Inr) (Timestamp 1)) fs v) (\<lambda>w. Inr (batch_end w)) \<and>
     sched (tqueue v) 8 = Some (Timer_new () (Timestamp 1000) (Dbl 0 0) 1)"
proof -
  let ?base = "fresh_loop 1 3 4 0 1 :: (unit loop_functor, unit, unit) loop_object"
  let ?w = "?base\<lparr>core := push_pending (UserFunctor ()) (core ?base)\<rparr>"
  let ?t = "Timer_new () (Timestamp 1000) (Dbl 0 0) (numCreated (tqueue ?w) + 1)"
  let ?q = "snd (create_timer () (Timestamp 1000) (Dbl 0 0) 8 (tqueue ?w))"
  let ?Q = "\<lambda>q. q = ?q" and ?run = "lo_run 1 (\<lambda>_. Inr) (Timestamp 1) :: _ \<Rightarrow> _ \<Rightarrow> (unit loop_functor, unit, unit) loop_object result"
  have tq: "tqueue ?w = TimerQueue_new 1" "thread_id (core ?w) = 1" "pending (core ?w) = [UserFunctor ()]" by (simp_all add: fresh_loop_def)
  have q: "tq_inv (tqueue ?w)" "armed (tqueue ?w)" "tq_tid (tqueue ?w) = thread_id (core ?w)" "fresh 8 (tqueue ?w)"
    unfolding tq by (simp_all add: TimerQueue_new_inv) (simp_all add: armed_def TimerQueue_new_def fresh_def UINTPTR_MAX_def)
  have r: "in_int64 (micros (Timestamp 1000))" "in_int64 (micros (Timestamp 1000) - micros (Timestamp 1))" by (simp_all add: in_int64_def)
  have wt: "\<forall>q. ?Q q \<longrightarrow> waiting_timer 1 8 ?t q" using create_timer_waits [OF q(1,2,4) r(1), of "()" "Dbl 0 0"] tq q(3) by simp
  have "tq_handleRead 1 (\<lambda>_. Inr) (Timestamp 1) (Timestamp 1) ?q = Inr ?q"
    unfolding tq by (simp add: create_timer_def tq_handleRead_def assertInLoop_def readTimerfd_def getExpired_def sizes_agree_def
        tq_reset_def set_split_def TimerQueue_new_def valid_def Let_def)
  then have hs: "handlers_return ?Q 1 (\<lambda>_ _. Inr :: _ \<Rightarrow> (unit loop_functor, unit, unit) loop_object result) (\<lambda>_. Inr) (Timestamp 1, Timestamp 1)"
    by (auto simp: handlers_return_def handler_frame_refl)
  have "lo_ok ?base" by (rule fresh_loop_ok) simp_all
  from lo_ok_core [OF this, of "push_pending (UserFunctor ()) (core ?base)"] have ok: "lo_ok ?w" by simp
  have ne: "2 \<noteq> thread_id (core ?w)" "1 = thread_id (core ?w)" by (simp_all add: fresh_loop_def)
  have keep: "\<forall>f \<in> set (pending (core ?w)). \<forall>u u'. ?Q (tqueue u) \<longrightarrow> ?run f u = Inr u' \<longrightarrow> ?Q (tqueue u')"
    unfolding tq by (simp add: lo_run_def)
  note add = addTimer_elsewhere [OF ne(1), of "()" "Timestamp 1000" "Dbl 0 0" 8 "Timestamp 1"]
  have doc: "eventfd_doc (?w\<lparr>tqueue := ?q, core := queueInLoop 2 (AddTimerInLoop 8) (core ?w)\<rparr>) [0, 1]"
    by (auto simp: eventfd_doc_def poll_doc_def fresh_loop_def fresh_rx_def queueInLoop_eq push_pending_def isInLoopThread_def
        wakeup_def less_Suc_eq Let_def)
  from timer_set_elsewhere [OF ok q(1-4) r ne refl hs wt refl keep add doc, of "Timestamp 1"] obtain w' fs where
    turn: "loop_turn 1 (\<lambda>_ _. Inr) (\<lambda>_. Inr) ?run (Timestamp 1, Timestamp 1) (Timestamp 1) (PollReady [0, 1])
        (?w\<lparr>tqueue := ?q, core := queueInLoop 2 (AddTimerInLoop 8) (core ?w)\<rparr>) =
        rbind (rfold ?run (pending (core ?w)) (batch_start w')) (\<lambda>u. rbind (?run (AddTimerInLoop 8) u) (\<lambda>v.
        rbind (rfold ?run fs v) (\<lambda>w. Inr (batch_end w))))"
    and ins: "\<forall>u. rfold ?run (pending (core ?w)) (batch_start w') = Inr u \<longrightarrow>
        (\<exists>v. ?run (AddTimerInLoop 8) u = Inr v \<and> sched (tqueue v) = (sched (tqueue u))(8 \<mapsto> ?t))" by blast
  have first: "rfold ?run (pending (core ?w)) (batch_start w') = Inr (batch_start w')" unfolding tq by (simp add: lo_run_def)
  with ins obtain v where v: "?run (AddTimerInLoop 8) (batch_start w') = Inr v" "sched (tqueue v) 8 = Some ?t" by auto
  with turn first have "loop_turn 1 (\<lambda>_ _. Inr) (\<lambda>_. Inr) ?run (Timestamp 1, Timestamp 1) (Timestamp 1) (PollReady [0, 1])
        (?w\<lparr>tqueue := ?q, core := queueInLoop 2 (AddTimerInLoop 8) (core ?w)\<rparr>) = rbind (rfold ?run fs v) (\<lambda>w. Inr (batch_end w))"
    by simp
  moreover have "?t = Timer_new () (Timestamp 1000) (Dbl 0 0) 1" unfolding tq by (simp add: TimerQueue_new_def)
  ultimately show ?thesis using add tq(3) v(2) by metis
qed

end
