(* ===== verification/Spec2Isabelle.thy ===== *)
theory Spec2Isabelle
  imports Byte_Buffer Timestamps Sockets Channels Pollers Timer_Queue Event_Loop Tcp_Connection Conn_Frame Conn_Loop Conn_Turn Tcp_Stream Connectors
    Monitors Latches Threads Thread_Pool Pool_Threads Loop_Threads
    Conn_Store Tcp_Server Server_Life Tcp_Client Whole_Loop Loop_Timers
begin

text \<open>
  Dalin: a C++11 network library in the reactor style (src/base and src/net of the repository).

  \<^bold>\<open>The program.\<close> An EventLoop belongs to one thread. It waits in its Poller for descriptors, lets the
  Channel of each ready descriptor call its callbacks, and then runs the functors that other threads
  have handed to it. A TimerQueue is one more descriptor of the loop. An Acceptor or a Connector
  produces connected descriptors, a TcpConnection owns one with an input and an output Buffer; TcpServer
  and TcpClient tie these together, over a pool of loops. src/base has time, mutexes, condition
  variables, a latch, threads and a thread pool.

  \<^bold>\<open>Theories.\<close>
    \<^item> Prelude: faults and the sum type of results (a failed assert, abort, an access outside a vector,
      a dangling or null pointer, signed overflow, the call of an empty function), loops over a vector,
      C++ integer division, decimal text, reachable states. The build files define no NDEBUG, so a
      failed assertion is the fault AssertFail of the process.
    \<^item> Interfaces: the contracts between components as locales: a queue of bytes, a registry of
      channels, an ordered set. Each is interpreted on the model of its provider (in Byte\_Buffer,
      Pollers and Timer\_Queue); the locale of invariants in Prelude on every step relation,
      that of simulations on the threads of a pool; the waiting loop (in Monitors) on the latch and on
      EventLoopThread; the owner of connections (in Conn\_Store) on the server and on the client.
    \<^item> Byte\_Buffer: net/Buffer.h, Buffer.cpp. A vector of bytes with two indices of type
      size\_t, kept as 64-bit words. Append, retrieve, prepend, shrink and readFd against the queue of
      bytes they stand for; sequences of calls, with what each asks of its caller.
    \<^item> Doubles, Timestamps: base/Timestamp.h, Timestamp.cpp. Microseconds in 64 bits; the arithmetic
      of doubles that the delays go through is computed exactly and rounded to 53 bits.
    \<^item> Sockets: net/SocketsOps, InetAddress, Socket. Byte order, address text, and the wrappers of
      the system calls, whose answers are arguments.
    \<^item> Channels, Pollers: net/Channel, Poller. Dispatch of the events of a descriptor; the array
      handed to poll(2), the map of channels and their positions, with registration and removal.
    \<^item> Timer\_Queue: net/Timer, TimerId, TimerQueue. The two ordered sets of timers, the objects
      behind their pointers, alarms with callbacks that may add and cancel timers; \<open>getExpired\<close> against
      the partition of the sets that it stands for.
    \<^item> Event\_Loop: net/EventLoop. The member functions, and the interleaving of the loop's thread with
      other threads, statement by statement of the functions they call, as a step relation; a run of the function loop()
      is shown to be a run of the steps of its thread that calls the same handlers and functors.
    \<^item> Whole\_Loop, Loop\_Timers: an EventLoop with its parts, wired by the channels of the eventfd and the
      timerfd: construction and destruction, one turn of the loop through the poller, the channels,
      the timer queue and the functors; timers that any thread sets and cancels.
    \<^item> Tcp\_Connection: net/TcpConnection. Sending, reading, closing, over one channel of a poller and
      two buffers.
    \<^item> Conn\_Frame, Conn\_Loop: what an operation of a connection leaves alone, and any number of
      connections that share the poller of a loop, from construction to deletion.
    \<^item> Conn\_Turn: one turn of a loop over such connections, from the array of poll(2) through the
      channels to the buffers.
    \<^item> Tcp\_Stream: two connections at the two ends of a TCP connection, with the two streams of bytes
      between them: from the \<open>send\<close> of one user to the input buffer of the other.
    \<^item> Connectors: net/Connector, Acceptor. Attempts with their retries and descriptors; accepting.
    \<^item> Monitors, Latches: base/Mutex.h, Condition, CountDownLatch. The mutex with its holder, and the
      waiting loop of a thread in a critical section as a step relation over any number of threads,
      with spurious wake-ups; the latch is an instance of it.
    \<^item> Threads, Thread\_Pool: base/Thread, CurrentThread, ThreadPool. The life of a thread and of its
      pthread; the bounded queue of tasks between producers and workers, and the stop of the pool.
    \<^item> Pool\_Threads: the threads of such a pool one by one, around its mutex and its two conditions, in
      steps of one lock, unlock or wait; it simulates both Monitors and, counted, Thread\_Pool. The end of
      the workers of a stopped pool, and the jam of a pool whose tasks add tasks.
    \<^item> Loop\_Threads: net/EventLoopThread, EventLoopThreadPool. The hand-over of the loop from its
      thread, an instance of Monitors; the distribution of connections over the loops.
    \<^item> Conn\_Store: what TcpServer and TcpClient share: TcpConnection objects with the number of their
      references, the variables that lambdas capture by reference, the functors queued in each loop,
      and the events of a connection's channel, up to the close callback of its owner.
    \<^item> Tcp\_Server, Tcp\_Client: net/TcpServer, TcpClient, over that store, the Acceptor with the pool of
      loops, and the Connector.
    \<^item> Server\_Life: a TcpServer without I/O threads with all its connections, from its construction to
      the first connection that closes: accepting, traffic, polling, functors and the references of
      the user as a step relation, whose reachable states have exact reference counts.

  \<^bold>\<open>Correspondence.\<close> A definition has the name of the C++ function it models, with a prefix where two
  classes share a name (\<open>conn_handleRead\<close>, \<open>tq_handleRead\<close>, \<open>cn_handleWrite\<close>). Objects are records with
  the members of the class; a pointer to a channel or a timer is the address of a store inside the
  poller or the queue, so that using a deleted object is the fault Dangling. The thread that calls
  is the argument \<open>self\<close>. What the kernel answers, the clock, and the addresses that new returns are
  arguments, with hypotheses that state what poll(2), write(2) and the allocator document
  (\<open>poll_doc\<close>, \<open>write_doc\<close>, \<open>net_doc\<close>, \<open>fresh\<close>). Callbacks of the user are functions of the state of the component;
  where they act on it, they do so by its operations (\<open>uses_interface\<close>, \<open>functors_own\<close>) or keep a frame of it
  (\<open>callback_keeps\<close>, \<open>handlers_return\<close>).

  \<^bold>\<open>Lemmas.\<close> For each component: its invariant and that every operation keeps it; the effect of every
  operation, that it returns under the invariant (so that no assertion fails), and what it leaves
  alone; then the properties, at the end of the theory. The components with several threads (Event\_Loop,
  Monitors and its instances, Thread\_Pool) have step relations, and their lemmas are invariants of
  all reachable states. Behaviour of the code that its authors cannot have meant is stated as well:
  a channel that is ignored after it has been enabled again, timers that are never deleted, a quit
  that is lost, a send that uses a dead connection, an error of write that ends the process, a byte
  count passed for a time, a send that a shutdown overtakes, a connector that cannot be started again, a mutex that loses its holder
  in a timed wait, producers that wait for ever on a stopped pool, tasks that stop a pool by adding tasks, and the closing of connections in
  the server and the client, whose lambdas refer to variables that are gone.

  \<^bold>\<open>Bounds.\<close> A buffer is a vector of fewer than \<open>2 ^ 63\<close> bytes; \<open>room\<close> is the bound below which append
  cannot exceed it. Times are 64-bit microseconds with overflow as a fault. Doubles have no
  infinities and no subnormals, far outside the delays that occur. Loops of the code run over
  finite vectors and are recursions over lists, so no fuel is needed; the one loop that need not
  end, \<open>loop()\<close>, is a recursion over the answers of poll and reports whether it has returned.

  \<^bold>\<open>Not modelled.\<close> Noncopyable (it forbids copies at compile time), logging to stderr, the SIGPIPE
  handler, the name that prctl gives a thread for the kernel, and the tests and examples. The user's
  callbacks are arguments. A store of connections has a reactor for the channels of connections in
  each loop, and the acceptor and the connector have reactors of their own, so that a
  mistaken use of one kind of channel as another is not expressed. In Tcp\_Server and Tcp\_Client the
  steps of different threads are whole operations and batches of functors. In Tcp\_Stream the network loses
  nothing and may delay for ever; a reset connection is a failing write or the end of the steps.
  The members that only name a callback are arguments of the operations that call it.
\<close>

end
